(* ===== verification/Prelude.thy ===== *)
theory Prelude
  imports Main "HOL-Library.Word" "HOL-Library.Monad_Syntax"
begin

text \<open>
  Shared vocabulary of the development: the widths of Go's unsigned integers, the
  convention for failures, and generic lemmas on lists, options and words.

  Failures follow one convention throughout.  A Go \<^verbatim>\<open>panic\<close> (an explicit one, an
  out-of-range index, a division by zero, a nil dereference) is the value \<open>None\<close> of an
  option type; a Go \<^verbatim>\<open>error\<close> result is the left injection of a sum type.  A function
  that can do both has a result of type \<open>(error + 'a) option\<close>.
\<close>

unbundle bit_operations_syntax

type_synonym u8 = "8 word"
type_synonym u16 = "16 word"
type_synonym u32 = "32 word"
type_synonym u64 = "64 word"

named_theorems outcome_simps \<open>unfolding rules for the option and sum plumbing\<close>

section \<open>Slices\<close>

text \<open>Reading a Go slice: an index outside the slice panics.\<close>

definition slice_get :: "'a list \<Rightarrow> nat \<Rightarrow> 'a option" where
  "slice_get xs i = (if i < length xs then Some (xs ! i) else None)"

text \<open>Removing one element: \<^verbatim>\<open>append(xs[:i], xs[i+1:]...)\<close>.\<close>

definition slice_remove :: "'a list \<Rightarrow> nat \<Rightarrow> 'a list" where
  "slice_remove xs i = take i xs @ drop (Suc i) xs"

lemma slice_get_Some [simp]: "slice_get xs i = Some x \<longleftrightarrow> i < length xs \<and> xs ! i = x"
  by (simp add: slice_get_def)

lemma slice_get_None [simp]: "slice_get xs i = None \<longleftrightarrow> length xs \<le> i"
  by (simp add: slice_get_def not_less)

lemma slice_get_in [simp]: "i < length xs \<Longrightarrow> slice_get xs i = Some (xs ! i)"
  by simp

lemma length_slice_remove [simp]: "i < length xs \<Longrightarrow> length (slice_remove xs i) = length xs - 1"
  by (simp add: slice_remove_def)

lemma nth_slice_remove:
  "i < length xs \<Longrightarrow> j < length xs - 1 \<Longrightarrow>
     slice_remove xs i ! j = (if j < i then xs ! j else xs ! Suc j)"
  by (auto simp: slice_remove_def nth_append min_def)

section \<open>Options\<close>

lemma bind_Some_iff [simp]:
  "Option.bind x f = Some y \<longleftrightarrow> (\<exists>z. x = Some z \<and> f z = Some y)"
  by (cases x) auto

text \<open>Folding a fallible step over a list, as a loop whose body may panic.\<close>

fun foldm :: "('a \<Rightarrow> 's \<Rightarrow> 's option) \<Rightarrow> 'a list \<Rightarrow> 's \<Rightarrow> 's option" where
  "foldm f [] s = Some s"
| "foldm f (x # xs) s = Option.bind (f x s) (foldm f xs)"

lemma foldm_append: "foldm f (xs @ ys) s = Option.bind (foldm f xs s) (foldm f ys)"
proof (induction xs arbitrary: s)
  case (Cons x xs)
  then show ?case by (cases "f x s") simp_all
qed simp

text \<open>An invariant that every step keeps (and under which no step panics) holds at the end.\<close>

lemma foldm_invariant:
  assumes "I s" and "\<And>x s. x \<in> set xs \<Longrightarrow> I s \<Longrightarrow> \<exists>t. f x s = Some t \<and> I t"
  shows "\<exists>t. foldm f xs s = Some t \<and> I t"
  using assms
proof (induction xs arbitrary: s)
  case Nil
  then show ?case by simp
next
  case (Cons x xs)
  from Cons.prems obtain t where t: "f x s = Some t" "I t" by fastforce
  have "\<exists>u. foldm f xs t = Some u \<and> I u"
    by (rule Cons.IH[OF t(2)]) (use Cons.prems(2) in fastforce)
  with t show ?case by simp
qed

section \<open>Words\<close>

lemma unat_u8_less [simp]: "unat (x :: u8) < 256"
  using unsigned_less[of x] by simp

lemma unat_u8_le [simp]: "unat (x :: u8) \<le> 255"
  using unat_u8_less[of x] by linarith

lemma unat_u32_less [simp]: "unat (x :: u32) < 4294967296"
  using unsigned_less[of x] by simp

lemma unat_of_nat_u8: "n < 256 \<Longrightarrow> unat (of_nat n :: u8) = n"
  by (simp add: unat_of_nat)

lemma unat_of_nat_u32: "n < 4294967296 \<Longrightarrow> unat (of_nat n :: u32) = n"
  by (simp add: unat_of_nat)

lemma unat_minus_one_pos: "0 < unat (x :: 'a::len word) \<Longrightarrow> unat (x - 1) = unat x - 1"
  by (metis One_nat_def unat_0 unat_minus_one less_irrefl_nat)

lemma ucast_u8_inj:
  assumes "(ucast (a :: u8) :: u32) = ucast b"
  shows "a = b"
proof -
  have "(ucast (ucast x :: u32) :: u8) = x" for x :: u8
    by (rule ucast_up_ucast_id) (simp only: is_up, simp)
  then show ?thesis by (metis assms)
qed

end
