(* ===== verification/Bpf_Instruction.thy ===== *)
theory Bpf_Instruction
  imports Prelude
begin

text \<open>
  The BPF instruction set of \<^verbatim>\<open>pkg/bpf/bpf.go\<close>: opcode constants, the instruction
  record (\<^verbatim>\<open>linux.BPFInstruction\<close>, whose field \<^verbatim>\<open>K\<close> is \<open>ImmK\<close> here, the
  constant \<^verbatim>\<open>K\<close> being \<open>bpf_K\<close>), its constructors, the equivalence test \<open>Equal\<close>
  and the classification predicates.  Constants carry the package name as a prefix.
\<close>

section \<open>Constants\<close>

abbreviation MaxInstructions :: nat where "MaxInstructions \<equiv> 4096"
abbreviation ScratchMemRegisters :: nat where "ScratchMemRegisters \<equiv> 16"

text \<open>Instruction classes, bits 0 to 2.\<close>

abbreviation bpf_Ld :: u16 where "bpf_Ld \<equiv> 0x00"
abbreviation bpf_Ldx :: u16 where "bpf_Ldx \<equiv> 0x01"
abbreviation bpf_St :: u16 where "bpf_St \<equiv> 0x02"
abbreviation bpf_Stx :: u16 where "bpf_Stx \<equiv> 0x03"
abbreviation bpf_Alu :: u16 where "bpf_Alu \<equiv> 0x04"
abbreviation bpf_Jmp :: u16 where "bpf_Jmp \<equiv> 0x05"
abbreviation bpf_Ret :: u16 where "bpf_Ret \<equiv> 0x06"
abbreviation bpf_Misc :: u16 where "bpf_Misc \<equiv> 0x07"
abbreviation instructionClassMask :: u16 where "instructionClassMask \<equiv> 0x07"

text \<open>Load sizes, bits 3 and 4.\<close>

abbreviation bpf_W :: u16 where "bpf_W \<equiv> 0x00"
abbreviation bpf_H :: u16 where "bpf_H \<equiv> 0x08"
abbreviation bpf_B :: u16 where "bpf_B \<equiv> 0x10"
abbreviation loadSizeMask :: u16 where "loadSizeMask \<equiv> 0x18"

text \<open>Load modes, bits 5 to 7.\<close>

abbreviation bpf_Imm :: u16 where "bpf_Imm \<equiv> 0x00"
abbreviation bpf_Abs :: u16 where "bpf_Abs \<equiv> 0x20"
abbreviation bpf_Ind :: u16 where "bpf_Ind \<equiv> 0x40"
abbreviation bpf_Mem :: u16 where "bpf_Mem \<equiv> 0x60"
abbreviation bpf_Len :: u16 where "bpf_Len \<equiv> 0x80"
abbreviation bpf_Msh :: u16 where "bpf_Msh \<equiv> 0xa0"
abbreviation loadModeMask :: u16 where "loadModeMask \<equiv> 0xe0"

text \<open>Source operands.\<close>

abbreviation bpf_K :: u16 where "bpf_K \<equiv> 0x00"
abbreviation bpf_X :: u16 where "bpf_X \<equiv> 0x08"
abbreviation bpf_A :: u16 where "bpf_A \<equiv> 0x10"
abbreviation operandMask :: u16 where "operandMask \<equiv> bpf_K OR bpf_X OR bpf_A"
abbreviation srcAluJmpMask :: u16 where "srcAluJmpMask \<equiv> 0x08"
abbreviation srcRetMask :: u16 where "srcRetMask \<equiv> 0x18"

text \<open>Arithmetic, bits 4 to 7.\<close>

abbreviation bpf_Add :: u16 where "bpf_Add \<equiv> 0x00"
abbreviation bpf_Sub :: u16 where "bpf_Sub \<equiv> 0x10"
abbreviation bpf_Mul :: u16 where "bpf_Mul \<equiv> 0x20"
abbreviation bpf_Div :: u16 where "bpf_Div \<equiv> 0x30"
abbreviation bpf_Or :: u16 where "bpf_Or \<equiv> 0x40"
abbreviation bpf_And :: u16 where "bpf_And \<equiv> 0x50"
abbreviation bpf_Lsh :: u16 where "bpf_Lsh \<equiv> 0x60"
abbreviation bpf_Rsh :: u16 where "bpf_Rsh \<equiv> 0x70"
abbreviation bpf_Neg :: u16 where "bpf_Neg \<equiv> 0x80"
abbreviation bpf_Mod :: u16 where "bpf_Mod \<equiv> 0x90"
abbreviation bpf_Xor :: u16 where "bpf_Xor \<equiv> 0xa0"
abbreviation aluMask :: u16 where "aluMask \<equiv> 0xf0"

text \<open>Jumps, bits 4 to 7.\<close>

abbreviation bpf_Ja :: u16 where "bpf_Ja \<equiv> 0x00"
abbreviation bpf_Jeq :: u16 where "bpf_Jeq \<equiv> 0x10"
abbreviation bpf_Jgt :: u16 where "bpf_Jgt \<equiv> 0x20"
abbreviation bpf_Jge :: u16 where "bpf_Jge \<equiv> 0x30"
abbreviation bpf_Jset :: u16 where "bpf_Jset \<equiv> 0x40"
abbreviation jmpMask :: u16 where "jmpMask \<equiv> 0xf0"

text \<open>Miscellaneous, bits 3 to 7, and the masks of bits that must be zero.\<close>

abbreviation bpf_Tax :: u16 where "bpf_Tax \<equiv> 0x00"
abbreviation bpf_Txa :: u16 where "bpf_Txa \<equiv> 0x80"
abbreviation miscMask :: u16 where "miscMask \<equiv> 0xf8"
abbreviation unusedBitsMask :: u16 where "unusedBitsMask \<equiv> 0xff00"
abbreviation storeUnusedBitsMask :: u16 where "storeUnusedBitsMask \<equiv> 0xf8"
abbreviation retUnusedBitsMask :: u16 where "retUnusedBitsMask \<equiv> 0xe0"

section \<open>Instructions\<close>

record insn =
  OpCode :: u16
  JumpIfTrue :: u8
  JumpIfFalse :: u8
  ImmK :: u32

definition RawInstruction :: "u16 \<Rightarrow> u8 \<Rightarrow> u8 \<Rightarrow> u32 \<Rightarrow> insn" where
  "RawInstruction opCode jumpIfTrue jumpIfFalse k =
     \<lparr>OpCode = opCode, JumpIfTrue = jumpIfTrue, JumpIfFalse = jumpIfFalse, ImmK = k\<rparr>"

definition Stmt :: "u16 \<Rightarrow> u32 \<Rightarrow> insn" where
  "Stmt code k = \<lparr>OpCode = code, JumpIfTrue = 0, JumpIfFalse = 0, ImmK = k\<rparr>"

definition Jump :: "u16 \<Rightarrow> u32 \<Rightarrow> u8 \<Rightarrow> u8 \<Rightarrow> insn" where
  "Jump code k jt jf = \<lparr>OpCode = code, JumpIfTrue = jt, JumpIfFalse = jf, ImmK = k\<rparr>"

definition op_class :: "insn \<Rightarrow> u16" where
  "op_class ins = OpCode ins AND instructionClassMask"

definition IsReturn :: "insn \<Rightarrow> bool" where
  "IsReturn ins \<longleftrightarrow> op_class ins = bpf_Ret"

definition IsJump :: "insn \<Rightarrow> bool" where
  "IsJump ins \<longleftrightarrow> op_class ins = bpf_Jmp"

definition IsConditionalJump :: "insn \<Rightarrow> bool" where
  "IsConditionalJump ins \<longleftrightarrow> IsJump ins \<and> OpCode ins AND jmpMask \<noteq> bpf_Ja"

definition IsUnconditionalJump :: "insn \<Rightarrow> bool" where
  "IsUnconditionalJump ins \<longleftrightarrow> IsJump ins \<and> OpCode ins AND jmpMask = bpf_Ja"

definition Equal :: "insn \<Rightarrow> insn \<Rightarrow> bool" where
  "Equal ins other =
     (if OpCode ins \<noteq> OpCode other then False
      else if op_class ins = bpf_Ld \<or> op_class ins = bpf_Ldx then
        (if OpCode ins AND loadModeMask = bpf_Len then True else ImmK ins = ImmK other)
      else if op_class ins = bpf_St \<or> op_class ins = bpf_Stx then ImmK ins = ImmK other
      else if op_class ins = bpf_Alu then
        (if OpCode ins = bpf_Alu OR bpf_Neg then True
         else if OpCode ins AND operandMask = bpf_X then True
         else if OpCode ins AND operandMask = bpf_K then ImmK ins = ImmK other
         else ins = other)
      else if op_class ins = bpf_Ret then
        (if OpCode ins = bpf_Ret OR bpf_A then True
         else if OpCode ins = bpf_Ret OR bpf_K then ImmK ins = ImmK other
         else ins = other)
      else if op_class ins = bpf_Jmp then
        (if IsUnconditionalJump ins then ImmK ins = ImmK other
         else if OpCode ins AND operandMask = bpf_X then
           JumpIfTrue ins = JumpIfTrue other \<and> JumpIfFalse ins = JumpIfFalse other
         else ins = other)
      else if OpCode ins = bpf_Misc OR bpf_Tax \<or> OpCode ins = bpf_Misc OR bpf_Txa then True
      else ins = other)"

datatype JumpType = JumpDirect | JumpTrue | JumpFalse

record JumpOffset =
  joType :: JumpType
  joOffset :: u32

definition JumpOffsets :: "insn \<Rightarrow> JumpOffset list" where
  "JumpOffsets ins =
     (if \<not> IsJump ins then []
      else if IsConditionalJump ins then
        [\<lparr>joType = JumpTrue, joOffset = ucast (JumpIfTrue ins)\<rparr>,
         \<lparr>joType = JumpFalse, joOffset = ucast (JumpIfFalse ins)\<rparr>]
      else [\<lparr>joType = JumpDirect, joOffset = ImmK ins\<rparr>])"

definition ModifiesRegisterA :: "insn \<Rightarrow> bool" where
  "ModifiesRegisterA ins =
     (if op_class ins = bpf_Ld then True
      else if op_class ins = bpf_Alu then True
      else if op_class ins = bpf_Misc then OpCode ins = bpf_Misc OR bpf_Tax
      else False)"

lemma IsJump_cases: "IsJump ins \<longleftrightarrow> IsConditionalJump ins \<or> IsUnconditionalJump ins"
  by (auto simp: IsConditionalJump_def IsUnconditionalJump_def)

lemma cond_not_uncond: "IsConditionalJump ins \<Longrightarrow> \<not> IsUnconditionalJump ins"
  by (simp add: IsConditionalJump_def IsUnconditionalJump_def)

lemma jump_not_return: "IsJump ins \<Longrightarrow> \<not> IsReturn ins"
  by (simp add: IsJump_def IsReturn_def)

end
