(* ===== verification/Bpf_Input.thy ===== *)
theory Bpf_Input
  imports Bpf_Instruction
begin

text \<open>
  Input loads of \<^verbatim>\<open>pkg/bpf/input_bytes.go\<close>.  An input is a byte list; \<open>load32\<close>,
  \<open>load16\<close> and \<open>load8\<close> return \<open>None\<close> where the Go functions return \<open>(0, false)\<close>.
  The byte orders are those of Go's \<^verbatim>\<open>encoding/binary\<close>; the native order is the
  little-endian one of the two supported architectures (amd64 and arm64).
\<close>

type_synonym Input = "u8 list"

datatype Endianness = BigEndian | LittleEndian | NativeEndian

definition le_uint32 :: "u8 list \<Rightarrow> u32" where
  "le_uint32 b = ucast (b ! 0) OR push_bit 8 (ucast (b ! 1))
     OR push_bit 16 (ucast (b ! 2)) OR push_bit 24 (ucast (b ! 3))"

definition be_uint32 :: "u8 list \<Rightarrow> u32" where
  "be_uint32 b = ucast (b ! 3) OR push_bit 8 (ucast (b ! 2))
     OR push_bit 16 (ucast (b ! 1)) OR push_bit 24 (ucast (b ! 0))"

definition le_uint16 :: "u8 list \<Rightarrow> u16" where
  "le_uint16 b = ucast (b ! 0) OR push_bit 8 (ucast (b ! 1))"

definition be_uint16 :: "u8 list \<Rightarrow> u16" where
  "be_uint16 b = ucast (b ! 1) OR push_bit 8 (ucast (b ! 0))"

definition load32 :: "Endianness \<Rightarrow> Input \<Rightarrow> u32 \<Rightarrow> u32 option" where
  "load32 e inp off =
     (if unat off + 4 > length inp then None
      else case e of
        BigEndian \<Rightarrow> Some (be_uint32 (drop (unat off) inp))
      | LittleEndian \<Rightarrow> Some (le_uint32 (drop (unat off) inp))
      | NativeEndian \<Rightarrow> Some (le_uint32 (drop (unat off) inp)))"

definition load16 :: "Endianness \<Rightarrow> Input \<Rightarrow> u32 \<Rightarrow> u16 option" where
  "load16 e inp off =
     (if unat off + 2 > length inp then None
      else case e of
        BigEndian \<Rightarrow> Some (be_uint16 (drop (unat off) inp))
      | LittleEndian \<Rightarrow> Some (le_uint16 (drop (unat off) inp))
      | NativeEndian \<Rightarrow> Some (le_uint16 (drop (unat off) inp)))"

definition load8 :: "Input \<Rightarrow> u32 \<Rightarrow> u8 option" where
  "load8 inp off = (if unat off + 1 > length inp then None else Some (inp ! unat off))"

section \<open>When a load succeeds, and what it depends on\<close>

lemma load32_None_iff: "load32 e inp off = None \<longleftrightarrow> length inp < unat off + 4"
  by (simp add: load32_def split: Endianness.split)

lemma load16_None_iff: "load16 e inp off = None \<longleftrightarrow> length inp < unat off + 2"
  by (simp add: load16_def split: Endianness.split)

lemma load8_None_iff: "load8 inp off = None \<longleftrightarrow> length inp < unat off + 1"
  by (simp add: load8_def)

text \<open>Two inputs agree on the \<open>n\<close> bytes from \<open>off\<close>.\<close>

definition agree_on :: "Input \<Rightarrow> Input \<Rightarrow> nat \<Rightarrow> nat \<Rightarrow> bool" where
  "agree_on inp inp' off n \<longleftrightarrow> (\<forall>i < n. inp ! (off + i) = inp' ! (off + i))"

lemma load32_agree:
  assumes "length inp = length inp'" and "agree_on inp inp' (unat off) 4"
  shows "load32 e inp off = load32 e inp' off"
proof -
  have "inp ! (unat off + i) = inp' ! (unat off + i)" if "i < 4" for i
    using assms(2) that by (simp add: agree_on_def)
  from this[of 0] this[of 1] this[of 2] this[of 3]
  show ?thesis using assms(1)
    by (auto simp: load32_def le_uint32_def be_uint32_def split: Endianness.split)
qed

lemma load16_agree:
  assumes "length inp = length inp'" and "agree_on inp inp' (unat off) 2"
  shows "load16 e inp off = load16 e inp' off"
proof -
  have "inp ! (unat off + i) = inp' ! (unat off + i)" if "i < 2" for i
    using assms(2) that by (simp add: agree_on_def)
  from this[of 0] this[of 1]
  show ?thesis using assms(1)
    by (auto simp: load16_def le_uint16_def be_uint16_def split: Endianness.split)
qed

lemma load8_agree:
  assumes "length inp = length inp'" and "agree_on inp inp' (unat off) 1"
  shows "load8 inp off = load8 inp' off"
  using assms by (auto simp: load8_def agree_on_def)

end
