(* ===== verification/Bpf_Interpreter.thy ===== *)
theory Bpf_Interpreter
  imports Bpf_Input
begin

text \<open>
  The BPF virtual machine of \<^verbatim>\<open>pkg/bpf/interpreter.go\<close>: the error codes, the checks
  that \<open>Compile\<close> makes on every instruction, the interpreter loop \<open>Exec\<close> and its
  instrumented twin \<open>InstrumentedExec\<close>.

  The interpreter's \<^verbatim>\<open>switch i.OpCode\<close> is modelled in two stages: \<open>opcode_table\<close> lists
  its case labels in source order, and \<open>exec_case\<close> gives the body of each case.  A step
  either falls to the next iteration after skipping some instructions (\<open>Next\<close>), returns
  (\<open>Halt\<close>), reports an error code (\<open>Fault\<close>) or panics (\<open>Crash\<close>: an index outside
  the sixteen scratch registers, or a division by a zero immediate, which \<open>Compile\<close>
  excludes).
\<close>

section \<open>Errors and programs\<close>

datatype BpfCode =
    DivisionByZero
  | InvalidEndOfProgram
  | InvalidInstructionCount
  | InvalidJumpTarget
  | InvalidLoad
  | InvalidOpcode
  | InvalidRegister

record BpfError =
  Code :: BpfCode
  PC :: nat

definition bpf_err :: "BpfCode \<Rightarrow> nat \<Rightarrow> BpfError" where
  "bpf_err c pc = \<lparr>Code = c, PC = pc\<rparr>"

definition codeString :: "BpfError \<Rightarrow> string" where
  "codeString e =
     (case Code e of
        DivisionByZero \<Rightarrow> ''division by zero''
      | InvalidEndOfProgram \<Rightarrow> ''last instruction must be a return''
      | InvalidInstructionCount \<Rightarrow> ''invalid number of instructions''
      | InvalidJumpTarget \<Rightarrow> ''jump target out of bounds''
      | InvalidLoad \<Rightarrow> ''load out of bounds or violates input alignment requirements''
      | InvalidOpcode \<Rightarrow> ''invalid instruction opcode''
      | InvalidRegister \<Rightarrow> ''invalid M register'')"

record Program =
  instructions :: "insn list"

definition Length :: "Program \<Rightarrow> nat" where
  "Length p = length (instructions p)"

section \<open>Validation\<close>

text \<open>The body of \<open>Compile\<close>'s loop over the instructions: \<open>None\<close> when it finds no fault.\<close>

definition validate_insn :: "nat \<Rightarrow> nat \<Rightarrow> insn \<Rightarrow> BpfCode option" where
  "validate_insn n pc i =
     (let op = OpCode i; mode = op AND loadModeMask; sz = op AND loadSizeMask; k = unat (ImmK i)
      in if op AND unusedBitsMask \<noteq> 0 then Some InvalidOpcode
      else if op_class i = bpf_Ld then
        (if sz = bpf_W then
           (if mode \<noteq> bpf_Imm \<and> mode \<noteq> bpf_Abs \<and> mode \<noteq> bpf_Ind \<and> mode \<noteq> bpf_Mem \<and> mode \<noteq> bpf_Len
            then Some InvalidOpcode
            else if mode = bpf_Mem \<and> k \<ge> ScratchMemRegisters then Some InvalidRegister
            else None)
         else if sz = bpf_H \<or> sz = bpf_B then
           (if mode \<noteq> bpf_Abs \<and> mode \<noteq> bpf_Ind then Some InvalidOpcode else None)
         else Some InvalidOpcode)
      else if op_class i = bpf_Ldx then
        (if sz = bpf_W then
           (if mode \<noteq> bpf_Imm \<and> mode \<noteq> bpf_Mem \<and> mode \<noteq> bpf_Len then Some InvalidOpcode
            else if mode = bpf_Mem \<and> k \<ge> ScratchMemRegisters then Some InvalidRegister
            else None)
         else if sz = bpf_B then (if mode \<noteq> bpf_Msh then Some InvalidOpcode else None)
         else Some InvalidOpcode)
      else if op_class i = bpf_St \<or> op_class i = bpf_Stx then
        (if op AND storeUnusedBitsMask \<noteq> 0 then Some InvalidOpcode
         else if k \<ge> ScratchMemRegisters then Some InvalidRegister
         else None)
      else if op_class i = bpf_Alu then
        (if op AND aluMask \<in> {bpf_Add, bpf_Sub, bpf_Mul, bpf_Or, bpf_And, bpf_Lsh, bpf_Rsh, bpf_Xor}
         then None
         else if op AND aluMask \<in> {bpf_Div, bpf_Mod} then
           (if op AND srcAluJmpMask = bpf_K \<and> k = 0 then Some DivisionByZero else None)
         else if op AND aluMask = bpf_Neg then
           (if op AND srcAluJmpMask \<noteq> 0 then Some InvalidOpcode else None)
         else Some InvalidOpcode)
      else if op_class i = bpf_Jmp then
        (if op AND jmpMask = bpf_Ja then
           (if op AND srcAluJmpMask \<noteq> 0 then Some InvalidOpcode
            else if pc + k + 1 \<ge> n then Some InvalidJumpTarget
            else None)
         else if op AND jmpMask \<in> {bpf_Jeq, bpf_Jgt, bpf_Jge, bpf_Jset} then
           (if pc + unat (JumpIfTrue i) + 1 \<ge> n then Some InvalidJumpTarget
            else if pc + unat (JumpIfFalse i) + 1 \<ge> n then Some InvalidJumpTarget
            else None)
         else Some InvalidOpcode)
      else if op_class i = bpf_Ret then
        (if op AND retUnusedBitsMask \<noteq> 0 then Some InvalidOpcode
         else if op AND srcRetMask \<noteq> bpf_K \<and> op AND srcRetMask \<noteq> bpf_A then Some InvalidOpcode
         else None)
      else
        (if op AND miscMask \<noteq> bpf_Tax \<and> op AND miscMask \<noteq> bpf_Txa then Some InvalidOpcode else None))"

fun validate_from :: "nat \<Rightarrow> nat \<Rightarrow> insn list \<Rightarrow> BpfError option" where
  "validate_from n pc [] = None"
| "validate_from n pc (i # is) =
     (case validate_insn n pc i of
        Some c \<Rightarrow> Some (bpf_err c pc)
      | None \<Rightarrow> validate_from n (Suc pc) is)"

text \<open>The checks of \<open>Compile\<close>, before the optional optimisation.\<close>

definition validate :: "insn list \<Rightarrow> BpfError option" where
  "validate insns =
     (if length insns = 0 \<or> length insns > MaxInstructions then
        Some (bpf_err InvalidInstructionCount (length insns))
      else if OpCode (last insns) \<noteq> bpf_Ret OR bpf_K \<and> OpCode (last insns) \<noteq> bpf_Ret OR bpf_A then
        Some (bpf_err InvalidEndOfProgram (length insns - 1))
      else validate_from (length insns) 0 insns)"

section \<open>The machine\<close>

record machine =
  regA :: u32
  regX :: u32
  regM :: "u32 list"

definition init_machine :: machine where
  "init_machine = \<lparr>regA = 0, regX = 0, regM = replicate ScratchMemRegisters 0\<rparr>"

definition conditionalJumpOffset :: "insn \<Rightarrow> bool \<Rightarrow> nat" where
  "conditionalJumpOffset insn cond =
     (if cond then unat (JumpIfTrue insn) else unat (JumpIfFalse insn))"

datatype load_size = SzW | SzH | SzB
datatype alu_op = AluAdd | AluSub | AluMul | AluDiv | AluOr | AluAnd | AluLsh | AluRsh | AluMod | AluXor
datatype cmp_op = CmpEq | CmpGt | CmpGe | CmpSet
datatype operand = SrcK | SrcX

text \<open>The cases of the interpreter's switch.\<close>

datatype opcase =
    CLdImm
  | CLdAbs load_size
  | CLdInd load_size
  | CLdMem
  | CLdLen
  | CLdxImm
  | CLdxMem
  | CLdxLen
  | CLdxMsh
  | CSt
  | CStx
  | CAlu alu_op operand
  | CNeg
  | CJa
  | CJcond cmp_op operand
  | CRetK
  | CRetA
  | CTax
  | CTxa

definition opcode_table :: "(u16 \<times> opcase) list" where
  "opcode_table =
     [(bpf_Ld OR bpf_Imm OR bpf_W, CLdImm),
      (bpf_Ld OR bpf_Abs OR bpf_W, CLdAbs SzW),
      (bpf_Ld OR bpf_Abs OR bpf_H, CLdAbs SzH),
      (bpf_Ld OR bpf_Abs OR bpf_B, CLdAbs SzB),
      (bpf_Ld OR bpf_Ind OR bpf_W, CLdInd SzW),
      (bpf_Ld OR bpf_Ind OR bpf_H, CLdInd SzH),
      (bpf_Ld OR bpf_Ind OR bpf_B, CLdInd SzB),
      (bpf_Ld OR bpf_Mem OR bpf_W, CLdMem),
      (bpf_Ld OR bpf_Len OR bpf_W, CLdLen),
      (bpf_Ldx OR bpf_Imm OR bpf_W, CLdxImm),
      (bpf_Ldx OR bpf_Mem OR bpf_W, CLdxMem),
      (bpf_Ldx OR bpf_Len OR bpf_W, CLdxLen),
      (bpf_Ldx OR bpf_Msh OR bpf_B, CLdxMsh),
      (bpf_St, CSt),
      (bpf_Stx, CStx),
      (bpf_Alu OR bpf_Add OR bpf_K, CAlu AluAdd SrcK),
      (bpf_Alu OR bpf_Add OR bpf_X, CAlu AluAdd SrcX),
      (bpf_Alu OR bpf_Sub OR bpf_K, CAlu AluSub SrcK),
      (bpf_Alu OR bpf_Sub OR bpf_X, CAlu AluSub SrcX),
      (bpf_Alu OR bpf_Mul OR bpf_K, CAlu AluMul SrcK),
      (bpf_Alu OR bpf_Mul OR bpf_X, CAlu AluMul SrcX),
      (bpf_Alu OR bpf_Div OR bpf_K, CAlu AluDiv SrcK),
      (bpf_Alu OR bpf_Div OR bpf_X, CAlu AluDiv SrcX),
      (bpf_Alu OR bpf_Or OR bpf_K, CAlu AluOr SrcK),
      (bpf_Alu OR bpf_Or OR bpf_X, CAlu AluOr SrcX),
      (bpf_Alu OR bpf_And OR bpf_K, CAlu AluAnd SrcK),
      (bpf_Alu OR bpf_And OR bpf_X, CAlu AluAnd SrcX),
      (bpf_Alu OR bpf_Lsh OR bpf_K, CAlu AluLsh SrcK),
      (bpf_Alu OR bpf_Lsh OR bpf_X, CAlu AluLsh SrcX),
      (bpf_Alu OR bpf_Rsh OR bpf_K, CAlu AluRsh SrcK),
      (bpf_Alu OR bpf_Rsh OR bpf_X, CAlu AluRsh SrcX),
      (bpf_Alu OR bpf_Neg, CNeg),
      (bpf_Alu OR bpf_Mod OR bpf_K, CAlu AluMod SrcK),
      (bpf_Alu OR bpf_Mod OR bpf_X, CAlu AluMod SrcX),
      (bpf_Alu OR bpf_Xor OR bpf_K, CAlu AluXor SrcK),
      (bpf_Alu OR bpf_Xor OR bpf_X, CAlu AluXor SrcX),
      (bpf_Jmp OR bpf_Ja, CJa),
      (bpf_Jmp OR bpf_Jeq OR bpf_K, CJcond CmpEq SrcK),
      (bpf_Jmp OR bpf_Jeq OR bpf_X, CJcond CmpEq SrcX),
      (bpf_Jmp OR bpf_Jgt OR bpf_K, CJcond CmpGt SrcK),
      (bpf_Jmp OR bpf_Jgt OR bpf_X, CJcond CmpGt SrcX),
      (bpf_Jmp OR bpf_Jge OR bpf_K, CJcond CmpGe SrcK),
      (bpf_Jmp OR bpf_Jge OR bpf_X, CJcond CmpGe SrcX),
      (bpf_Jmp OR bpf_Jset OR bpf_K, CJcond CmpSet SrcK),
      (bpf_Jmp OR bpf_Jset OR bpf_X, CJcond CmpSet SrcX),
      (bpf_Ret OR bpf_K, CRetK),
      (bpf_Ret OR bpf_A, CRetA),
      (bpf_Misc OR bpf_Tax, CTax),
      (bpf_Misc OR bpf_Txa, CTxa)]"

definition opcode_case :: "u16 \<Rightarrow> opcase option" where
  "opcode_case op = map_of opcode_table op"

datatype step_result = Next nat machine | Halt u32 | Fault BpfCode | Crash

text \<open>The source operand of an arithmetic or jump instruction.\<close>

fun operand_val :: "operand \<Rightarrow> insn \<Rightarrow> machine \<Rightarrow> u32" where
  "operand_val SrcK i m = ImmK i"
| "operand_val SrcX i m = regX m"

text \<open>
  Arithmetic on register A.  Shift counts of 32 and more give 0, as in Go.  A zero divisor
  is an error when it comes from X and a panic when it is the immediate.
\<close>

fun exec_alu :: "alu_op \<Rightarrow> operand \<Rightarrow> u32 \<Rightarrow> machine \<Rightarrow> step_result" where
  "exec_alu AluAdd src v m = Next 0 (m\<lparr>regA := regA m + v\<rparr>)"
| "exec_alu AluSub src v m = Next 0 (m\<lparr>regA := regA m - v\<rparr>)"
| "exec_alu AluMul src v m = Next 0 (m\<lparr>regA := regA m * v\<rparr>)"
| "exec_alu AluDiv src v m =
     (if v = 0 then (if src = SrcX then Fault DivisionByZero else Crash)
      else Next 0 (m\<lparr>regA := regA m div v\<rparr>))"
| "exec_alu AluOr src v m = Next 0 (m\<lparr>regA := regA m OR v\<rparr>)"
| "exec_alu AluAnd src v m = Next 0 (m\<lparr>regA := regA m AND v\<rparr>)"
| "exec_alu AluLsh src v m = Next 0 (m\<lparr>regA := push_bit (unat v) (regA m)\<rparr>)"
| "exec_alu AluRsh src v m = Next 0 (m\<lparr>regA := drop_bit (unat v) (regA m)\<rparr>)"
| "exec_alu AluMod src v m =
     (if v = 0 then (if src = SrcX then Fault DivisionByZero else Crash)
      else Next 0 (m\<lparr>regA := regA m mod v\<rparr>))"
| "exec_alu AluXor src v m = Next 0 (m\<lparr>regA := regA m XOR v\<rparr>)"

fun cmp_holds :: "cmp_op \<Rightarrow> u32 \<Rightarrow> u32 \<Rightarrow> bool" where
  "cmp_holds CmpEq a v \<longleftrightarrow> a = v"
| "cmp_holds CmpGt a v \<longleftrightarrow> a > v"
| "cmp_holds CmpGe a v \<longleftrightarrow> a \<ge> v"
| "cmp_holds CmpSet a v \<longleftrightarrow> a AND v \<noteq> 0"

definition load_sized :: "Endianness \<Rightarrow> Input \<Rightarrow> load_size \<Rightarrow> u32 \<Rightarrow> u32 option" where
  "load_sized e inp sz off =
     (case sz of
        SzW \<Rightarrow> load32 e inp off
      | SzH \<Rightarrow> map_option ucast (load16 e inp off)
      | SzB \<Rightarrow> map_option ucast (load8 inp off))"

definition load_into_A :: "machine \<Rightarrow> u32 option \<Rightarrow> step_result" where
  "load_into_A m v = (case v of None \<Rightarrow> Fault InvalidLoad | Some w \<Rightarrow> Next 0 (m\<lparr>regA := w\<rparr>))"

fun exec_case :: "Endianness \<Rightarrow> Input \<Rightarrow> insn \<Rightarrow> machine \<Rightarrow> opcase \<Rightarrow> step_result" where
  "exec_case e inp i m CLdImm = Next 0 (m\<lparr>regA := ImmK i\<rparr>)"
| "exec_case e inp i m (CLdAbs sz) = load_into_A m (load_sized e inp sz (ImmK i))"
| "exec_case e inp i m (CLdInd sz) = load_into_A m (load_sized e inp sz (regX m + ImmK i))"
| "exec_case e inp i m CLdMem =
     (case slice_get (regM m) (unat (ImmK i)) of
        None \<Rightarrow> Crash | Some v \<Rightarrow> Next 0 (m\<lparr>regA := v\<rparr>))"
| "exec_case e inp i m CLdLen = Next 0 (m\<lparr>regA := of_nat (length inp)\<rparr>)"
| "exec_case e inp i m CLdxImm = Next 0 (m\<lparr>regX := ImmK i\<rparr>)"
| "exec_case e inp i m CLdxMem =
     (case slice_get (regM m) (unat (ImmK i)) of
        None \<Rightarrow> Crash | Some v \<Rightarrow> Next 0 (m\<lparr>regX := v\<rparr>))"
| "exec_case e inp i m CLdxLen = Next 0 (m\<lparr>regX := of_nat (length inp)\<rparr>)"
| "exec_case e inp i m CLdxMsh =
     (case load8 inp (ImmK i) of
        None \<Rightarrow> Fault InvalidLoad
      | Some v \<Rightarrow> Next 0 (m\<lparr>regX := 4 * ucast (v AND 0xf)\<rparr>))"
| "exec_case e inp i m CSt =
     (if unat (ImmK i) < length (regM m)
      then Next 0 (m\<lparr>regM := (regM m)[unat (ImmK i) := regA m]\<rparr>) else Crash)"
| "exec_case e inp i m CStx =
     (if unat (ImmK i) < length (regM m)
      then Next 0 (m\<lparr>regM := (regM m)[unat (ImmK i) := regX m]\<rparr>) else Crash)"
| "exec_case e inp i m (CAlu alu src) = exec_alu alu src (operand_val src i m) m"
| "exec_case e inp i m CNeg = Next 0 (m\<lparr>regA := - regA m\<rparr>)"
| "exec_case e inp i m CJa = Next (unat (ImmK i)) m"
| "exec_case e inp i m (CJcond cmp src) =
     Next (conditionalJumpOffset i (cmp_holds cmp (regA m) (operand_val src i m))) m"
| "exec_case e inp i m CRetK = Halt (ImmK i)"
| "exec_case e inp i m CRetA = Halt (regA m)"
| "exec_case e inp i m CTax = Next 0 (m\<lparr>regA := regX m\<rparr>)"
| "exec_case e inp i m CTxa = Next 0 (m\<lparr>regX := regA m\<rparr>)"

definition exec_step :: "Endianness \<Rightarrow> Input \<Rightarrow> insn \<Rightarrow> machine \<Rightarrow> step_result" where
  "exec_step e inp i m =
     (case opcode_case (OpCode i) of
        None \<Rightarrow> Fault InvalidOpcode
      | Some c \<Rightarrow> exec_case e inp i m c)"

text \<open>
  The interpreter loop from a program counter and a machine state.  Every iteration
  increments the program counter, so the distance to the end of the program decreases.
\<close>

function exec_from ::
  "Endianness \<Rightarrow> Input \<Rightarrow> insn list \<Rightarrow> nat \<Rightarrow> machine \<Rightarrow> (BpfError + u32) option" where
  "exec_from e inp p pc m =
     (if pc < length p then
        (case exec_step e inp (p ! pc) m of
           Next d m' \<Rightarrow> exec_from e inp p (pc + d + 1) m'
         | Halt v \<Rightarrow> Some (Inr v)
         | Fault c \<Rightarrow> Some (Inl (bpf_err c pc))
         | Crash \<Rightarrow> None)
      else Some (Inl (bpf_err InvalidEndOfProgram pc)))"
  by pat_completeness auto
termination
  by (relation "measure (\<lambda>(e, inp, p, pc, m). length p - pc)") auto

declare exec_from.simps [simp del]

definition Exec :: "Endianness \<Rightarrow> Program \<Rightarrow> Input \<Rightarrow> (BpfError + u32) option" where
  "Exec e p inp = exec_from e inp (instructions p) 0 init_machine"

section \<open>Instrumented execution\<close>

record ExecutionMetrics =
  ReturnValue :: u32
  Coverage :: "bool list"
  InputAccessed :: "bool list"

definition mark_range :: "bool list \<Rightarrow> nat \<Rightarrow> nat \<Rightarrow> bool list" where
  "mark_range acc off n = fold (\<lambda>i acc. acc[off + i := True]) [0..<n] acc"

definition markInputRead :: "ExecutionMetrics \<Rightarrow> u32 \<Rightarrow> nat \<Rightarrow> ExecutionMetrics option" where
  "markInputRead met offset bytesRead =
     (if unat offset + bytesRead > length (InputAccessed met) then None
      else Some (met\<lparr>InputAccessed := mark_range (InputAccessed met) (unat offset) bytesRead\<rparr>))"

fun load_width :: "load_size \<Rightarrow> nat" where
  "load_width SzW = 4"
| "load_width SzH = 2"
| "load_width SzB = 1"

text \<open>The arguments of the \<open>markInputRead\<close> call of each case that makes one.\<close>

fun case_read :: "opcase \<Rightarrow> insn \<Rightarrow> machine \<Rightarrow> (u32 \<times> nat) option" where
  "case_read (CLdAbs sz) i m = Some (ImmK i, load_width sz)"
| "case_read (CLdInd sz) i m = Some (regX m + ImmK i, load_width sz)"
| "case_read CLdxMsh i m = Some (ImmK i, 1)"
| "case_read _ i m = None"

definition insn_read :: "insn \<Rightarrow> machine \<Rightarrow> (u32 \<times> nat) option" where
  "insn_read i m = Option.bind (opcode_case (OpCode i)) (\<lambda>c. case_read c i m)"

definition mark_step :: "insn \<Rightarrow> machine \<Rightarrow> ExecutionMetrics \<Rightarrow> ExecutionMetrics option" where
  "mark_step i m met =
     (case insn_read i m of None \<Rightarrow> Some met | Some (off, n) \<Rightarrow> markInputRead met off n)"

function instr_from ::
  "Endianness \<Rightarrow> Input \<Rightarrow> insn list \<Rightarrow> nat \<Rightarrow> machine \<Rightarrow> ExecutionMetrics \<Rightarrow>
     (ExecutionMetrics \<times> BpfError option) option" where
  "instr_from e inp p pc m met =
     (if pc < length p then
        (let met1 = met\<lparr>Coverage := (Coverage met)[pc := True]\<rparr> in
         case exec_step e inp (p ! pc) m of
           Next d m' \<Rightarrow>
             (case mark_step (p ! pc) m met1 of
                None \<Rightarrow> None
              | Some met2 \<Rightarrow> instr_from e inp p (pc + d + 1) m' met2)
         | Halt v \<Rightarrow> Some (met1\<lparr>ReturnValue := v\<rparr>, None)
         | Fault c \<Rightarrow> Some (met1, Some (bpf_err c pc))
         | Crash \<Rightarrow> None)
      else Some (met, Some (bpf_err InvalidEndOfProgram pc)))"
  by pat_completeness auto
termination
  by (relation "measure (\<lambda>(e, inp, p, pc, m, met). length p - pc)") auto

declare instr_from.simps [simp del]

definition InstrumentedExec ::
  "Endianness \<Rightarrow> Program \<Rightarrow> Input \<Rightarrow> (ExecutionMetrics \<times> BpfError option) option" where
  "InstrumentedExec e p inp =
     instr_from e inp (instructions p) 0 init_machine
       \<lparr>ReturnValue = 0, Coverage = replicate (length (instructions p)) False,
        InputAccessed = replicate (length inp) False\<rparr>"

section \<open>Opcode classification\<close>

lemmas opcode_table_eval = opcode_table_def [simplified]

lemma opcode_case_SomeD: "opcode_case op = Some c \<Longrightarrow> (op, c) \<in> set opcode_table"
  by (simp add: opcode_case_def map_of_SomeD)

lemma IsReturn_case:
  assumes "opcode_case (OpCode i) = Some c"
  shows "IsReturn i \<longleftrightarrow> c = CRetK \<or> c = CRetA"
  using opcode_case_SomeD[OF assms]
  by (auto simp: opcode_table_eval IsReturn_def op_class_def)

lemma IsUnconditionalJump_case:
  assumes "opcode_case (OpCode i) = Some c"
  shows "IsUnconditionalJump i \<longleftrightarrow> c = CJa"
  using opcode_case_SomeD[OF assms]
  by (auto simp: opcode_table_eval IsUnconditionalJump_def IsJump_def op_class_def)

lemma IsConditionalJump_case:
  assumes "opcode_case (OpCode i) = Some c"
  shows "IsConditionalJump i \<longleftrightarrow> (\<exists>cmp src. c = CJcond cmp src)"
  using opcode_case_SomeD[OF assms]
  by (auto simp: opcode_table_eval IsConditionalJump_def IsJump_def op_class_def)

lemma IsLd_case:
  assumes "opcode_case (OpCode i) = Some c"
  shows "op_class i = bpf_Ld \<longleftrightarrow> c \<in> {CLdImm, CLdMem, CLdLen} \<union> range CLdAbs \<union> range CLdInd"
  using opcode_case_SomeD[OF assms]
  by (auto simp: opcode_table_eval op_class_def)

lemma ModifiesRegisterA_case:
  assumes "opcode_case (OpCode i) = Some c"
  shows "ModifiesRegisterA i \<longleftrightarrow>
     c \<in> {CLdImm, CLdMem, CLdLen, CNeg, CTax} \<union> range CLdAbs \<union> range CLdInd
       \<union> {CAlu alu src | alu src. True}"
  using opcode_case_SomeD[OF assms]
  by (auto simp: opcode_table_eval op_class_def ModifiesRegisterA_def)

text \<open>
  An opcode without high bits is the union of its bit fields, so that the masks tested by
  the validator determine it.
\<close>

lemma bits_ff00: "n < 16 \<Longrightarrow> bit (0xff00 :: u16) n \<longleftrightarrow> 8 \<le> n"
  by (auto simp: less_Suc_eq numeral_eq_Suc bit_simps)

lemma opcode_fields:
  assumes "(op :: u16) AND unusedBitsMask = 0" and "f OR g = 0xff"
  shows "op = op AND f OR op AND g"
proof (rule bit_word_eqI)
  fix n assume n: "n < LENGTH(16)"
  have "\<not> bit (op AND 0xff00) n" using assms(1) by simp
  moreover have "bit (0xff :: u16) n \<longleftrightarrow> n < 8" using n
    by (auto simp: less_Suc_eq numeral_eq_Suc)
  ultimately show "bit op n = bit (op AND f OR op AND g) n"
    using bits_ff00[of n] n assms(2)[symmetric] by (auto simp: bit_simps)
qed

lemma and_8_cases: "(op :: u16) AND 8 = 0 \<or> op AND 8 = 8"
proof -
  have "bit (8 :: u16) n \<longleftrightarrow> n = 3" if "n < 16" for n
    using that by (auto simp: less_Suc_eq numeral_eq_Suc)
  then have "op AND 8 = (if bit op 3 then 8 else 0)"
    by (intro bit_word_eqI) (auto simp: bit_simps)
  then show ?thesis by auto
qed

text \<open>
  Static successors of an instruction: the indexes the interpreter can go to next.
\<close>

definition succs :: "nat \<Rightarrow> insn \<Rightarrow> nat list" where
  "succs pc i =
     (if IsReturn i then []
      else if IsUnconditionalJump i then [pc + unat (ImmK i) + 1]
      else if IsConditionalJump i then
        [pc + unat (JumpIfTrue i) + 1, pc + unat (JumpIfFalse i) + 1]
      else [pc + 1])"

fun case_ok :: "opcase \<Rightarrow> u32 \<Rightarrow> bool" where
  "case_ok CLdMem k \<longleftrightarrow> unat k < ScratchMemRegisters"
| "case_ok CLdxMem k \<longleftrightarrow> unat k < ScratchMemRegisters"
| "case_ok CSt k \<longleftrightarrow> unat k < ScratchMemRegisters"
| "case_ok CStx k \<longleftrightarrow> unat k < ScratchMemRegisters"
| "case_ok (CAlu AluDiv SrcK) k \<longleftrightarrow> k \<noteq> 0"
| "case_ok (CAlu AluMod SrcK) k \<longleftrightarrow> k \<noteq> 0"
| "case_ok _ k \<longleftrightarrow> True"

definition insn_ok :: "insn \<Rightarrow> bool" where
  "insn_ok i = (case opcode_case (OpCode i) of None \<Rightarrow> False | Some c \<Rightarrow> case_ok c (ImmK i))"

definition wf_insn :: "nat \<Rightarrow> nat \<Rightarrow> insn \<Rightarrow> bool" where
  "wf_insn n pc i \<longleftrightarrow> insn_ok i \<and> list_all (\<lambda>t. t < n) (succs pc i)"

definition wf_prog :: "insn list \<Rightarrow> bool" where
  "wf_prog p \<longleftrightarrow> p \<noteq> [] \<and> (\<forall>pc < length p. wf_insn (length p) pc (p ! pc))"


lemma opcode_Ld:
  assumes "op AND unusedBitsMask = 0" "op AND 7 = c" "op AND loadSizeMask = s" "op AND loadModeMask = m"
  shows "op = c OR s OR m"
proof -
  have "op = op AND 7 OR op AND 0xf8" by (rule opcode_fields[OF assms(1)]) simp
  also have "op AND 0xf8 = op AND 0x18 OR op AND 0xe0"
    by (simp add: bit.conj_disj_distrib[symmetric])
  finally show ?thesis using assms by (simp add: ac_simps)
qed

lemma opcode_Alu:
  assumes "op AND unusedBitsMask = 0" "op AND 7 = c" "op AND aluMask = a"
  shows "op = c OR a \<or> op = c OR a OR 8"
proof -
  have "op = op AND 7 OR op AND 0xf8" by (rule opcode_fields[OF assms(1)]) simp
  also have "op AND 0xf8 = op AND 8 OR op AND 0xf0"
    by (simp add: bit.conj_disj_distrib[symmetric])
  finally have op: "op = c OR (op AND 8 OR a)" using assms by simp
  from and_8_cases[of op] show ?thesis
  proof
    assume "op AND 8 = 0"
    with op show ?thesis by simp
  next
    assume "op AND 8 = 8"
    with op show ?thesis by (simp add: ac_simps)
  qed
qed


lemma validate_high_bits: "validate_insn n pc i = None \<Longrightarrow> OpCode i AND unusedBitsMask = 0"
  by (auto simp: validate_insn_def Let_def split: if_splits)

lemma validate_Ld:
  assumes v: "validate_insn n pc i = None" and c: "op_class i = bpf_Ld"
  shows "OpCode i \<in> {0x00, 0x20, 0x40, 0x80, 0x28, 0x48, 0x30, 0x50} \<or>
    OpCode i = 0x60 \<and> unat (ImmK i) < ScratchMemRegisters"
proof -
  have eq: "OpCode i = s OR m" if "OpCode i AND loadSizeMask = s" "OpCode i AND loadModeMask = m" for s m
    using opcode_Ld[OF validate_high_bits[OF v] _ that] c by (simp add: op_class_def)
  show ?thesis using v c
    by (auto simp: validate_insn_def Let_def split: if_splits dest: eq)
qed

lemma validate_Ldx:
  assumes v: "validate_insn n pc i = None" and c: "op_class i = bpf_Ldx"
  shows "OpCode i \<in> {0x01, 0x81, 0xb1} \<or> OpCode i = 0x61 \<and> unat (ImmK i) < ScratchMemRegisters"
proof -
  have eq: "OpCode i = 1 OR s OR m" if "OpCode i AND loadSizeMask = s" "OpCode i AND loadModeMask = m" for s m
    using opcode_Ld[OF validate_high_bits[OF v] _ that] c by (simp add: op_class_def)
  show ?thesis using v c
    by (auto simp: validate_insn_def Let_def split: if_splits dest: eq)
qed

lemma validate_Alu:
  assumes v: "validate_insn n pc i = None" and c: "op_class i = bpf_Alu"
  shows "OpCode i \<in> {0x04, 0x14, 0x24, 0x44, 0x54, 0x64, 0x74, 0xa4, 0x84,
      0x0c, 0x1c, 0x2c, 0x4c, 0x5c, 0x6c, 0x7c, 0xac, 0x3c, 0x9c} \<or>
    OpCode i \<in> {0x34, 0x94} \<and> ImmK i \<noteq> 0"
proof -
  have eq: "OpCode i = 4 OR a \<or> OpCode i = 12 OR a" if "OpCode i AND aluMask = a" for a
    using opcode_Alu[OF validate_high_bits[OF v] _ that] c by (auto simp: op_class_def ac_simps)
  show ?thesis using v c
    by (auto simp: validate_insn_def Let_def unat_eq_0 split: if_splits dest: eq)
qed

lemma validate_Jmp:
  assumes v: "validate_insn n pc i = None" and c: "op_class i = bpf_Jmp"
  shows "OpCode i = 0x05 \<and> pc + unat (ImmK i) + 1 < n \<or>
    OpCode i \<in> {0x15, 0x25, 0x35, 0x45, 0x1d, 0x2d, 0x3d, 0x4d} \<and>
    pc + unat (JumpIfTrue i) + 1 < n \<and> pc + unat (JumpIfFalse i) + 1 < n"
proof -
  have eq: "OpCode i = 5 OR a \<or> OpCode i = 13 OR a" if "OpCode i AND jmpMask = a" for a
    using opcode_Alu[OF validate_high_bits[OF v] _ that] c by (auto simp: op_class_def ac_simps)
  show ?thesis using v c
    by (auto simp: validate_insn_def Let_def split: if_splits dest: eq)
qed

lemma validate_Ret:
  assumes v: "validate_insn n pc i = None" and c: "op_class i = bpf_Ret"
  shows "OpCode i \<in> {0x06, 0x16}"
proof -
  have eq: "OpCode i = 6 OR s OR m" if "OpCode i AND loadSizeMask = s" "OpCode i AND loadModeMask = m" for s m
    using opcode_Ld[OF validate_high_bits[OF v] _ that] c by (simp add: op_class_def)
  show ?thesis using v c
    by (auto simp: validate_insn_def Let_def split: if_splits dest: eq)
qed

lemma validate_other:
  assumes v: "validate_insn n pc i = None"
    and c: "op_class i \<notin> {bpf_Ld, bpf_Ldx, bpf_Alu, bpf_Jmp, bpf_Ret}"
  shows "OpCode i \<in> {0x07, 0x87} \<or> OpCode i \<in> {0x02, 0x03} \<and> unat (ImmK i) < ScratchMemRegisters"
proof -
  have eq: "OpCode i = k OR m" if "op_class i = k" "OpCode i AND 0xf8 = m" for k m
    using opcode_fields[OF validate_high_bits[OF v], of 7 "0xf8"] that by (simp add: op_class_def)
  have "op_class i = 2 \<or> op_class i = 3 \<or> op_class i = 7"
  proof -
    have "unat (op_class i) \<le> unat (7 :: u16)"
      unfolding op_class_def by (rule word_le_nat_alt[THEN iffD1, OF word_and_le1])
    then have "unat (op_class i) \<in> {0, 1, 2, 3, 4, 5, 6, 7}" by auto
    then have "op_class i \<in> {0, 1, 2, 3, 4, 5, 6, 7}" by (auto dest: arg_cong[of _ _ "of_nat :: nat \<Rightarrow> u16"])
    with c show ?thesis by auto
  qed
  with v show ?thesis
    by (auto simp: validate_insn_def Let_def split: if_splits dest: eq)
qed

lemma validate_insn_ok:
  assumes v: "validate_insn n pc i = None"
  shows "insn_ok i"
proof -
  note simps = insn_ok_def opcode_case_def opcode_table_eval
  consider "op_class i = bpf_Ld" | "op_class i = bpf_Ldx" | "op_class i = bpf_Alu"
    | "op_class i = bpf_Jmp" | "op_class i = bpf_Ret"
    | "op_class i \<notin> {bpf_Ld, bpf_Ldx, bpf_Alu, bpf_Jmp, bpf_Ret}" by blast
  then show ?thesis
  proof cases
    case 1
    from validate_Ld[OF v this] show ?thesis
      by (elim disjE conjE insertE emptyE) (simp_all add: simps)
  next
    case 2
    from validate_Ldx[OF v this] show ?thesis
      by (elim disjE conjE insertE emptyE) (simp_all add: simps)
  next
    case 3
    from validate_Alu[OF v this] show ?thesis
      by (elim disjE conjE insertE emptyE) (simp_all add: simps)
  next
    case 4
    from validate_Jmp[OF v this] show ?thesis
      by (elim disjE conjE insertE emptyE) (simp_all add: simps)
  next
    case 5
    from validate_Ret[OF v this] show ?thesis
      by (elim disjE conjE insertE emptyE) (simp_all add: simps)
  next
    case 6
    from validate_other[OF v this] show ?thesis
      by (elim disjE conjE insertE emptyE) (simp_all add: simps)
  qed
qed

lemma validate_jump_targets:
  assumes "validate_insn n pc i = None" "IsJump i"
  shows "list_all (\<lambda>t. t < n) (succs pc i)"
  using validate_Jmp[of n pc i] assms jump_not_return[of i]
  by (auto simp: succs_def IsJump_def IsUnconditionalJump_def IsConditionalJump_def)

lemma validate_insn_wf:
  assumes "validate_insn n pc i = None" and "\<not> IsReturn i \<Longrightarrow> Suc pc < n"
  shows "wf_insn n pc i"
  using assms validate_insn_ok[of n pc i] validate_jump_targets[of n pc i]
  by (cases "IsJump i") (auto simp: wf_insn_def succs_def IsJump_cases)

lemma validate_from_None:
  "validate_from n pc is = None \<longleftrightarrow> (\<forall>k < length is. validate_insn n (pc + k) (is ! k) = None)"
proof (induction "is" arbitrary: pc)
  case (Cons i "is")
  have "(\<forall>k < length (i # is). validate_insn n (pc + k) ((i # is) ! k) = None) \<longleftrightarrow>
      validate_insn n pc i = None \<and> (\<forall>k < length is. validate_insn n (Suc pc + k) (is ! k) = None)"
    by (auto simp: nth_Cons split: nat.splits)
  then show ?case by (simp add: Cons.IH split: option.split)
qed simp

lemma validate_wf:
  assumes "validate insns = None"
  shows "wf_prog insns"
proof -
  from assms have ne: "insns \<noteq> []" and r: "OpCode (last insns) = 6 \<or> OpCode (last insns) = 22"
    and v: "validate_from (length insns) 0 insns = None"
    by (auto simp: validate_def split: if_splits)
  have "wf_insn (length insns) pc (insns ! pc)" if "pc < length insns" for pc
  proof (rule validate_insn_wf)
    show "validate_insn (length insns) pc (insns ! pc) = None"
      using v that by (simp add: validate_from_None)
    assume "\<not> IsReturn (insns ! pc)"
    with r have "insns ! pc \<noteq> last insns" by (auto simp: IsReturn_def op_class_def)
    with that ne have "pc \<noteq> length insns - 1" by (metis last_conv_nth)
    with that show "Suc pc < length insns" by simp
  qed
  with ne show ?thesis by (simp add: wf_prog_def)
qed

section \<open>Steps of well-formed programs\<close>

definition mach_ok :: "machine \<Rightarrow> bool" where
  "mach_ok m \<longleftrightarrow> length (regM m) = ScratchMemRegisters"

lemma mach_ok_init [simp]: "mach_ok init_machine"
  by (simp add: mach_ok_def init_machine_def)

text \<open>What a step of an accepted instruction can do.\<close>

fun step_sound :: "nat \<Rightarrow> insn \<Rightarrow> step_result \<Rightarrow> bool" where
  "step_sound pc i (Next d m) \<longleftrightarrow> pc + d + 1 \<in> set (succs pc i) \<and> mach_ok m"
| "step_sound pc i (Halt v) \<longleftrightarrow> IsReturn i"
| "step_sound pc i (Fault c) \<longleftrightarrow> c = DivisionByZero \<or> c = InvalidLoad"
| "step_sound pc i Crash \<longleftrightarrow> False"

lemma exec_alu_sound:
  assumes "case_ok (CAlu alu src) (ImmK i)" "mach_ok m" "pc + 1 \<in> set (succs pc i)"
  shows "step_sound pc i (exec_alu alu src (operand_val src i m) m)"
  using assms by (cases alu; cases src) (auto simp: mach_ok_def)

lemma succs_case:
  assumes "opcode_case (OpCode i) = Some c"
  shows "succs pc i =
    (if c = CRetK \<or> c = CRetA then []
     else if c = CJa then [pc + unat (ImmK i) + 1]
     else if \<exists>cmp src. c = CJcond cmp src
       then [pc + unat (JumpIfTrue i) + 1, pc + unat (JumpIfFalse i) + 1]
     else [pc + 1])"
  using assms
  by (auto simp: succs_def IsReturn_case IsUnconditionalJump_case IsConditionalJump_case)

lemma exec_case_sound:
  assumes c: "opcode_case (OpCode i) = Some c" and ok: "case_ok c (ImmK i)" and m: "mach_ok m"
  shows "step_sound pc i (exec_case e inp i m c)"
proof -
  have [simp]: "length (regM m) = 16" using m by (simp add: mach_ok_def)
  note s = succs_case[OF c]
  show ?thesis
  proof (cases c)
    case (CAlu alu src)
    then have "pc + 1 \<in> set (succs pc i)" by (simp add: s)
    with CAlu ok m show ?thesis using exec_alu_sound[of alu src i m pc] by simp
  next
    case (CJcond cmp src)
    then show ?thesis using m by (simp add: s conditionalJumpOffset_def)
  qed (use c ok m in \<open>auto simp: s mach_ok_def load_into_A_def IsReturn_case[OF c] split: option.split\<close>)
qed

lemma exec_step_sound:
  assumes "insn_ok i" "mach_ok m"
  shows "step_sound pc i (exec_step e inp i m)"
  using assms exec_case_sound
  by (auto simp: insn_ok_def exec_step_def split: option.splits)

lemma exec_step_cases [consumes 2, case_names Next Halt Fault]:
  assumes "insn_ok i" "mach_ok m"
  obtains (Next) d m' where "exec_step e inp i m = Next d m'" "pc + d + 1 \<in> set (succs pc i)" "mach_ok m'"
    | (Halt) v where "exec_step e inp i m = Halt v" "IsReturn i"
    | (Fault) c where "exec_step e inp i m = Fault c" "c = DivisionByZero \<or> c = InvalidLoad"
  using exec_step_sound[OF assms, of pc e inp]
  by (cases "exec_step e inp i m") auto

lemma wf_prog_insn_ok: "wf_prog p \<Longrightarrow> pc < length p \<Longrightarrow> insn_ok (p ! pc)"
  by (simp add: wf_prog_def wf_insn_def)

lemma wf_prog_succs: "wf_prog p \<Longrightarrow> pc < length p \<Longrightarrow> t \<in> set (succs pc (p ! pc)) \<Longrightarrow> t < length p"
  by (auto simp: wf_prog_def wf_insn_def list_all_iff)

section \<open>Runs of well-formed programs\<close>

lemma exec_from_in:
  "pc < length p \<Longrightarrow> exec_from e inp p pc m =
     (case exec_step e inp (p ! pc) m of
        Next d m' \<Rightarrow> exec_from e inp p (pc + d + 1) m'
      | Halt v \<Rightarrow> Some (Inr v)
      | Fault c \<Rightarrow> Some (Inl (bpf_err c pc))
      | Crash \<Rightarrow> None)"
  by (subst exec_from.simps) simp

lemma exec_from_out:
  "length p \<le> pc \<Longrightarrow> exec_from e inp p pc m = Some (Inl (bpf_err InvalidEndOfProgram pc))"
  by (subst exec_from.simps) simp

text \<open>A result that a run of an accepted program may have.\<close>

definition run_ok :: "nat \<Rightarrow> (BpfError + u32) option \<Rightarrow> bool" where
  "run_ok n r \<longleftrightarrow>
     (\<exists>v. r = Some (Inr v)) \<or>
     (\<exists>c pc. r = Some (Inl (bpf_err c pc)) \<and> (c = DivisionByZero \<or> c = InvalidLoad) \<and> pc < n)"

lemma exec_from_run_ok:
  assumes "wf_prog p" "pc < length p" "mach_ok m"
  shows "run_ok (length p) (exec_from e inp p pc m)"
  using assms
proof (induction e inp p pc m rule: exec_from.induct)
  case (1 e inp p pc m)
  from wf_prog_insn_ok[OF 1(2,3)] 1(4) show ?case
  proof (cases rule: exec_step_cases[where pc = pc and e = e and inp = inp])
    case (Next d m')
    with 1 show ?thesis by (simp add: exec_from_in wf_prog_succs)
  qed (use 1(3) in \<open>auto simp: exec_from_in run_ok_def\<close>)
qed

section \<open>Instrumentation\<close>

lemma load_sized_None_iff: "load_sized e inp sz off = None \<longleftrightarrow> length inp < unat off + load_width sz"
  by (cases sz) (simp_all add: load_sized_def load32_None_iff load16_None_iff load8_None_iff)

lemma load_sized_agree:
  "length inp = length inp' \<Longrightarrow> agree_on inp inp' (unat off) (load_width sz) \<Longrightarrow>
     load_sized e inp sz off = load_sized e inp' sz off"
  by (cases sz) (simp_all add: load_sized_def load32_agree[of inp inp'] load16_agree[of inp inp']
      load8_agree[of inp inp'])

lemma load_into_A_Next: "load_into_A m v = Next d m' \<Longrightarrow> v \<noteq> None"
  by (auto simp: load_into_A_def split: option.splits)

text \<open>A step that goes on has read inside the input.\<close>

lemma case_read_bound:
  assumes "exec_case e inp i m c = Next d m'" "case_read c i m = Some (off, n)"
  shows "unat off + n \<le> length inp"
proof (cases c)
  case (CLdAbs sz)
  with assms load_into_A_Next[of m "load_sized e inp sz off"] show ?thesis
    by (auto simp: load_sized_None_iff)
next
  case (CLdInd sz)
  with assms load_into_A_Next[of m "load_sized e inp sz off"] show ?thesis
    by (auto simp: load_sized_None_iff)
next
  case CLdxMsh
  with assms show ?thesis by (auto simp: load8_def split: if_splits)
qed (use assms in auto)

lemma insn_read_bound:
  "exec_step e inp i m = Next d m' \<Longrightarrow> insn_read i m = Some (off, n) \<Longrightarrow> unat off + n \<le> length inp"
  using case_read_bound by (fastforce simp: exec_step_def insn_read_def split: option.splits)

text \<open>A step depends on the length of the input and on the bytes it reads.\<close>

lemma exec_case_agree:
  assumes len: "length inp = length inp'"
    and agr: "\<And>off n. case_read c i m = Some (off, n) \<Longrightarrow> unat off + n \<le> length inp \<Longrightarrow>
      agree_on inp inp' (unat off) n"
  shows "exec_case e inp i m c = exec_case e inp' i m c"
proof -
  have ld: "load_sized e inp sz off = load_sized e inp' sz off"
    if "case_read c i m = Some (off, load_width sz)" for sz off
  proof (cases "load_sized e inp sz off")
    case None
    then have "load_sized e inp' sz off = None" using len by (simp add: load_sized_None_iff)
    with None show ?thesis by simp
  next
    case (Some v)
    then have "unat off + load_width sz \<le> length inp"
      by (metis load_sized_None_iff not_le_imp_less option.distinct(1))
    then show ?thesis using agr[OF that] len by (intro load_sized_agree)
  qed
  show ?thesis
  proof (cases c)
    case CLdxMsh
    have "load8 inp (ImmK i) = load8 inp' (ImmK i)"
      using ld[of "ImmK i" SzB] CLdxMsh
      by (cases "load8 inp (ImmK i)"; cases "load8 inp' (ImmK i)")
         (auto simp: load_sized_def dest: ucast_u8_inj)
    with CLdxMsh show ?thesis by simp
  qed (use len ld in auto)
qed

lemma exec_step_agree:
  assumes "length inp = length inp'"
    and "\<And>off n. insn_read i m = Some (off, n) \<Longrightarrow> unat off + n \<le> length inp \<Longrightarrow>
      agree_on inp inp' (unat off) n"
  shows "exec_step e inp i m = exec_step e inp' i m"
  using assms
  by (auto simp: exec_step_def insn_read_def intro!: exec_case_agree split: option.splits)

lemma mark_range_nth:
  "j < length acc \<Longrightarrow> off + n \<le> length acc \<Longrightarrow>
     mark_range acc off n ! j \<longleftrightarrow> acc ! j \<or> off \<le> j \<and> j < off + n"
proof (induction n)
  case (Suc n)
  have "length (fold (\<lambda>i acc. acc[off + i := True]) xs acc) = length acc" for xs
    by (induction xs arbitrary: acc) auto
  with Suc show ?case
    by (auto simp: mark_range_def nth_list_update)
qed (auto simp: mark_range_def)

lemma length_mark_range [simp]: "length (mark_range acc off n) = length acc"
proof -
  have "length (fold (\<lambda>i acc. acc[off + i := True]) xs acc) = length acc" for xs
    by (induction xs arbitrary: acc) auto
  then show ?thesis by (simp add: mark_range_def)
qed

lemma mark_step_total:
  assumes "exec_step e inp i m = Next d m'" "length (InputAccessed met) = length inp"
  shows "\<exists>met'. mark_step i m met = Some met' \<and> length (InputAccessed met') = length inp \<and>
    (\<forall>j < length inp. InputAccessed met ! j \<longrightarrow> InputAccessed met' ! j) \<and>
    (\<forall>off n. insn_read i m = Some (off, n) \<longrightarrow> (\<forall>j < n. InputAccessed met' ! (unat off + j)))"
proof (cases "insn_read i m")
  case None
  then show ?thesis using assms by (auto simp: mark_step_def)
next
  case (Some r)
  obtain off n where r: "r = (off, n)" by (cases r)
  from insn_read_bound[OF assms(1)] Some r have b: "unat off + n \<le> length inp" by simp
  then show ?thesis
    using Some r assms(2) by (auto simp: mark_step_def markInputRead_def mark_range_nth)
qed

text \<open>A step that reads inside the input goes on, so one that stops does not depend on it.\<close>

lemma case_read_Next:
  assumes "case_read c i m = Some (off, n)" "unat off + n \<le> length inp"
  shows "\<exists>d m'. exec_case e inp i m c = Next d m'"
proof -
  have "\<exists>v. load_sized e inp sz off = Some v" if "n = load_width sz" for sz
    using load_sized_None_iff[of e inp sz off] assms(2) that by fastforce
  with assms show ?thesis
    by (cases c) (auto simp: load_into_A_def load8_def split: option.split)
qed

lemma exec_step_stop_agree:
  assumes "length inp = length inp'" "\<nexists>d m'. exec_step e inp i m = Next d m'"
  shows "exec_step e inp i m = exec_step e inp' i m"
proof (rule exec_step_agree[OF assms(1)])
  fix off n
  assume "insn_read i m = Some (off, n)" "unat off + n \<le> length inp"
  with assms(2) case_read_Next show "agree_on inp inp' (unat off) n"
    by (fastforce simp: insn_read_def exec_step_def)
qed

lemma instr_from_in:
  "pc < length p \<Longrightarrow> instr_from e inp p pc m met =
     (let met1 = met\<lparr>Coverage := (Coverage met)[pc := True]\<rparr> in
      case exec_step e inp (p ! pc) m of
        Next d m' \<Rightarrow>
          (case mark_step (p ! pc) m met1 of
             None \<Rightarrow> None
           | Some met2 \<Rightarrow> instr_from e inp p (pc + d + 1) m' met2)
      | Halt v \<Rightarrow> Some (met1\<lparr>ReturnValue := v\<rparr>, None)
      | Fault c \<Rightarrow> Some (met1, Some (bpf_err c pc))
      | Crash \<Rightarrow> None)"
  by (subst instr_from.simps) simp

lemma instr_from_out:
  "length p \<le> pc \<Longrightarrow>
     instr_from e inp p pc m met = Some (met, Some (bpf_err InvalidEndOfProgram pc))"
  by (subst instr_from.simps) simp

text \<open>What an instrumented run returns, read as the result of a plain run.\<close>

definition plain_result ::
  "(ExecutionMetrics \<times> BpfError option) option \<Rightarrow> (BpfError + u32) option" where
  "plain_result r =
     map_option (\<lambda>(met, err). case err of Some e \<Rightarrow> Inl e | None \<Rightarrow> Inr (ReturnValue met)) r"

lemma instr_from_exec_from:
  assumes "length (InputAccessed met) = length inp"
  shows "plain_result (instr_from e inp p pc m met) = exec_from e inp p pc m"
  using assms
proof (induction e inp p pc m met rule: instr_from.induct)
  case (1 e inp p pc m met)
  show ?case
  proof (cases "pc < length p")
    case in_p: True
    let ?met1 = "met\<lparr>Coverage := (Coverage met)[pc := True]\<rparr>"
    show ?thesis
    proof (cases "exec_step e inp (p ! pc) m")
      case (Next d m')
      obtain met2 where "mark_step (p ! pc) m ?met1 = Some met2" "length (InputAccessed met2) = length inp"
        using mark_step_total[OF Next, of ?met1] 1(2) by auto
      with 1(1)[OF in_p refl Next] in_p Next show ?thesis
        by (simp add: instr_from_in exec_from_in)
    qed (simp_all add: in_p instr_from_in exec_from_in plain_result_def)
  qed (simp add: instr_from_out exec_from_out plain_result_def)
qed

text \<open>Access marks only grow, and determine the run.\<close>

lemma instr_from_agree:
  assumes "instr_from e inp p pc m met = Some (met', err)"
    and "length (InputAccessed met) = length inp" and "length inp' = length inp"
    and "\<And>j. j < length inp \<Longrightarrow> InputAccessed met' ! j \<Longrightarrow> inp ! j = inp' ! j"
  shows "exec_from e inp' p pc m = exec_from e inp p pc m \<and>
    (\<forall>j < length inp. InputAccessed met ! j \<longrightarrow> InputAccessed met' ! j)"
  using assms
proof (induction e inp p pc m met rule: instr_from.induct)
  case (1 e inp p pc m met)
  show ?case
  proof (cases "pc < length p")
    case in_p: True
    let ?met1 = "met\<lparr>Coverage := (Coverage met)[pc := True]\<rparr>"
    show ?thesis
    proof (cases "exec_step e inp (p ! pc) m")
      case (Next d m')
      obtain met2 where met2: "mark_step (p ! pc) m ?met1 = Some met2"
        "length (InputAccessed met2) = length inp"
        "\<And>j. j < length inp \<Longrightarrow> InputAccessed met ! j \<Longrightarrow> InputAccessed met2 ! j"
        "\<And>off n j. insn_read (p ! pc) m = Some (off, n) \<Longrightarrow> j < n \<Longrightarrow> InputAccessed met2 ! (unat off + j)"
        using mark_step_total[OF Next, of ?met1] 1(3) by force
      have run: "instr_from e inp p (pc + d + 1) m' met2 = Some (met', err)"
        using 1(2) in_p Next met2(1) by (simp add: instr_from_in)
      from 1(1)[OF in_p refl Next met2(1) run met2(2) 1(4,5)]
      have IH: "exec_from e inp' p (pc + d + 1) m' = exec_from e inp p (pc + d + 1) m'"
        "\<forall>j < length inp. InputAccessed met2 ! j \<longrightarrow> InputAccessed met' ! j" by auto
      have "exec_step e inp (p ! pc) m = exec_step e inp' (p ! pc) m"
      proof (rule exec_step_agree)
        fix off n
        assume r: "insn_read (p ! pc) m = Some (off, n)" "unat off + n \<le> length inp"
        then show "agree_on inp inp' (unat off) n"
          using met2(4)[OF r(1)] IH(2) 1(5) by (auto simp: agree_on_def)
      qed (simp add: 1(4))
      with IH in_p Next met2(3) show ?thesis by (auto simp: exec_from_in)
    next
      case (Halt v)
      then have "exec_step e inp' (p ! pc) m = Halt v"
        using exec_step_stop_agree[of inp inp' e "p ! pc" m] 1(4) by simp
      with Halt 1(2) in_p show ?thesis
        by (auto simp: instr_from_in exec_from_in)
    next
      case (Fault c)
      then have "exec_step e inp' (p ! pc) m = Fault c"
        using exec_step_stop_agree[of inp inp' e "p ! pc" m] 1(4) by simp
      with Fault 1(2) in_p show ?thesis
        by (auto simp: instr_from_in exec_from_in)
    next
      case Crash
      with 1(2) in_p show ?thesis by (simp add: instr_from_in)
    qed
  next
    case False
    with 1(2) show ?thesis by (auto simp: instr_from_out exec_from_out)
  qed
qed

definition sample_insns :: "insn list" where
  "sample_insns =
     [Stmt (bpf_Ld OR bpf_Abs OR bpf_W) 4,
      Jump (bpf_Jmp OR bpf_Jeq OR bpf_K) 7 0 1,
      Stmt (bpf_Ret OR bpf_K) 1,
      Stmt (bpf_Ret OR bpf_A) 0]"

text \<open>Rules that evaluate the interpreter on a concrete program and input.\<close>

lemmas exec_eval = exec_step_def opcode_case_def opcode_table_eval Stmt_def Jump_def
  load_into_A_def load_sized_def load32_def load16_def load8_def le_uint32_def be_uint32_def
  le_uint16_def be_uint16_def init_machine_def mark_step_def insn_read_def markInputRead_def
  conditionalJumpOffset_def exec_from_in instr_from_in bpf_err_def

lemma mark_range_Suc: "mark_range acc off (Suc n) = (mark_range acc off n)[off + n := True]"
  by (simp add: mark_range_def)

lemma mark_range_0: "mark_range acc off 0 = acc"
  by (simp add: mark_range_def)

section \<open>Properties\<close>

text \<open>
  C3. A program that passes \<open>Compile\<close>'s checks is safe to run on any input in any byte
  order: the interpreter returns (it neither panics nor runs off the end), and the only
  errors it can report are an out-of-bounds input load and a division by a zero X, at an
  instruction of the program.  In particular a validated program never executes an invalid
  opcode, touches a scratch register that does not exist or jumps out of the program.
\<close>

theorem Exec_validated_safe:
  assumes "validate insns = None"
  shows "(\<exists>v. Exec e \<lparr>instructions = insns\<rparr> inp = Some (Inr v)) \<or>
    (\<exists>c pc. Exec e \<lparr>instructions = insns\<rparr> inp = Some (Inl \<lparr>Code = c, PC = pc\<rparr>) \<and>
       c \<in> {DivisionByZero, InvalidLoad} \<and> pc < length insns)"
proof -
  from assms have "wf_prog insns" by (rule validate_wf)
  then have "run_ok (length insns) (exec_from e inp insns 0 init_machine)"
    by (intro exec_from_run_ok) (auto simp: wf_prog_def)
  then show ?thesis by (auto simp: run_ok_def Exec_def bpf_err_def)
qed

lemma sample_insns_valid: "validate sample_insns = None"
  by (simp add: validate_def sample_insns_def Stmt_def Jump_def validate_insn_def op_class_def Let_def)

theorem Exec_validated_safe_witness:
  "validate sample_insns = None \<and>
   ((\<exists>v. Exec LittleEndian \<lparr>instructions = sample_insns\<rparr> [0, 0] = Some (Inr v)) \<or>
    (\<exists>c pc. Exec LittleEndian \<lparr>instructions = sample_insns\<rparr> [0, 0] = Some (Inl \<lparr>Code = c, PC = pc\<rparr>) \<and>
       c \<in> {DivisionByZero, InvalidLoad} \<and> pc < length sample_insns))"
  using sample_insns_valid Exec_validated_safe[OF sample_insns_valid, of LittleEndian "[0, 0]"]
  by simp


text \<open>
  C5. The input bytes that \<open>InstrumentedExec\<close> does not mark as accessed do not influence the
  program: \<open>Exec\<close> has the same outcome on every input of the same length that agrees on
  the marked bytes.
\<close>

theorem Exec_depends_on_accessed_only:
  assumes "InstrumentedExec e p inp = Some (met, err)"
    and "length inp' = length inp"
    and "\<And>j. j < length inp \<Longrightarrow> InputAccessed met ! j \<Longrightarrow> inp ! j = inp' ! j"
  shows "Exec e p inp' = Exec e p inp"
  unfolding Exec_def
  by (rule instr_from_agree [OF assms(1) [unfolded InstrumentedExec_def], THEN conjunct1])
     (use assms(2,3) in auto)

theorem Exec_depends_on_accessed_only_witness:
  "Exec LittleEndian \<lparr>instructions = sample_insns\<rparr> [9, 9, 9, 9, 7, 0, 0, 0, 9]
     = Exec LittleEndian \<lparr>instructions = sample_insns\<rparr> [1, 2, 3, 4, 7, 0, 0, 0, 5]"
proof (rule Exec_depends_on_accessed_only)
  show "InstrumentedExec LittleEndian \<lparr>instructions = sample_insns\<rparr> [1, 2, 3, 4, 7, 0, 0, 0, 5] =
    Some (\<lparr>ReturnValue = 1, Coverage = [True, True, True, False],
      InputAccessed = [False, False, False, False, True, True, True, True, False]\<rparr>, None)"
    by (simp add: InstrumentedExec_def sample_insns_def exec_eval)
       (simp add: numeral_eq_Suc mark_range_Suc mark_range_0)
  fix j :: nat
  assume "j < length [1, 2, 3, 4, 7, 0, 0, 0, 5 :: u8]"
  then have "j \<in> {0, 1, 2, 3, 4, 5, 6, 7, 8}" by auto
  moreover assume "InputAccessed \<lparr>ReturnValue = 1, Coverage = [True, True, True, False],
      InputAccessed = [False, False, False, False, True, True, True, True, False]\<rparr> ! j"
  ultimately show "[1, 2, 3, 4, 7, 0, 0, 0, 5] ! j = ([9, 9, 9, 9, 7, 0, 0, 0, 9] :: u8 list) ! j"
    by auto
qed simp

end
