(* ===== verification/Bpf_Optimizer.thy ===== *)
theory Bpf_Optimizer
  imports Bpf_Interpreter "HOL-Library.Product_Lexorder"
begin

text \<open>
  The bytecode optimiser of \<^verbatim>\<open>pkg/bpf/optimizer.go\<close> and the function \<open>Compile\<close> of
  \<^verbatim>\<open>pkg/bpf/interpreter.go\<close>.  Each pass takes the instructions and returns the new
  ones with a flag that says whether it changed anything; \<open>None\<close> is a panic (an index out of
  range on a program that was not checked).  A pass that writes \<^verbatim>\<open>insns[pc]\<close> inside its
  loop is a fold over the indexes with the instruction list as state.

  The order in which Go visits the keys of a map is unspecified; the one pass that iterates
  over a map takes that order as the parameter \<open>ord\<close>, an arbitrary function on the list of
  keys.
\<close>

abbreviation maxConditionalJumpOffset :: nat where "maxConditionalJumpOffset \<equiv> 255"
abbreviation maxUnconditionalJumpOffset :: nat where "maxUnconditionalJumpOffset \<equiv> 65535"

type_synonym opt_state = "insn list \<times> bool"

section \<open>Passes that rewrite in place\<close>

text \<open>The final offset of a branch with offset \<open>off\<close> that lands on \<open>target\<close>, if it can be shortened.\<close>

definition threaded_offset :: "u8 \<Rightarrow> insn \<Rightarrow> u8 option" where
  "threaded_offset off target =
     (let final = unat off + 1 + unat (ImmK target) in
      if op_class target = bpf_Jmp \<and> OpCode target AND jmpMask = bpf_Ja \<and>
         final \<le> maxConditionalJumpOffset
      then Some (of_nat final) else None)"

definition optimizeConditionalJumps_body :: "nat \<Rightarrow> opt_state \<Rightarrow> opt_state option" where
  "optimizeConditionalJumps_body pc st =
     (case st of (insns, changed) \<Rightarrow>
      do {
        ins \<leftarrow> slice_get insns pc;
        if \<not> IsConditionalJump ins then Some (insns, changed)
        else do {
          jumpTrueIns \<leftarrow> slice_get insns (pc + unat (JumpIfTrue ins) + 1);
          let (ins, changed) =
            (case threaded_offset (JumpIfTrue ins) jumpTrueIns of
               Some off \<Rightarrow> (ins\<lparr>JumpIfTrue := off\<rparr>, True)
             | None \<Rightarrow> (ins, changed));
          jumpFalseIns \<leftarrow> slice_get insns (pc + unat (JumpIfFalse ins) + 1);
          let (ins, changed) =
            (case threaded_offset (JumpIfFalse ins) jumpFalseIns of
               Some off \<Rightarrow> (ins\<lparr>JumpIfFalse := off\<rparr>, True)
             | None \<Rightarrow> (ins, changed));
          Some (insns[pc := ins], changed)
        }
      })"

definition optimizeConditionalJumps :: "insn list \<Rightarrow> opt_state option" where
  "optimizeConditionalJumps insns =
     foldm optimizeConditionalJumps_body [0..<length insns] (insns, False)"

definition optimizeSameTargetConditionalJumps_body :: "nat \<Rightarrow> opt_state \<Rightarrow> opt_state option" where
  "optimizeSameTargetConditionalJumps_body pc st =
     (case st of (insns, changed) \<Rightarrow>
      do {
        ins \<leftarrow> slice_get insns pc;
        if \<not> IsConditionalJump ins then Some (insns, changed)
        else if JumpIfTrue ins \<noteq> JumpIfFalse ins then Some (insns, changed)
        else Some (insns[pc := Jump (bpf_Jmp OR bpf_Ja) (ucast (JumpIfTrue ins)) 0 0], True)
      })"

definition optimizeSameTargetConditionalJumps :: "insn list \<Rightarrow> opt_state option" where
  "optimizeSameTargetConditionalJumps insns =
     foldm optimizeSameTargetConditionalJumps_body [0..<length insns] (insns, False)"

definition optimizeUnconditionalJumps_body :: "nat \<Rightarrow> opt_state \<Rightarrow> opt_state option" where
  "optimizeUnconditionalJumps_body pc st =
     (case st of (insns, changed) \<Rightarrow>
      do {
        ins \<leftarrow> slice_get insns pc;
        if \<not> IsUnconditionalJump ins then Some (insns, changed)
        else do {
          jumpIns \<leftarrow> slice_get insns (pc + unat (ImmK ins) + 1);
          let finalJumpOffset = unat (ImmK ins) + 1 + unat (ImmK jumpIns);
          if \<not> IsUnconditionalJump jumpIns then Some (insns, changed)
          else if finalJumpOffset > maxUnconditionalJumpOffset then Some (insns, changed)
          else Some (insns[pc := ins\<lparr>ImmK := of_nat finalJumpOffset\<rparr>], True)
        }
      })"

definition optimizeUnconditionalJumps :: "insn list \<Rightarrow> opt_state option" where
  "optimizeUnconditionalJumps insns =
     foldm optimizeUnconditionalJumps_body [0..<length insns] (insns, False)"

definition optimizeJumpsToReturn_body :: "nat \<Rightarrow> opt_state \<Rightarrow> opt_state option" where
  "optimizeJumpsToReturn_body pc st =
     (case st of (insns, changed) \<Rightarrow>
      do {
        ins \<leftarrow> slice_get insns pc;
        if \<not> IsUnconditionalJump ins then Some (insns, changed)
        else do {
          targetIns \<leftarrow> slice_get insns (pc + unat (ImmK ins) + 1);
          if op_class targetIns \<noteq> bpf_Ret then Some (insns, changed)
          else Some (insns[pc := targetIns], True)
        }
      })"

definition optimizeJumpsToReturn :: "insn list \<Rightarrow> opt_state option" where
  "optimizeJumpsToReturn insns =
     foldm optimizeJumpsToReturn_body [0..<length insns] (insns, False)"

section \<open>Removing instructions\<close>

record codeRemoval =
  cr_insns :: "insn list"
  cr_toRemove :: "nat list"

definition MarkRemoved :: "nat \<Rightarrow> codeRemoval \<Rightarrow> codeRemoval" where
  "MarkRemoved index cr = cr\<lparr>cr_toRemove := cr_toRemove cr @ [index]\<rparr>"

text \<open>\<open>decrementJumps\<close> on the instruction at \<open>pc\<close>.\<close>

definition decrement_insn :: "nat \<Rightarrow> nat \<Rightarrow> insn \<Rightarrow> insn" where
  "decrement_insn target pc ins =
     (if \<not> IsJump ins then ins
      else if IsUnconditionalJump ins then
        (if pc + unat (ImmK ins) + 1 > target then ins\<lparr>ImmK := ImmK ins - 1\<rparr> else ins)
      else
        (let ins = (if pc + unat (JumpIfTrue ins) + 1 > target
                    then ins\<lparr>JumpIfTrue := JumpIfTrue ins - 1\<rparr> else ins)
         in if pc + unat (JumpIfFalse ins) + 1 > target
            then ins\<lparr>JumpIfFalse := JumpIfFalse ins - 1\<rparr> else ins))"

definition decrementJumps :: "insn list \<Rightarrow> nat \<Rightarrow> insn list" where
  "decrementJumps insns target =
     map (\<lambda>pc. if pc < target then decrement_insn target pc (insns ! pc) else insns ! pc)
       [0..<length insns]"

text \<open>One round of the loop of \<open>Apply\<close>.\<close>

definition remove_at :: "nat \<Rightarrow> insn list \<Rightarrow> insn list option" where
  "remove_at pc insns =
     (if pc < length insns then Some (decrementJumps (slice_remove insns pc) pc) else None)"

definition Apply :: "codeRemoval \<Rightarrow> opt_state option" where
  "Apply cr =
     (if cr_toRemove cr = [] then Some (cr_insns cr, False)
      else do {
        insns \<leftarrow> foldm remove_at (rev (sort (cr_toRemove cr))) (cr_insns cr);
        Some (insns, True)
      })"

text \<open>Mark every index that satisfies a test, in increasing order, and apply the removal.\<close>

definition remove_where :: "(nat \<Rightarrow> bool) \<Rightarrow> insn list \<Rightarrow> opt_state option" where
  "remove_where P insns =
     Apply (fold (\<lambda>pc cr. if P pc then MarkRemoved pc cr else cr) [0..<length insns]
       \<lparr>cr_insns = insns, cr_toRemove = []\<rparr>)"

definition removeZeroInstructionJumps :: "insn list \<Rightarrow> opt_state option" where
  "removeZeroInstructionJumps insns =
     remove_where (\<lambda>pc. \<not> (\<not> IsUnconditionalJump (insns ! pc) \<or> ImmK (insns ! pc) \<noteq> 0)) insns"

text \<open>
  The worklist of \<open>removeDeadCode\<close>: a cursor outside the program panics.  Every round
  either marks an unmarked instruction or drops a cursor.
\<close>

definition unmarked :: "bool list \<Rightarrow> nat" where
  "unmarked reachable = length (filter Not reachable)"

lemma unmarked_mark: "i < length r \<Longrightarrow> \<not> r ! i \<Longrightarrow> unmarked (r[i := True]) < unmarked r"
proof (induction r arbitrary: i)
  case (Cons a r)
  then show ?case by (cases i) (auto simp: unmarked_def)
qed simp

function mark_reachable :: "insn list \<Rightarrow> bool list \<Rightarrow> nat list \<Rightarrow> bool list option" where
  "mark_reachable insns reachable [] = Some reachable"
| "mark_reachable insns reachable (cursor # cursors) =
     (if cursor < length reachable \<and> cursor < length insns then
        (if reachable ! cursor then mark_reachable insns reachable cursors
         else
           (let ins = insns ! cursor; reachable' = reachable[cursor := True] in
            if op_class ins = bpf_Ret then mark_reachable insns reachable' cursors
            else if op_class ins = bpf_Jmp then
              (if IsUnconditionalJump ins
               then mark_reachable insns reachable' (cursors @ [cursor + unat (ImmK ins) + 1])
               else mark_reachable insns reachable'
                 (cursors @ [cursor + unat (JumpIfTrue ins) + 1, cursor + unat (JumpIfFalse ins) + 1]))
            else mark_reachable insns reachable' (cursors @ [cursor + 1])))
      else None)"
  by pat_completeness auto
termination
  by (relation "measures [\<lambda>(insns, reachable, cursors). unmarked reachable,
      \<lambda>(insns, reachable, cursors). length cursors]") (auto simp: unmarked_mark)

definition removeDeadCode :: "insn list \<Rightarrow> opt_state option" where
  "removeDeadCode insns =
     (if length insns = 0 then Some (insns, False)
      else do {
        reachable \<leftarrow> mark_reachable insns (replicate (length insns) False) [0];
        remove_where (\<lambda>pc. \<not> reachable ! pc) insns
      })"

section \<open>Redundant loads\<close>

text \<open>
  \<open>reverseWalk\<close> maps every index to the set of indexes that may run just before it; the sets
  are duplicate-free lists.
\<close>

definition add_pred :: "nat \<Rightarrow> nat \<Rightarrow> nat list list \<Rightarrow> nat list list option" where
  "add_pred pc target walk =
     do {
       preds \<leftarrow> slice_get walk target;
       Some (walk[target := List.insert pc preds])
     }"

definition reverseWalk_body :: "insn list \<Rightarrow> nat \<Rightarrow> nat list list \<Rightarrow> nat list list option" where
  "reverseWalk_body insns pc walk =
     do {
       ins \<leftarrow> slice_get insns pc;
       if IsReturn ins then Some walk
       else if IsJump ins then
         foldm (\<lambda>jo. add_pred pc (pc + unat (joOffset jo) + 1)) (JumpOffsets ins) walk
       else add_pred pc (pc + 1) walk
     }"

definition reverseWalk :: "insn list \<Rightarrow> nat list list option" where
  "reverseWalk insns =
     foldm (reverseWalk_body insns) [0..<length insns] (replicate (length insns) [])"

text \<open>
  The backwards walk from the predecessors \<open>before\<close>: \<open>Some (Some p)\<close> when it stops at the
  instruction \<open>p\<close> that last modified A.  Predecessors have smaller indexes, so as much fuel
  as there are instructions is enough; running out of fuel is \<open>None\<close>.
\<close>

fun lastModifiedA :: "nat \<Rightarrow> insn list \<Rightarrow> nat list list \<Rightarrow> nat list \<Rightarrow> nat option option" where
  "lastModifiedA 0 insns walk before = None"
| "lastModifiedA (Suc fuel) insns walk before =
     (case before of
        [] \<Rightarrow> Some None
      | [beforePC] \<Rightarrow>
          do {
            ins \<leftarrow> slice_get insns beforePC;
            if \<not> ModifiesRegisterA ins then do {
              preds \<leftarrow> slice_get walk beforePC;
              lastModifiedA fuel insns walk preds
            }
            else Some (Some beforePC)
          }
      | _ \<Rightarrow> Some None)"

definition redundant_load :: "insn list \<Rightarrow> nat list list \<Rightarrow> nat \<Rightarrow> bool option" where
  "redundant_load insns walk pc =
     do {
       ins \<leftarrow> slice_get insns pc;
       if op_class ins \<noteq> bpf_Ld then Some False
       else do {
         preds \<leftarrow> slice_get walk pc;
         lm \<leftarrow> lastModifiedA (Suc (length insns)) insns walk preds;
         (case lm of
            None \<Rightarrow> Some False
          | Some p \<Rightarrow> do { other \<leftarrow> slice_get insns p; Some (Equal ins other) })
       }
     }"

text \<open>The redundancy flag of every instruction, in order.\<close>

definition redundant_loads :: "insn list \<Rightarrow> nat list list \<Rightarrow> bool list option" where
  "redundant_loads insns walk =
     foldm (\<lambda>pc flags. do { b \<leftarrow> redundant_load insns walk pc; Some (flags @ [b]) })
       [0..<length insns] []"

definition removeRedundantLoads :: "insn list \<Rightarrow> opt_state option" where
  "removeRedundantLoads insns =
     do {
       walk \<leftarrow> reverseWalk insns;
       flags \<leftarrow> redundant_loads insns walk;
       remove_where (\<lambda>pc. flags ! pc) insns
     }"

section \<open>Sharing return instructions\<close>

record jumpRewriteOperation =
  jro_pc :: nat
  jro_jumpType :: JumpType
  jro_rewriteTo :: nat

text \<open>The rewrites that one instruction needs; \<open>None\<close> when one of them does not fit.\<close>

definition rewrite_ops_at :: "nat \<Rightarrow> nat \<Rightarrow> nat \<Rightarrow> insn \<Rightarrow> jumpRewriteOperation list option" where
  "rewrite_ops_at fromPC toPC pc ins =
     (let neededOffset = int toPC - int pc - 1;
          op = (\<lambda>jt. \<lparr>jro_pc = pc, jro_jumpType = jt, jro_rewriteTo = nat neededOffset\<rparr>) in
      if IsConditionalJump ins then
        (let hitsTrue = (pc + unat (JumpIfTrue ins) + 1 = fromPC);
             hitsFalse = (pc + unat (JumpIfFalse ins) + 1 = fromPC);
             bad = (neededOffset < 0 \<or> neededOffset > int maxConditionalJumpOffset) in
         if hitsTrue \<and> bad then None
         else if hitsFalse \<and> bad then None
         else Some ((if hitsTrue then [op JumpTrue] else []) @ (if hitsFalse then [op JumpFalse] else [])))
      else if IsUnconditionalJump ins then
        (if pc + unat (ImmK ins) + 1 = fromPC then
           (if neededOffset < 0 \<or> neededOffset > int maxUnconditionalJumpOffset then None
            else Some [op JumpDirect])
         else Some [])
      else Some [])"

fun rewrite_scan :: "insn list \<Rightarrow> nat \<Rightarrow> nat \<Rightarrow> nat list \<Rightarrow> jumpRewriteOperation list option" where
  "rewrite_scan insns fromPC toPC [] = Some []"
| "rewrite_scan insns fromPC toPC (pc # pcs) =
     (case rewrite_ops_at fromPC toPC pc (insns ! pc) of
        None \<Rightarrow> None
      | Some ops \<Rightarrow> map_option ((@) ops) (rewrite_scan insns fromPC toPC pcs))"

definition apply_rewrite :: "jumpRewriteOperation \<Rightarrow> insn list \<Rightarrow> insn list" where
  "apply_rewrite op insns =
     (let ins = insns ! jro_pc op in
      insns[jro_pc op :=
        (case jro_jumpType op of
           JumpTrue \<Rightarrow> ins\<lparr>JumpIfTrue := of_nat (jro_rewriteTo op)\<rparr>
         | JumpFalse \<Rightarrow> ins\<lparr>JumpIfFalse := of_nat (jro_rewriteTo op)\<rparr>
         | JumpDirect \<Rightarrow> ins\<lparr>ImmK := of_nat (jro_rewriteTo op)\<rparr>)])"

definition rewriteAllJumpsToReturn :: "insn list \<Rightarrow> nat \<Rightarrow> nat \<Rightarrow> opt_state option" where
  "rewriteAllJumpsToReturn insns fromPC toPC =
     do {
       fromIns \<leftarrow> slice_get insns fromPC;
       toIns \<leftarrow> slice_get insns toPC;
       if \<not> IsReturn fromIns then None
       else if \<not> IsReturn toIns then None
       else if \<not> Equal fromIns toIns then None
       else (case rewrite_scan insns fromPC toPC [0..<fromPC] of
               None \<Rightarrow> Some (insns, False)
             | Some ops \<Rightarrow>
                 if ops = [] then Some (insns, False)
                 else Some (fold apply_rewrite ops insns, True))
     }"

abbreviation retRegisterA :: u64 where "retRegisterA \<equiv> 0xaaaaaaaaaaaaaaaa"

text \<open>The key of a return instruction; an unknown return source panics.\<close>

definition ret_value :: "insn \<Rightarrow> u64 option" where
  "ret_value ins =
     (if OpCode ins - bpf_Ret = bpf_A then Some retRegisterA
      else if OpCode ins - bpf_Ret = bpf_K then Some (ucast (ImmK ins))
      else None)"

text \<open>
  What the scan of the instructions before \<open>pc\<close> adds to the popularity of a return at
  \<open>pc\<close>, and whether the program can fall through to it.
\<close>

definition popularity_at :: "nat \<Rightarrow> nat \<Rightarrow> nat \<Rightarrow> insn \<Rightarrow> nat" where
  "popularity_at numInstructions pc pc2 ins2 =
     (if op_class ins2 = bpf_Ret then 0
      else if op_class ins2 = bpf_Jmp then
        (if IsConditionalJump ins2 then
           (if pc2 + unat (JumpIfTrue ins2) + 1 = pc then 1 else 0) +
           (if pc2 + unat (JumpIfFalse ins2) + 1 = pc then 1 else 0)
         else if pc2 + unat (ImmK ins2) + 1 = pc then 1 else 0)
      else if Suc pc2 = pc then numInstructions else 0)"

definition ret_popularity :: "insn list \<Rightarrow> nat \<Rightarrow> nat" where
  "ret_popularity insns pc =
     (\<Sum>pc2\<leftarrow>[0..<pc]. popularity_at (length insns) pc pc2 (insns ! pc2))"

definition ret_fallthrough :: "insn list \<Rightarrow> nat \<Rightarrow> bool" where
  "ret_fallthrough insns pc =
     list_ex (\<lambda>pc2. op_class (insns ! pc2) \<noteq> bpf_Ret \<and> op_class (insns ! pc2) \<noteq> bpf_Jmp \<and> Suc pc2 = pc)
       [0..<pc]"

text \<open>The map from return values to the indexes that return them, keys in order of first use.\<close>

definition add_ret :: "u64 \<Rightarrow> nat \<Rightarrow> (u64 \<times> nat list) list \<Rightarrow> (u64 \<times> nat list) list" where
  "add_ret v pc m =
     (case map_of m v of
        None \<Rightarrow> m @ [(v, [pc])]
      | Some pcs \<Rightarrow> map (\<lambda>(w, qs). if w = v then (w, qs @ [pc]) else (w, qs)) m)"

definition retValueToPC :: "insn list \<Rightarrow> (u64 \<times> nat list) list option" where
  "retValueToPC insns =
     foldm (\<lambda>pc m.
         if \<not> IsReturn (insns ! pc) then Some m
         else do { v \<leftarrow> ret_value (insns ! pc); Some (add_ret v pc m) })
       [0..<length insns] []"

text \<open>
  Try the candidates for one unpopular return, most popular first, until a rewrite succeeds.
\<close>

fun try_candidates :: "nat \<Rightarrow> nat list \<Rightarrow> opt_state \<Rightarrow> opt_state option" where
  "try_candidates unpopularPC [] st = Some st"
| "try_candidates unpopularPC (popularPC # cands) (insns, changed) =
     do {
       (insns', ok) \<leftarrow> rewriteAllJumpsToReturn insns unpopularPC popularPC;
       if ok then Some (insns', True)
       else try_candidates unpopularPC cands (insns', changed)
     }"

fun merge_returns :: "(nat \<Rightarrow> bool) \<Rightarrow> nat list \<Rightarrow> opt_state \<Rightarrow> opt_state option" where
  "merge_returns fallthrough [] st = Some st"
| "merge_returns fallthrough (unpopularPC # pcs) st =
     do {
       st' \<leftarrow> (if fallthrough unpopularPC then Some st
               else try_candidates unpopularPC (rev pcs) st);
       merge_returns fallthrough pcs st'
     }"

definition optimizeJumpsToSmallestSetOfReturns ::
  "(u64 list \<Rightarrow> u64 list) \<Rightarrow> insn list \<Rightarrow> opt_state option" where
  "optimizeJumpsToSmallestSetOfReturns ord insns =
     do {
       m \<leftarrow> retValueToPC insns;
       foldm (\<lambda>v st.
           merge_returns (ret_fallthrough insns)
             (sort_key (\<lambda>pc. (ret_popularity insns pc, pc)) (case map_of m v of None \<Rightarrow> [] | Some pcs \<Rightarrow> pcs))
             st)
         (ord (map fst m)) (insns, False)
     }"

section \<open>The optimisation loop\<close>

type_synonym optimizerFunc = "insn list \<Rightarrow> opt_state option"

text \<open>One round of the outer loop: the functions in order, up to the first that changes something.\<close>

fun optimize_round :: "optimizerFunc list \<Rightarrow> insn list \<Rightarrow> opt_state option" where
  "optimize_round [] insns = Some (insns, False)"
| "optimize_round (fn # funcs) insns =
     do {
       (insns', changed) \<leftarrow> fn insns;
       if changed then Some (insns', True) else optimize_round funcs insns'
     }"

partial_function (option) optimize :: "optimizerFunc list \<Rightarrow> insn list \<Rightarrow> insn list option" where
  "optimize funcs insns =
     do {
       (insns', changed) \<leftarrow> optimize_round funcs insns;
       if changed then optimize funcs insns' else Some insns'
     }"

definition optimizer_funcs :: "(u64 list \<Rightarrow> u64 list) \<Rightarrow> optimizerFunc list" where
  "optimizer_funcs ord =
     [optimizeConditionalJumps,
      optimizeSameTargetConditionalJumps,
      optimizeUnconditionalJumps,
      optimizeJumpsToReturn,
      removeZeroInstructionJumps,
      removeDeadCode,
      removeRedundantLoads,
      optimizeJumpsToSmallestSetOfReturns ord]"

definition Optimize :: "(u64 list \<Rightarrow> u64 list) \<Rightarrow> insn list \<Rightarrow> insn list option" where
  "Optimize ord insns = optimize (optimizer_funcs ord) insns"

definition Compile ::
  "(u64 list \<Rightarrow> u64 list) \<Rightarrow> insn list \<Rightarrow> bool \<Rightarrow> (BpfError + Program) option" where
  "Compile ord insns opt =
     (case validate insns of
        Some err \<Rightarrow> Some (Inl err)
      | None \<Rightarrow>
          if opt then map_option (\<lambda>insns'. Inr \<lparr>instructions = insns'\<rparr>) (Optimize ord insns)
          else Some (Inr \<lparr>instructions = insns\<rparr>))"

end
