(* ===== verification/Bpf_Opt_Inplace.thy ===== *)
theory Bpf_Opt_Inplace
  imports Bpf_Optimizer
begin

text \<open>
  Correctness of the optimiser, part one: what it means for a pass to keep the behaviour of a
  program, the order in which every pass goes down, and the four passes of
  \<^verbatim>\<open>pkg/bpf/optimizer.go\<close> that rewrite instructions in place (jump threading for
  conditional and unconditional jumps, conditional jumps with one target, jumps to returns).
\<close>


section \<open>Observable equivalence\<close>

text \<open>
  Passes that delete instructions shift program counters, so the error positions of a run
  may differ; what is kept is the returned value, or the error code.
\<close>

definition observe :: "(BpfError + u32) option \<Rightarrow> (BpfCode + u32) option" where
  "observe r = map_option (map_sum Code id) r"

definition obs_equiv :: "insn list \<Rightarrow> insn list \<Rightarrow> bool" where
  "obs_equiv q p \<longleftrightarrow> (\<forall>e inp. observe (exec_from e inp q 0 init_machine) =
     observe (exec_from e inp p 0 init_machine))"

text \<open>Running the instruction \<open>i\<close> in place of the one at \<open>pc\<close>, once.\<close>

definition exec_with ::
  "Endianness \<Rightarrow> Input \<Rightarrow> insn list \<Rightarrow> nat \<Rightarrow> insn \<Rightarrow> machine \<Rightarrow> (BpfError + u32) option" where
  "exec_with e inp p pc i m =
     (case exec_step e inp i m of
        Next d m' \<Rightarrow> exec_from e inp p (pc + d + 1) m'
      | Halt v \<Rightarrow> Some (Inr v)
      | Fault c \<Rightarrow> Some (Inl (bpf_err c pc))
      | Crash \<Rightarrow> None)"

definition run_equiv :: "insn list \<Rightarrow> insn list \<Rightarrow> bool" where
  "run_equiv q p \<longleftrightarrow> (\<forall>e inp pc m. exec_from e inp q pc m = exec_from e inp p pc m)"

text \<open>
  Loads into A whose value depends on the input alone: immediate, absolute and length loads,
  not those relative to X or from scratch memory.
\<close>

definition plain_load :: "insn \<Rightarrow> bool" where
  "plain_load i \<longleftrightarrow>
     (case opcode_case (OpCode i) of Some CLdMem \<Rightarrow> False | Some (CLdInd _) \<Rightarrow> False | _ \<Rightarrow> True)"

definition plain_loads :: "insn list \<Rightarrow> bool" where
  "plain_loads p \<longleftrightarrow> list_all plain_load p"

section \<open>Static reachability\<close>

inductive_set sreach :: "insn list \<Rightarrow> nat set" for p where
  sreach_start: "0 \<in> sreach p"
| sreach_step: "pc \<in> sreach p \<Longrightarrow> pc < length p \<Longrightarrow> t \<in> set (succs pc (p ! pc)) \<Longrightarrow> t \<in> sreach p"

definition nreach :: "insn list \<Rightarrow> nat" where
  "nreach p = card (sreach p)"

section \<open>The termination measure\<close>

definition ncond :: "insn list \<Rightarrow> nat" where
  "ncond p = (\<Sum>pc<length p. of_bool (IsConditionalJump (p ! pc)))"

definition njump :: "insn list \<Rightarrow> nat" where
  "njump p = (\<Sum>pc<length p. of_bool (IsJump (p ! pc)))"

definition jump_slack :: "nat \<Rightarrow> nat \<Rightarrow> insn \<Rightarrow> nat" where
  "jump_slack n pc i = (if IsJump i then (\<Sum>t\<leftarrow>succs pc i. n - t) else 0)"

definition slack :: "insn list \<Rightarrow> nat" where
  "slack p = (\<Sum>pc<length p. jump_slack (length p) pc (p ! pc))"

definition opt_order :: "(insn list \<times> insn list) set" where
  "opt_order = measures [nreach, length, ncond, njump, slack]"

lemma wf_opt_order [simp]: "wf opt_order"
  by (simp add: opt_order_def)

lemma opt_order_trans: "(r, q) \<in> opt_order \<Longrightarrow> (q, p) \<in> opt_order \<Longrightarrow> (r, p) \<in> opt_order"
  by (auto simp: opt_order_def)

section \<open>Updating one instruction\<close>

lemma exec_from_with: "pc < length p \<Longrightarrow> exec_from e inp p pc m = exec_with e inp p pc (p ! pc) m"
  by (simp add: exec_from_in exec_with_def)

lemma exec_from_update_after:
  "k < pc \<Longrightarrow> exec_from e inp (p[k := i]) pc m = exec_from e inp p pc m"
proof (induction e inp p pc m rule: exec_from.induct)
  case (1 e inp p pc m)
  then show ?case
    by (cases "pc < length p") (auto simp: exec_from_in exec_from_out split: step_result.split)
qed

lemma exec_from_update:
  assumes "\<And>m. exec_with e inp p k i m = exec_with e inp p k (p ! k) m"
  shows "exec_from e inp (p[k := i]) pc m = exec_from e inp p pc m"
  using assms
proof (induction e inp p pc m rule: exec_from.induct)
  case (1 e inp p pc m)
  show ?case
  proof (cases "pc < length p")
    case in_p: True
    show ?thesis
    proof (cases "pc = k")
      case True
      have "exec_from e inp (p[k := i]) k m = exec_with e inp p k i m"
        using in_p True
        by (auto simp: exec_from_in exec_with_def exec_from_update_after split: step_result.split)
      with 1(2) in_p True show ?thesis by (simp add: exec_from_with)
    next
      case False
      with 1 in_p show ?thesis by (auto simp: exec_from_in split: step_result.split)
    qed
  qed (simp add: exec_from_out)
qed

lemma run_equiv_update:
  assumes "\<And>e inp m. exec_with e inp p k i m = exec_with e inp p k (p ! k) m"
  shows "run_equiv (p[k := i]) p"
  unfolding run_equiv_def by (intro allI exec_from_update assms)

lemma run_equiv_refl [simp]: "run_equiv p p"
  by (simp add: run_equiv_def)

lemma run_equiv_trans: "run_equiv r q \<Longrightarrow> run_equiv q p \<Longrightarrow> run_equiv r p"
  by (simp add: run_equiv_def)

lemma run_equiv_obs: "run_equiv q p \<Longrightarrow> obs_equiv q p"
  by (simp add: run_equiv_def obs_equiv_def)

lemma obs_equiv_refl [simp]: "obs_equiv p p"
  by (simp add: obs_equiv_def)

lemma obs_equiv_trans: "obs_equiv r q \<Longrightarrow> obs_equiv q p \<Longrightarrow> obs_equiv r p"
  by (simp add: obs_equiv_def)

lemma wf_prog_update:
  assumes "wf_prog p" "k < length p" "insn_ok i" "\<And>t. t \<in> set (succs k i) \<Longrightarrow> t < length p"
  shows "wf_prog (p[k := i])"
  using assms by (auto simp: wf_prog_def wf_insn_def nth_list_update list_all_iff)

lemma sreach_update:
  assumes "\<And>t. k \<in> sreach p \<Longrightarrow> k < length p \<Longrightarrow> t \<in> set (succs k i) \<Longrightarrow> t \<in> sreach p"
  shows "sreach (p[k := i]) \<subseteq> sreach p"
proof
  fix t assume "t \<in> sreach (p[k := i])"
  then show "t \<in> sreach p"
  proof induction
    case (sreach_step pc t)
    then show ?case
      using assms by (cases "pc = k") (auto intro: sreach.sreach_step)
  qed (rule sreach.sreach_start)
qed

lemma sreach_bounded:
  assumes "wf_prog p" "pc \<in> sreach p"
  shows "pc < length p"
  using assms(2,1)
  by (induction rule: sreach.induct) (auto simp: wf_prog_def wf_insn_def list_all_iff)

lemma finite_sreach: "wf_prog p \<Longrightarrow> finite (sreach p)"
  by (rule finite_subset[of _ "{..<length p}"]) (auto simp: sreach_bounded)

lemma nreach_mono: "wf_prog p \<Longrightarrow> sreach q \<subseteq> sreach p \<Longrightarrow> nreach q \<le> nreach p"
  by (simp add: nreach_def card_mono finite_sreach)

text \<open>An update lowers a sum over the indexes when it lowers the summand at the updated index.\<close>

lemma sum_update_less:
  fixes f :: "nat \<Rightarrow> insn \<Rightarrow> nat"
  assumes "k < length p" "f k i < f k (p ! k)"
  shows "(\<Sum>pc<length p. f pc (p[k := i] ! pc)) < (\<Sum>pc<length p. f pc (p ! pc))"
  using assms by (intro sum_strict_mono_ex1) (auto simp: nth_list_update intro!: bexI[of _ k])

lemma sum_update_eq:
  fixes f :: "nat \<Rightarrow> insn \<Rightarrow> nat"
  assumes "k < length p" "f k i = f k (p ! k)"
  shows "(\<Sum>pc<length p. f pc (p[k := i] ! pc)) = (\<Sum>pc<length p. f pc (p ! pc))"
  using assms by (intro sum.cong) (auto simp: nth_list_update)

text \<open>
  The contract of one in-place rewrite: it keeps the program well formed and every run
  unchanged, and goes down in the termination order.
\<close>

definition improves :: "insn list \<Rightarrow> insn list \<Rightarrow> bool" where
  "improves q p \<longleftrightarrow> wf_prog q \<and> length q = length p \<and> run_equiv q p \<and>
     (plain_loads p \<longrightarrow> plain_loads q) \<and> (q, p) \<in> opt_order"

lemma improves_update:
  assumes wf: "wf_prog p" and k: "k < length p" and ok: "insn_ok i"
    and pl: "plain_load i"
    and eq: "\<And>e inp m. exec_with e inp p k i m = exec_with e inp p k (p ! k) m"
    and tgt: "\<And>t. t \<in> set (succs k i) \<Longrightarrow> t < length p \<and> (k \<in> sreach p \<longrightarrow> t \<in> sreach p)"
    and dec: "IsConditionalJump (p ! k) \<and> \<not> IsConditionalJump i \<or>
      (IsConditionalJump i \<longleftrightarrow> IsConditionalJump (p ! k)) \<and>
      (IsJump (p ! k) \<and> \<not> IsJump i \<or>
       (IsJump i \<longleftrightarrow> IsJump (p ! k)) \<and> jump_slack (length p) k i < jump_slack (length p) k (p ! k))"
  shows "improves (p[k := i]) p"
proof -
  have "sreach (p[k := i]) \<subseteq> sreach p" by (rule sreach_update) (use tgt in auto)
  then have n: "nreach (p[k := i]) \<le> nreach p" by (rule nreach_mono[OF wf])
  let ?c = "\<lambda>_ i. of_bool (IsConditionalJump i) :: nat" and ?j = "\<lambda>_ i. of_bool (IsJump i) :: nat"
  note less = sum_update_less[OF k] and same = sum_update_eq[OF k]
  from dec n have "(p[k := i], p) \<in> opt_order"
    using less[of ?c i] same[of ?c i] less[of ?j i] same[of ?j i] less[of "jump_slack (length p)" i]
    by (auto simp: opt_order_def ncond_def njump_def slack_def)
  then show ?thesis
    using wf_prog_update[OF wf k ok] run_equiv_update[OF eq] tgt pl
    by (auto simp: improves_def plain_loads_def list_all_iff dest!: set_update_subset_insert[THEN subsetD])
qed

lemma improves_trans: "improves r q \<Longrightarrow> improves q p \<Longrightarrow> improves r p"
  by (auto simp: improves_def intro: run_equiv_trans opt_order_trans)

section \<open>In-place passes\<close>

text \<open>
  The interface of a pass that visits every index once and rewrites the instruction there:
  its body never panics on a well-formed program, and either leaves the state alone or makes
  an improving rewrite and reports it.
\<close>

locale inplace_pass =
  fixes body :: "nat \<Rightarrow> opt_state \<Rightarrow> opt_state option"
  assumes body_sound: "wf_prog p \<Longrightarrow> pc < length p \<Longrightarrow>
    \<exists>q ch'. body pc (p, ch) = Some (q, ch') \<and> (q = p \<and> ch' = ch \<or> improves q p \<and> ch')"
begin

lemma fold_sound:
  assumes "wf_prog p"
  shows "\<exists>q ch. foldm body [0..<length p] (p, False) = Some (q, ch) \<and>
    (q = p \<and> \<not> ch \<or> improves q p \<and> ch)"
proof -
  let ?I = "\<lambda>(q, ch). wf_prog q \<and> length q = length p \<and> (q = p \<and> \<not> ch \<or> improves q p \<and> ch)"
  have "\<exists>t. foldm body [0..<length p] (p, False) = Some t \<and> ?I t"
  proof (rule foldm_invariant[where I = ?I])
    fix pc st
    assume pc: "pc \<in> set [0..<length p]" and I: "?I st"
    obtain q ch where st: "st = (q, ch)" by (cases st)
    with I pc have q: "wf_prog q" "pc < length q" by auto
    from body_sound[OF q, of ch] obtain q' ch' where
      "body pc (q, ch) = Some (q', ch')" "q' = q \<and> ch' = ch \<or> improves q' q \<and> ch'" by blast
    with I st show "\<exists>t. body pc st = Some t \<and> ?I t"
      by (auto simp: improves_def intro: run_equiv_trans opt_order_trans)
  qed (use assms in simp)
  then show ?thesis by auto
qed

end

text \<open>Facts about the jumps of a well-formed program.\<close>

lemma insn_okE:
  assumes "insn_ok i"
  obtains c where "opcode_case (OpCode i) = Some c" "case_ok c (ImmK i)"
  using assms by (auto simp: insn_ok_def split: option.splits)

lemma uncond_case:
  assumes "insn_ok i" "IsUnconditionalJump i"
  shows "opcode_case (OpCode i) = Some CJa"
  using assms by (elim insn_okE) (simp add: IsUnconditionalJump_case)

lemma cond_case:
  assumes "insn_ok i" "IsConditionalJump i"
  obtains cmp src where "opcode_case (OpCode i) = Some (CJcond cmp src)"
  using assms by (elim insn_okE) (auto simp: IsConditionalJump_case)

lemma succs_uncond [simp]: "IsUnconditionalJump i \<Longrightarrow> succs pc i = [pc + unat (ImmK i) + 1]"
  by (simp add: succs_def jump_not_return IsJump_cases)

lemma succs_cond [simp]: "IsConditionalJump i \<Longrightarrow>
   succs pc i = [pc + unat (JumpIfTrue i) + 1, pc + unat (JumpIfFalse i) + 1]"
  by (simp add: succs_def jump_not_return IsJump_cases cond_not_uncond)

lemma exec_step_uncond:
  assumes "insn_ok i" "IsUnconditionalJump i"
  shows "exec_step e inp i m = Next (unat (ImmK i)) m"
  by (simp add: exec_step_def uncond_case[OF assms])

lemma exec_from_uncond:
  assumes "wf_prog p" "pc < length p" "IsUnconditionalJump (p ! pc)"
  shows "exec_from e inp p pc m = exec_from e inp p (pc + unat (ImmK (p ! pc)) + 1) m"
  using assms by (simp add: exec_from_in exec_step_uncond wf_prog_insn_ok)

lemma ret_cases:
  assumes "insn_ok i" "IsReturn i"
  obtains "opcode_case (OpCode i) = Some CRetK" | "opcode_case (OpCode i) = Some CRetA"
  using assms by (elim insn_okE) (auto simp: IsReturn_case)

lemma class_cong:
  assumes "OpCode i = OpCode j"
  shows "IsConditionalJump i \<longleftrightarrow> IsConditionalJump j" "IsUnconditionalJump i \<longleftrightarrow> IsUnconditionalJump j"
    "IsJump i \<longleftrightarrow> IsJump j" "IsReturn i \<longleftrightarrow> IsReturn j" "plain_load i \<longleftrightarrow> plain_load j"
  using assms
  by (simp_all add: IsConditionalJump_def IsUnconditionalJump_def IsJump_def IsReturn_def
      op_class_def plain_load_def)


subsection \<open>Threading conditional jumps\<close>

lemma threaded_offsetD:
  assumes "threaded_offset off t = Some off'"
  shows "IsUnconditionalJump t" "unat off' = unat off + 1 + unat (ImmK t)"
proof -
  have "off' = of_nat (unat off + 1 + unat (ImmK t))" "unat off + 1 + unat (ImmK t) \<le> 255"
    using assms by (auto simp only: threaded_offset_def Let_def split: if_splits)
  then show "unat off' = unat off + 1 + unat (ImmK t)"
    using unat_of_nat_u8[of "unat off + 1 + unat (ImmK t)"] by simp
  show "IsUnconditionalJump t"
    using assms by (auto simp: threaded_offset_def Let_def IsUnconditionalJump_def IsJump_def split: if_splits)
qed

lemma exec_step_cond:
  assumes "opcode_case (OpCode i) = Some (CJcond cmp src)"
  shows "exec_step e inp i m =
    Next (conditionalJumpOffset i (cmp_holds cmp (regA m) (operand_val src i m))) m"
  using assms by (simp add: exec_step_def)

lemma operand_val_cong: "ImmK i = ImmK j \<Longrightarrow> operand_val src i m = operand_val src j m"
  by (cases src) auto

text \<open>
  Rewriting the branches of a conditional jump to targets from which the program runs on in
  the same way, at least one of them further away, improves the program.
\<close>

lemma improves_cond:
  assumes wf: "wf_prog p" and k: "k < length p" and c: "IsConditionalJump (p ! k)"
    and i: "OpCode i = OpCode (p ! k)" "ImmK i = ImmK (p ! k)"
    and tt: "\<And>e inp m. exec_from e inp p (k + unat (JumpIfTrue i) + 1) m =
      exec_from e inp p (k + unat (JumpIfTrue (p ! k)) + 1) m"
    and ff: "\<And>e inp m. exec_from e inp p (k + unat (JumpIfFalse i) + 1) m =
      exec_from e inp p (k + unat (JumpIfFalse (p ! k)) + 1) m"
    and tgt: "\<And>t. t \<in> set (succs k i) \<Longrightarrow> t < length p \<and> (k \<in> sreach p \<longrightarrow> t \<in> sreach p)"
    and dec: "jump_slack (length p) k i < jump_slack (length p) k (p ! k)"
  shows "improves (p[k := i]) p"
proof (rule improves_update[OF wf k])
  have ok: "insn_ok (p ! k)" by (rule wf_prog_insn_ok[OF wf k])
  from cond_case[OF ok c] obtain cmp src where cs: "opcode_case (OpCode (p ! k)) = Some (CJcond cmp src)" .
  show "insn_ok i" "plain_load i" using ok cs i by (simp_all add: insn_ok_def plain_load_def)
  show "exec_with e inp p k i m = exec_with e inp p k (p ! k) m" for e inp m
    using cs i tt ff operand_val_cong[OF i(2), of src m]
    by (simp add: exec_with_def exec_step_cond conditionalJumpOffset_def)
qed (use tgt dec class_cong[OF i(1)] in auto)

lemma uncond_target_sreach:
  assumes "wf_prog p" "k \<in> sreach p" "t \<in> set (succs k (p ! k))" "k < length p" "IsUnconditionalJump (p ! t)"
  shows "t + unat (ImmK (p ! t)) + 1 \<in> sreach p"
proof -
  have t: "t \<in> sreach p" "t < length p"
    using assms by (auto intro: sreach.sreach_step wf_prog_succs)
  show ?thesis by (rule sreach.sreach_step[OF t]) (use assms(5) in simp)
qed

lemma thread_true:
  assumes wf: "wf_prog p" and k: "k < length p" and c: "IsConditionalJump (p ! k)"
    and t: "threaded_offset (JumpIfTrue (p ! k)) (p ! (k + unat (JumpIfTrue (p ! k)) + 1)) = Some off"
  shows "improves (p[k := (p ! k)\<lparr>JumpIfTrue := off\<rparr>]) p"
proof -
  let ?t = "k + unat (JumpIfTrue (p ! k)) + 1"
  note d = threaded_offsetD[OF t]
  have t: "?t < length p" using wf_prog_succs[OF wf k, of ?t] c by simp
  have new: "k + unat off + 1 = ?t + unat (ImmK (p ! ?t)) + 1" using d(2) by simp
  have lt: "?t + unat (ImmK (p ! ?t)) + 1 < length p" using wf_prog_succs[OF wf t] d(1) by simp
  have sel: "JumpIfTrue ((p ! k)\<lparr>JumpIfTrue := off\<rparr>) = off" by simp
  show ?thesis
  proof (rule improves_cond[OF wf k c])
    show "exec_from e inp p (k + unat (JumpIfTrue ((p ! k)\<lparr>JumpIfTrue := off\<rparr>)) + 1) m =
      exec_from e inp p ?t m" for e inp m
      by (simp only: sel new exec_from_uncond[OF wf t d(1)])
    show "jump_slack (length p) k ((p ! k)\<lparr>JumpIfTrue := off\<rparr>) < jump_slack (length p) k (p ! k)"
      using c lt new t class_cong(1,3)[of "(p ! k)\<lparr>JumpIfTrue := off\<rparr>" "p ! k"]
      by (auto simp: jump_slack_def IsJump_cases)
    fix u assume "u \<in> set (succs k ((p ! k)\<lparr>JumpIfTrue := off\<rparr>))"
    then have "u = ?t + unat (ImmK (p ! ?t)) + 1 \<or> u \<in> set (succs k (p ! k))"
      using c new class_cong(1)[of "(p ! k)\<lparr>JumpIfTrue := off\<rparr>" "p ! k"] by auto
    then show "u < length p \<and> (k \<in> sreach p \<longrightarrow> u \<in> sreach p)"
      using lt wf_prog_succs[OF wf k] uncond_target_sreach[OF wf _ _ k d(1)] c
        sreach.sreach_step[OF _ k] by auto
  qed simp_all
qed

lemma thread_false:
  assumes wf: "wf_prog p" and k: "k < length p" and c: "IsConditionalJump (p ! k)"
    and t: "threaded_offset (JumpIfFalse (p ! k)) (p ! (k + unat (JumpIfFalse (p ! k)) + 1)) = Some off"
  shows "improves (p[k := (p ! k)\<lparr>JumpIfFalse := off\<rparr>]) p"
proof -
  let ?t = "k + unat (JumpIfFalse (p ! k)) + 1"
  note d = threaded_offsetD[OF t]
  have t: "?t < length p" using wf_prog_succs[OF wf k, of ?t] c by simp
  have new: "k + unat off + 1 = ?t + unat (ImmK (p ! ?t)) + 1" using d(2) by simp
  have lt: "?t + unat (ImmK (p ! ?t)) + 1 < length p" using wf_prog_succs[OF wf t] d(1) by simp
  have sel: "JumpIfFalse ((p ! k)\<lparr>JumpIfFalse := off\<rparr>) = off" by simp
  show ?thesis
  proof (rule improves_cond[OF wf k c])
    show "exec_from e inp p (k + unat (JumpIfFalse ((p ! k)\<lparr>JumpIfFalse := off\<rparr>)) + 1) m =
      exec_from e inp p ?t m" for e inp m
      by (simp only: sel new exec_from_uncond[OF wf t d(1)])
    show "jump_slack (length p) k ((p ! k)\<lparr>JumpIfFalse := off\<rparr>) < jump_slack (length p) k (p ! k)"
      using c lt new t class_cong(1,3)[of "(p ! k)\<lparr>JumpIfFalse := off\<rparr>" "p ! k"]
      by (auto simp: jump_slack_def IsJump_cases)
    fix u assume "u \<in> set (succs k ((p ! k)\<lparr>JumpIfFalse := off\<rparr>))"
    then have "u = ?t + unat (ImmK (p ! ?t)) + 1 \<or> u \<in> set (succs k (p ! k))"
      using c new class_cong(1)[of "(p ! k)\<lparr>JumpIfFalse := off\<rparr>" "p ! k"] by auto
    then show "u < length p \<and> (k \<in> sreach p \<longrightarrow> u \<in> sreach p)"
      using lt wf_prog_succs[OF wf k] uncond_target_sreach[OF wf _ _ k d(1)] c
        sreach.sreach_step[OF _ k] by auto
  qed simp_all
qed

lemma optimizeConditionalJumps_body_sound:
  assumes wf: "wf_prog p" and k: "k < length p"
  shows "\<exists>q ch'. optimizeConditionalJumps_body k (p, ch) = Some (q, ch') \<and>
    (q = p \<and> ch' = ch \<or> improves q p \<and> ch')"
proof (cases "IsConditionalJump (p ! k)")
  case c: True
  let ?i = "p ! k"
  let ?ti = "p ! (k + unat (JumpIfTrue ?i) + 1)" and ?fi = "p ! (k + unat (JumpIfFalse ?i) + 1)"
  have tb: "k + unat (JumpIfTrue ?i) + 1 < length p" "k + unat (JumpIfFalse ?i) + 1 < length p"
    using wf_prog_succs[OF wf k] c by auto
  define i1 where "i1 = (case threaded_offset (JumpIfTrue ?i) ?ti of Some off \<Rightarrow> ?i\<lparr>JumpIfTrue := off\<rparr> | None \<Rightarrow> ?i)"
  define ch1 where "ch1 = (case threaded_offset (JumpIfTrue ?i) ?ti of Some off \<Rightarrow> True | None \<Rightarrow> ch)"
  define p1 where "p1 = p[k := i1]"
  have 1: "p1 = p \<and> ch1 = ch \<or> improves p1 p \<and> ch1"
    using thread_true[OF wf k c] by (auto simp: p1_def i1_def ch1_def split: option.splits)
  then have wf1: "wf_prog p1" and k1: "k < length p1" using wf k by (auto simp: improves_def)
  have i1: "p1 ! k = i1" "IsConditionalJump i1" "JumpIfFalse i1 = JumpIfFalse ?i" 
    using k c class_cong(1)[of i1 ?i] by (auto simp: p1_def i1_def split: option.splits)
  have fi: "p1 ! (k + unat (JumpIfFalse i1) + 1) = ?fi" using i1(3) by (simp add: p1_def)
  define i2 where "i2 = (case threaded_offset (JumpIfFalse i1) ?fi of Some off \<Rightarrow> i1\<lparr>JumpIfFalse := off\<rparr> | None \<Rightarrow> i1)"
  define ch2 where "ch2 = (case threaded_offset (JumpIfFalse i1) ?fi of Some off \<Rightarrow> True | None \<Rightarrow> ch1)"
  have 2: "p1[k := i2] = p1 \<and> ch2 = ch1 \<or> improves (p1[k := i2]) p1 \<and> ch2"
    using thread_false[OF wf1 k1] i1 fi
    by (auto simp: i2_def ch2_def list_update_same_conv[OF k1] split: option.splits)
  have "optimizeConditionalJumps_body k (p, ch) = Some (p1[k := i2], ch2)"
    using c k tb i1(3)
    by (auto simp: optimizeConditionalJumps_body_def p1_def i1_def ch1_def i2_def ch2_def
        split: option.splits)
  with 1 2 show ?thesis by (auto intro: improves_trans)
qed (use k in \<open>simp add: optimizeConditionalJumps_body_def\<close>)

interpretation cj: inplace_pass optimizeConditionalJumps_body
  by unfold_locales (rule optimizeConditionalJumps_body_sound)

subsection \<open>Conditional jumps with one target\<close>

lemma insn_ok_Ja [simp]: "insn_ok (Jump bpf_Jmp k 0 0)"
  and plain_load_Ja [simp]: "plain_load (Jump bpf_Jmp k 0 0)"
  and IsUnconditionalJump_Ja [simp]: "IsUnconditionalJump (Jump bpf_Jmp k 0 0)"
  by (simp_all add: insn_ok_def opcode_case_def opcode_table_eval plain_load_def Jump_def
      IsUnconditionalJump_def IsJump_def op_class_def)

lemma not_IsConditionalJump_Ja [simp]: "\<not> IsConditionalJump (Jump bpf_Jmp k 0 0)"
  by (simp add: Jump_def IsConditionalJump_def)

lemma ImmK_Jump [simp]: "ImmK (Jump c k jt jf) = k"
  by (simp add: Jump_def)

lemma unat_ucast_u8 [simp]: "unat (ucast (x :: u8) :: u32) = unat x"
  using unat_u8_less[of x] by (simp only: unsigned_ucast_eq) (simp add: take_bit_nat_eq_self_iff less_trans[OF unat_u8_less])

lemma optimizeSameTargetConditionalJumps_body_sound:
  assumes wf: "wf_prog p" and k: "k < length p"
  shows "\<exists>q ch'. optimizeSameTargetConditionalJumps_body k (p, ch) = Some (q, ch') \<and>
    (q = p \<and> ch' = ch \<or> improves q p \<and> ch')"
proof (cases "IsConditionalJump (p ! k) \<and> JumpIfTrue (p ! k) = JumpIfFalse (p ! k)")
  case True
  let ?i = "p ! k" and ?j = "Jump (bpf_Jmp OR bpf_Ja) (ucast (JumpIfTrue (p ! k))) 0 0"
  from True have c: "IsConditionalJump ?i" and eq: "JumpIfFalse ?i = JumpIfTrue ?i" by auto
  have ok: "insn_ok ?i" by (rule wf_prog_insn_ok[OF wf k])
  from cond_case[OF ok c] obtain cmp src where cs: "opcode_case (OpCode ?i) = Some (CJcond cmp src)" .
  have s: "succs k ?j = [k + unat (JumpIfTrue ?i) + 1]" by simp
  have "improves (p[k := ?j]) p"
  proof (rule improves_update[OF wf k])
    show "exec_with e inp p k ?j m = exec_with e inp p k ?i m" for e inp m
      using eq exec_step_uncond[of ?j e inp m]
      by (simp add: exec_with_def exec_step_cond[OF cs] conditionalJumpOffset_def)
    show "t < length p \<and> (k \<in> sreach p \<longrightarrow> t \<in> sreach p)" if "t \<in> set (succs k ?j)" for t
      using that c wf_prog_succs[OF wf k] sreach.sreach_step[OF _ k] by (auto simp: s)
  qed (use c in simp_all)
  moreover have "optimizeSameTargetConditionalJumps_body k (p, ch) = Some (p[k := ?j], True)"
    using True k by (simp add: optimizeSameTargetConditionalJumps_body_def)
  ultimately show ?thesis by blast
qed (use k in \<open>auto simp: optimizeSameTargetConditionalJumps_body_def\<close>)

interpretation stcj: inplace_pass optimizeSameTargetConditionalJumps_body
  by unfold_locales (rule optimizeSameTargetConditionalJumps_body_sound)

subsection \<open>Threading unconditional jumps\<close>

lemma optimizeUnconditionalJumps_body_sound:
  assumes wf: "wf_prog p" and k: "k < length p"
  shows "\<exists>q ch'. optimizeUnconditionalJumps_body k (p, ch) = Some (q, ch') \<and>
    (q = p \<and> ch' = ch \<or> improves q p \<and> ch')"
proof (cases "IsUnconditionalJump (p ! k)")
  case u: True
  define t where "t = k + unat (ImmK (p ! k)) + 1"
  define final where "final = unat (ImmK (p ! k)) + 1 + unat (ImmK (p ! t))"
  have t: "t < length p" by (rule wf_prog_succs[OF wf k]) (simp add: u t_def)
  have ok: "insn_ok (p ! k)" by (rule wf_prog_insn_ok[OF wf k])
  have body: "optimizeUnconditionalJumps_body k (p, ch) =
      (if \<not> IsUnconditionalJump (p ! t) then Some (p, ch)
       else if final > maxUnconditionalJumpOffset then Some (p, ch)
       else Some (p[k := (p ! k)\<lparr>ImmK := of_nat final\<rparr>], True))"
    using k u t unfolding optimizeUnconditionalJumps_body_def final_def t_def
    by (simp only: prod.case slice_get_in bind.simps if_True if_False Let_def not_True_eq_False)
  show ?thesis
  proof (cases "IsUnconditionalJump (p ! t) \<and> final \<le> maxUnconditionalJumpOffset")
    case True
    then have ut: "IsUnconditionalJump (p ! t)" by simp
    define w :: u32 where "w = of_nat final"
    let ?j = "(p ! k)\<lparr>ImmK := w\<rparr>"
    have K: "unat (ImmK ?j) = final" using True unat_of_nat_u32[of final] by (simp add: w_def)
    have new: "k + unat (ImmK ?j) + 1 = t + unat (ImmK (p ! t)) + 1" unfolding K final_def t_def by simp
    have lt: "t + unat (ImmK (p ! t)) + 1 < length p" by (rule wf_prog_succs[OF wf t]) (simp add: ut)
    have oc: "OpCode ?j = OpCode (p ! k)" by simp
    have uj: "IsUnconditionalJump ?j" using u class_cong(2)[OF oc] by simp
    have okj: "insn_ok ?j" and pj: "plain_load ?j"
      using uncond_case[OF ok u] by (simp_all add: insn_ok_def plain_load_def)
    have "improves (p[k := ?j]) p"
    proof (rule improves_update[OF wf k okj pj])
      show "exec_with e inp p k ?j m = exec_with e inp p k (p ! k) m" for e inp m
        unfolding exec_with_def exec_step_uncond[OF okj uj] exec_step_uncond[OF ok u] step_result.case
        by (simp only: new exec_from_uncond[OF wf t ut] flip: t_def)
      show "v < length p \<and> (k \<in> sreach p \<longrightarrow> v \<in> sreach p)" if "v \<in> set (succs k ?j)" for v
        using that lt uncond_target_sreach[OF wf _ _ k ut] u unfolding succs_uncond[OF uj] new
        by (simp add: t_def)
      have "jump_slack (length p) k ?j < jump_slack (length p) k (p ! k)"
        using u uj lt t unfolding jump_slack_def succs_uncond[OF uj] succs_uncond[OF u] new t_def[symmetric]
        by (simp add: IsJump_cases)
      then show "IsConditionalJump (p ! k) \<and> \<not> IsConditionalJump ?j \<or>
        (IsConditionalJump ?j \<longleftrightarrow> IsConditionalJump (p ! k)) \<and> (IsJump (p ! k) \<and> \<not> IsJump ?j \<or>
         (IsJump ?j \<longleftrightarrow> IsJump (p ! k)) \<and> jump_slack (length p) k ?j < jump_slack (length p) k (p ! k))"
        using class_cong[OF oc] by blast
    qed
    moreover have "optimizeUnconditionalJumps_body k (p, ch) = Some (p[k := ?j], True)"
      using True unfolding body w_def by (simp only: not_le[symmetric] not_True_eq_False if_False)
    ultimately show ?thesis by blast
  next
    case False
    then have "optimizeUnconditionalJumps_body k (p, ch) = Some (p, ch)"
      unfolding body by (auto simp only: not_le split: if_split)
    then show ?thesis by blast
  qed
qed (use k in \<open>simp add: optimizeUnconditionalJumps_body_def\<close>)

interpretation uj: inplace_pass optimizeUnconditionalJumps_body
  by unfold_locales (rule optimizeUnconditionalJumps_body_sound)

subsection \<open>Jumps to returns\<close>

lemma exec_step_ret_cases:
  assumes "insn_ok i" "IsReturn i"
  obtains v where "exec_step e inp i m = Halt v"
  using assms by (elim ret_cases) (auto simp: exec_step_def)

lemma succs_ret [simp]: "IsReturn i \<Longrightarrow> succs pc i = []"
  by (simp add: succs_def)

lemma optimizeJumpsToReturn_body_sound:
  assumes wf: "wf_prog p" and k: "k < length p"
  shows "\<exists>q ch'. optimizeJumpsToReturn_body k (p, ch) = Some (q, ch') \<and>
    (q = p \<and> ch' = ch \<or> improves q p \<and> ch')"
proof (cases "IsUnconditionalJump (p ! k)")
  case u: True
  define t where "t = k + unat (ImmK (p ! k)) + 1"
  have t: "t < length p" by (rule wf_prog_succs[OF wf k]) (simp add: u t_def)
  show ?thesis
  proof (cases "IsReturn (p ! t)")
    case True
    have okt: "insn_ok (p ! t)" by (rule wf_prog_insn_ok[OF wf t])
    have nj: "\<not> IsJump (p ! t)" using True jump_not_return by blast
    have "improves (p[k := p ! t]) p"
    proof (rule improves_update[OF wf k okt])
      show "plain_load (p ! t)" by (rule ret_cases[OF okt True]) (simp_all add: plain_load_def)
      show "exec_with e inp p k (p ! t) m = exec_with e inp p k (p ! k) m" for e inp m
      proof -
        obtain v where v: "exec_step e inp (p ! t) m = Halt v" using exec_step_ret_cases[OF okt True] .
        have "exec_with e inp p k (p ! k) m = exec_from e inp p t m"
          by (simp add: exec_with_def exec_step_uncond[OF wf_prog_insn_ok[OF wf k] u] t_def)
        then show ?thesis by (simp add: exec_from_in[OF t] exec_with_def v)
      qed
      show "u < length p \<and> (k \<in> sreach p \<longrightarrow> u \<in> sreach p)" if "u \<in> set (succs k (p ! t))" for u
        using that True by simp
      show "IsConditionalJump (p ! k) \<and> \<not> IsConditionalJump (p ! t) \<or>
        (IsConditionalJump (p ! t) \<longleftrightarrow> IsConditionalJump (p ! k)) \<and> (IsJump (p ! k) \<and> \<not> IsJump (p ! t) \<or>
         (IsJump (p ! t) \<longleftrightarrow> IsJump (p ! k)) \<and>
          jump_slack (length p) k (p ! t) < jump_slack (length p) k (p ! k))"
        using u nj unfolding IsJump_cases by blast
    qed
    moreover have "optimizeJumpsToReturn_body k (p, ch) = Some (p[k := p ! t], True)"
      using u t k True by (simp add: optimizeJumpsToReturn_body_def IsReturn_def t_def)
    ultimately show ?thesis by blast
  qed (use k u t in \<open>simp add: optimizeJumpsToReturn_body_def IsReturn_def t_def\<close>)
qed (use k in \<open>simp add: optimizeJumpsToReturn_body_def\<close>)

interpretation jtr: inplace_pass optimizeJumpsToReturn_body
  by unfold_locales (rule optimizeJumpsToReturn_body_sound)

end
