(* ===== verification/Bpf_Opt_Removal.thy ===== *)
theory Bpf_Opt_Removal
  imports Bpf_Opt_Inplace
begin

text \<open>
  Correctness of the optimiser, part two: the passes of \<^verbatim>\<open>pkg/bpf/optimizer.go\<close> that
  delete instructions through \<open>codeRemoval\<close> (jumps over nothing, dead code, redundant
  loads), and \<open>opt_pass\<close>, the contract that every pass meets.  Deleting one instruction that
  does nothing in any run, with the jumps across it shortened, gives a program that returns
  the same values; a pass is a sequence of such deletions from the end of the program.
\<close>

section \<open>Definitions\<close>

text \<open>Where an index goes when the instruction at \<open>r\<close> is deleted.\<close>

definition sh :: "nat \<Rightarrow> nat \<Rightarrow> nat" where
  "sh r t = (if r < t then t - 1 else t)"

text \<open>The program without the instruction at \<open>r\<close>, jumps adjusted.\<close>

definition cut_insn :: "nat \<Rightarrow> insn list \<Rightarrow> insn list" where
  "cut_insn r p = decrementJumps (slice_remove p r) r"

text \<open>The machine states in which a run visits each index.\<close>

inductive reach :: "Endianness \<Rightarrow> Input \<Rightarrow> insn list \<Rightarrow> nat \<Rightarrow> machine \<Rightarrow> bool" for e inp p where
  reach_start: "reach e inp p 0 init_machine"
| reach_step: "reach e inp p pc m \<Longrightarrow> pc < length p \<Longrightarrow> exec_step e inp (p ! pc) m = Next d m' \<Longrightarrow>
    reach e inp p (pc + d + 1) m'"

text \<open>An instruction that does nothing in every run.\<close>

definition skips :: "insn list \<Rightarrow> nat \<Rightarrow> bool" where
  "skips p r \<longleftrightarrow> (\<forall>e inp m. reach e inp p r m \<longrightarrow> exec_step e inp (p ! r) m = Next 0 m)"

definition all_ok :: "insn list \<Rightarrow> bool" where
  "all_ok p \<longleftrightarrow> (\<forall>pc < length p. insn_ok (p ! pc))"

definition shift_step :: "nat \<Rightarrow> nat \<Rightarrow> step_result \<Rightarrow> step_result" where
  "shift_step r pc s = (case s of Next d m \<Rightarrow> Next (sh r (pc + d + 1) - sh r pc - 1) m | _ \<Rightarrow> s)"

text \<open>
  What a pass keeps of a program: runs return the same, as long as no load is relative to X
  or from scratch memory.
\<close>

definition kept :: "insn list \<Rightarrow> insn list \<Rightarrow> bool" where
  "kept q p \<longleftrightarrow> (plain_loads p \<longrightarrow> plain_loads q \<and> obs_equiv q p)"

text \<open>
  The contract of an optimiser pass, under a precondition on the program: it does not panic,
  and unless it leaves the program alone it keeps it well formed, keeps what its runs return
  is no longer than before, and goes down in the termination order.
\<close>

definition pass_ok :: "insn list \<Rightarrow> opt_state option \<Rightarrow> bool" where
  "pass_ok p res \<longleftrightarrow> (\<exists>q ch. res = Some (q, ch) \<and>
     (q = p \<and> \<not> ch \<or>
      ch \<and> wf_prog q \<and> kept q p \<and> length q \<le> length p \<and>
        (q, p) \<in> opt_order))"

text \<open>The state of the worklist: marked indexes and cursors are reachable, and closed under successors.\<close>

definition worklist_inv :: "insn list \<Rightarrow> bool list \<Rightarrow> nat list \<Rightarrow> bool" where
  "worklist_inv p reachable cs \<longleftrightarrow>
     length reachable = length p \<and> set cs \<subseteq> sreach p \<and>
     (\<forall>i < length p. reachable ! i \<longrightarrow> i \<in> sreach p) \<and>
     (\<forall>i < length p. reachable ! i \<longrightarrow> (\<forall>t \<in> set (succs i (p ! i)). t \<in> set cs \<or> reachable ! t)) \<and>
     (0 \<in> set cs \<or> reachable ! 0)"

definition all_reachable :: "insn list \<Rightarrow> bool" where
  "all_reachable p \<longleftrightarrow> sreach p = {..<length p}"

definition walk_ok :: "insn list \<Rightarrow> nat list list \<Rightarrow> bool" where
  "walk_ok p walk \<longleftrightarrow> length walk = length p \<and>
     (\<forall>t < length p. set (walk ! t) = {pc. pc < length p \<and> t \<in> set (succs pc (p ! pc))})"

section \<open>Deleting one instruction\<close>

lemma sh_simps [simp]: "r < t \<Longrightarrow> sh r t = t - 1" "t \<le> r \<Longrightarrow> sh r t = t" "sh r (Suc r) = r"
  by (simp_all add: sh_def)

lemma sh_inj: "sh r s = sh r t \<Longrightarrow> s \<noteq> r \<Longrightarrow> t \<noteq> r \<Longrightarrow> s = t"
  by (auto simp: sh_def split: if_splits)

lemma sh_bound: "t < n \<Longrightarrow> t \<noteq> r \<Longrightarrow> r < n \<Longrightarrow> sh r t < n - 1"
  by (auto simp: sh_def)

lemma OpCode_decrement [simp]: "OpCode (decrement_insn r pc i) = OpCode i"
  by (simp add: decrement_insn_def Let_def)

lemma ImmK_decrement [simp]: "\<not> IsUnconditionalJump i \<Longrightarrow> ImmK (decrement_insn r pc i) = ImmK i"
  by (simp add: decrement_insn_def Let_def)

lemma insn_ok_decrement: "insn_ok i \<Longrightarrow> insn_ok (decrement_insn r pc i)"
proof (cases "IsUnconditionalJump i")
  case True
  then show "insn_ok i \<Longrightarrow> insn_ok (decrement_insn r pc i)"
    using uncond_case[of i] by (auto simp: insn_ok_def)
qed (auto simp: insn_ok_def split: option.splits)

lemma unat_dec: "0 < unat (x :: 'a::len word) \<Longrightarrow> unat (x - 1) = unat x - 1"
  by (rule unat_minus_one_pos)

lemma decrement_uncond:
  assumes "IsUnconditionalJump i" "pc < r"
  shows "pc + unat (ImmK (decrement_insn r pc i)) + 1 = sh r (pc + unat (ImmK i) + 1)"
  using assms by (auto simp: decrement_insn_def IsJump_cases sh_def unat_dec)

lemma decrement_cond:
  assumes "IsConditionalJump i" "pc < r"
  shows "pc + unat (JumpIfTrue (decrement_insn r pc i)) + 1 = sh r (pc + unat (JumpIfTrue i) + 1)"
    and "pc + unat (JumpIfFalse (decrement_insn r pc i)) + 1 = sh r (pc + unat (JumpIfFalse i) + 1)"
  using assms by (auto simp: decrement_insn_def IsJump_cases cond_not_uncond sh_def unat_dec Let_def)

lemma succs_decrement:
  assumes "pc < r"
  shows "succs pc (decrement_insn r pc i) = map (sh r) (succs pc i)"
proof -
  note cc = class_cong[OF OpCode_decrement[of r pc i]]
  consider "IsUnconditionalJump i" | "IsConditionalJump i" | "IsReturn i" | "\<not> IsJump i" "\<not> IsReturn i"
    by (auto simp: IsJump_cases)
  then show ?thesis
  proof cases
    case 1
    then show ?thesis using decrement_uncond[OF 1 assms] cc by simp
  next
    case 2
    then show ?thesis using decrement_cond[OF 2 assms] cc by simp
  next
    case 4
    then have "\<not> IsUnconditionalJump i" "\<not> IsConditionalJump i" by (auto simp: IsJump_cases)
    with 4 assms cc show ?thesis by (simp add: succs_def)
  qed (use assms cc in \<open>simp add: succs_def\<close>)
qed

lemma length_cut [simp]: "r < length p \<Longrightarrow> length (cut_insn r p) = length p - 1"
  by (simp add: cut_insn_def decrementJumps_def)

lemma cut_nth:
  assumes "r < length p" "k < length p - 1"
  shows "cut_insn r p ! k = (if k < r then decrement_insn r k (p ! k) else p ! Suc k)"
  using assms by (simp add: cut_insn_def decrementJumps_def nth_slice_remove)

lemma remove_at_cut: "r < length p \<Longrightarrow> remove_at r p = Some (cut_insn r p)"
  by (simp add: remove_at_def cut_insn_def)

lemma cut_at:
  assumes "r < length p" "pc < length p" "pc \<noteq> r"
  shows "cut_insn r p ! sh r pc = (if pc < r then decrement_insn r pc (p ! pc) else p ! pc)"
    and "sh r pc < length (cut_insn r p)"
  using assms by (auto simp: cut_nth sh_bound) (auto simp: sh_def)

lemma cut_ex:
  assumes "r < length p" "k < length (cut_insn r p)"
  obtains pc where "pc < length p" "pc \<noteq> r" "sh r pc = k"
proof (cases "k < r")
  case True
  then show ?thesis using that[of k] assms by simp
next
  case False
  then show ?thesis using that[of "Suc k"] assms by simp
qed

lemma cut_succs:
  assumes "r < length p" "pc < length p" "pc \<noteq> r"
  shows "succs (sh r pc) (cut_insn r p ! sh r pc) = map (sh r) (succs pc (p ! pc))"
proof (cases "pc < r")
  case True
  then show ?thesis using cut_at(1)[OF assms] by (simp add: succs_decrement)
next
  case False
  then obtain k where pc: "pc = Suc k" "r \<le> k" using assms by (cases pc) auto
  have "map (sh r) (succs pc i) = succs k i" for i
    using pc by (simp add: succs_def)
  then show ?thesis using pc assms cut_at(1)[OF assms] by simp
qed

lemma cut_plain_loads: "r < length p \<Longrightarrow> plain_loads p \<Longrightarrow> plain_loads (cut_insn r p)"
  using class_cong(5)[OF OpCode_decrement]
  by (auto simp: plain_loads_def list_all_length cut_nth)

lemma cut_all_ok: "r < length p \<Longrightarrow> all_ok p \<Longrightarrow> all_ok (cut_insn r p)"
  by (auto simp: all_ok_def cut_nth insn_ok_decrement)

subsection \<open>Static reachability\<close>

lemma sreach_cut:
  assumes r: "r < length p" and s: "r \<notin> sreach p \<or> succs r (p ! r) = [Suc r]"
    and t: "t \<in> sreach (cut_insn r p)"
  shows "\<exists>pc \<in> sreach p. pc \<noteq> r \<and> sh r pc = t"
proof -
  have fix_up: "\<exists>pc \<in> sreach p. pc \<noteq> r \<and> sh r pc = sh r u" if "u \<in> sreach p" for u
  proof (cases "u = r")
    case True
    then have "Suc r \<in> sreach p" using s that r by (auto intro: sreach.sreach_step)
    then show ?thesis using True by (intro bexI[of _ "Suc r"]) auto
  qed (use that in auto)
  from t show ?thesis
  proof induction
    case sreach_start
    show ?case using fix_up[OF sreach.sreach_start] by simp
  next
    case (sreach_step k t)
    then obtain pc where pc: "pc \<in> sreach p" "pc \<noteq> r" "k = sh r pc" by blast
    have "pc < length p" using sreach_step(2) pc r by (auto simp: sh_def split: if_splits)
    moreover then obtain u where "u \<in> set (succs pc (p ! pc))" "t = sh r u"
      using sreach_step(3) pc r by (auto simp: cut_succs)
    ultimately show ?case using fix_up[of u] pc by (auto intro: sreach.sreach_step)
  qed
qed

lemma nreach_cut:
  assumes "r < length p" "r \<notin> sreach p \<or> succs r (p ! r) = [Suc r]" "finite (sreach p)"
  shows "nreach (cut_insn r p) \<le> nreach p"
proof -
  have "sreach (cut_insn r p) \<subseteq> sh r ` sreach p" using sreach_cut[OF assms(1,2)] by blast
  then show ?thesis unfolding nreach_def
    by (meson assms(3) card_image_le card_mono finite_imageI le_trans)
qed

lemma sreach_cut_dead:
  assumes r: "r < length p" "r \<notin> sreach p" and b: "sreach p \<subseteq> {..<length p}"
  shows "sreach (cut_insn r p) = sh r ` sreach p"
proof
  show "sreach (cut_insn r p) \<subseteq> sh r ` sreach p" using sreach_cut[OF r(1)] r(2) by blast
  have "sh r pc \<in> sreach (cut_insn r p)" if "pc \<in> sreach p" for pc
    using that
  proof induction
    case sreach_start
    show ?case by (simp add: sreach.sreach_start)
  next
    case (sreach_step pc t)
    have ne: "pc \<noteq> r" using sreach_step r by blast
    show ?case
      by (rule sreach.sreach_step[OF sreach_step(4) cut_at(2)[OF r(1) sreach_step(2) ne]])
        (use sreach_step(3) in \<open>simp add: cut_succs[OF r(1) sreach_step(2) ne]\<close>)
  qed
  then show "sh r ` sreach p \<subseteq> sreach (cut_insn r p)" by blast
qed

subsection \<open>Runs\<close>

lemma exec_alu_Next: "exec_alu alu src v m = Next d m' \<Longrightarrow> d = 0"
  by (cases alu) (auto split: if_splits)

lemma exec_step_nonjump:
  assumes "insn_ok i" "\<not> IsJump i" "exec_step e inp i m = Next d m'"
  shows "d = 0"
proof -
  obtain c where c: "opcode_case (OpCode i) = Some c" using assms(1) by (rule insn_okE)
  have "c \<noteq> CJa" "\<And>cmp src. c \<noteq> CJcond cmp src"
    using assms(2) IsUnconditionalJump_case[OF c] IsConditionalJump_case[OF c] by (auto simp: IsJump_cases)
  with assms(3) c show ?thesis
    by (cases c)
       (auto simp: exec_step_def load_into_A_def dest: exec_alu_Next split: option.splits if_splits)
qed

lemma exec_step_decrement:
  assumes ok: "insn_ok i" and pc: "pc < r"
  shows "exec_step e inp (decrement_insn r pc i) m = shift_step r pc (exec_step e inp i m)"
proof -
  let ?j = "decrement_insn r pc i"
  note cc = class_cong[OF OpCode_decrement[of r pc i]]
  have okj: "insn_ok ?j" by (rule insn_ok_decrement[OF ok])
  consider "IsUnconditionalJump i" | "IsConditionalJump i" | "\<not> IsJump i" by (auto simp: IsJump_cases)
  then show ?thesis
  proof cases
    case 1
    then have "unat (ImmK ?j) = sh r (pc + unat (ImmK i) + 1) - pc - 1"
      using decrement_uncond[OF 1 pc] by simp
    then show ?thesis
      using pc 1 cc by (simp add: exec_step_uncond[OF ok 1] exec_step_uncond[OF okj] shift_step_def)
  next
    case 2
    from cond_case[OF ok 2] obtain cmp src where cs: "opcode_case (OpCode i) = Some (CJcond cmp src)" .
    then have cj: "opcode_case (OpCode ?j) = Some (CJcond cmp src)" by simp
    have "unat (JumpIfTrue ?j) = sh r (pc + unat (JumpIfTrue i) + 1) - pc - 1"
      "unat (JumpIfFalse ?j) = sh r (pc + unat (JumpIfFalse i) + 1) - pc - 1"
      using decrement_cond[OF 2 pc] by simp_all
    moreover have "operand_val src ?j m = operand_val src i m"
      by (rule operand_val_cong) (simp add: cond_not_uncond[OF 2])
    ultimately show ?thesis
      using pc by (simp add: exec_step_cond[OF cs] exec_step_cond[OF cj] shift_step_def conditionalJumpOffset_def)
  next
    case 3
    then have "?j = i" by (simp add: decrement_insn_def)
    with exec_step_nonjump[OF ok 3, of e inp m] pc show ?thesis
      by (cases "exec_step e inp i m") (simp_all add: shift_step_def)
  qed
qed

lemma exec_step_cut:
  assumes ok: "all_ok p" and r: "r < length p" "pc < length p" "pc \<noteq> r"
  shows "exec_step e inp (cut_insn r p ! sh r pc) m = shift_step r pc (exec_step e inp (p ! pc) m)"
proof (cases "pc < r")
  case True
  with ok r have "insn_ok (p ! pc)" by (simp add: all_ok_def)
  from exec_step_decrement[OF this True] True show ?thesis using cut_at(1)[OF r] by simp
next
  case False
  then show ?thesis using cut_at(1)[OF r] r
    by (cases "exec_step e inp (p ! pc) m") (simp_all add: shift_step_def)
qed

lemma sh_next: "pc \<noteq> r \<Longrightarrow> sh r pc + (sh r (pc + d + 1) - sh r pc - 1) + 1 = sh r (pc + d + 1)"
  by (auto simp: sh_def)

text \<open>A run of the shorter program visits the same states.\<close>

lemma reach_cut:
  assumes ok: "all_ok p" and r: "r < length p" and sk: "skips p r"
    and k: "reach e inp (cut_insn r p) k m"
  shows "\<exists>pc. pc \<noteq> r \<and> reach e inp p pc m \<and> sh r pc = k"
proof -
  have fix_up: "\<exists>pc. pc \<noteq> r \<and> reach e inp p pc m \<and> sh r pc = sh r u" if "reach e inp p u m" for u m
  proof (cases "u = r")
    case True
    with that sk have "exec_step e inp (p ! r) m = Next 0 m" by (simp add: skips_def)
    from reach.reach_step[OF _ r this] that True have "reach e inp p (Suc r) m" by simp
    with True show ?thesis by (intro exI[of _ "Suc r"]) simp
  qed (use that in auto)
  from k show ?thesis
  proof induction
    case reach_start
    show ?case using fix_up[OF reach.reach_start] by simp
  next
    case (reach_step k m d m')
    then obtain pc where pc: "pc \<noteq> r" "reach e inp p pc m" "sh r pc = k" by blast
    have lt: "pc < length p" using reach_step(2) pc r by (auto simp: sh_def split: if_splits)
    from reach_step(3) pc obtain d' where
      d': "exec_step e inp (p ! pc) m = Next d' m'" "d = sh r (pc + d' + 1) - sh r pc - 1"
      by (auto simp: exec_step_cut[OF ok r lt pc(1), unfolded pc(3)] shift_step_def split: step_result.splits)
    from reach.reach_step[OF pc(2) lt d'(1)] have "reach e inp p (pc + d' + 1) m'" .
    moreover have "k + d + 1 = sh r (pc + d' + 1)" using sh_next[OF pc(1)] d'(2) pc(3) by simp
    ultimately show ?case using fix_up by metis
  qed
qed

lemma observe_simps [simp]: "observe None = None" "observe (Some (Inr v)) = Some (Inr v)"
  "observe (Some (Inl (bpf_err c pc))) = Some (Inl c)"
  by (simp_all add: observe_def bpf_err_def)

lemma exec_from_cut:
  assumes "all_ok p" "r < length p" "skips p r" "reach e inp p pc m"
  shows "observe (exec_from e inp (cut_insn r p) (sh r pc) m) = observe (exec_from e inp p pc m)"
  using assms
proof (induction e inp p pc m rule: exec_from.induct)
  case (1 e inp p pc m)
  show ?case
  proof (cases "pc < length p")
    case out: False
    with 1(3) have "length (cut_insn r p) \<le> sh r pc" by simp
    with out show ?thesis by (simp add: exec_from_out)
  next
    case lt: True
    have IH: "observe (exec_from e inp (cut_insn r p) (sh r (pc + d + 1)) m') =
        observe (exec_from e inp p (pc + d + 1) m')" if "exec_step e inp (p ! pc) m = Next d m'" for d m'
      using 1(1)[OF lt that 1(2,3,4)] reach.reach_step[OF 1(5) lt that] by blast
    show ?thesis
    proof (cases "pc = r")
      case True
      with 1 have n: "exec_step e inp (p ! pc) m = Next 0 m" by (simp add: skips_def)
      from IH[OF n] True n show ?thesis by (simp add: exec_from_in[OF 1(3)])
    next
      case False
      note st = exec_step_cut[OF 1(2,3) lt False, of e inp m]
      have lt': "sh r pc < length (cut_insn r p)" by (rule cut_at(2)[OF 1(3) lt False])
      show ?thesis
      proof (cases "exec_step e inp (p ! pc) m")
        case (Next d m')
        with IH[OF Next] show ?thesis
          unfolding exec_from_in[OF lt] exec_from_in[OF lt'] st
          by (simp only: shift_step_def step_result.case sh_next[OF False])
      qed (simp_all add: exec_from_in[OF lt] exec_from_in[OF lt'] st shift_step_def)
    qed
  qed
qed

lemma cut_obs_equiv:
  assumes "all_ok p" "r < length p" "skips p r"
  shows "obs_equiv (cut_insn r p) p"
  unfolding obs_equiv_def using exec_from_cut[OF assms reach.reach_start] by simp

lemma cut_skips:
  assumes ok: "all_ok p" and r: "r < length p" and sk: "skips p r" and k: "k < r" "skips p k"
  shows "skips (cut_insn r p) k"
  unfolding skips_def
proof (intro allI impI)
  fix e inp m assume "reach e inp (cut_insn r p) k m"
  from reach_cut[OF ok r sk this] obtain pc where pc: "pc \<noteq> r" "reach e inp p pc m" "sh r pc = k" by blast
  then have "pc = k" using k by (auto simp: sh_def split: if_splits)
  with pc k have "exec_step e inp (p ! k) m = Next 0 m" by (simp add: skips_def)
  moreover have "sh r k = k" using k by simp
  ultimately show "exec_step e inp (cut_insn r p ! k) m = Next 0 m"
    using exec_step_cut[OF ok r, of k e inp m] k r by (simp add: shift_step_def)
qed

section \<open>Deleting a list of instructions\<close>

locale opt_pass =
  fixes pre :: "insn list \<Rightarrow> bool" and pass :: optimizerFunc
  assumes pass_sound: "wf_prog p \<Longrightarrow> pre p \<Longrightarrow> pass_ok p (pass p)"

begin

lemma pass_cases:
  assumes "wf_prog p" "pre p"
  obtains "pass p = Some (p, False)"
    | q where "pass p = Some (q, True)" "wf_prog q" "kept q p" "length q \<le> length p"
        "(q, p) \<in> opt_order"
  using pass_sound[OF assms] by (auto simp: pass_ok_def)

end

context inplace_pass

begin

lemma inplace_pass_ok:
  assumes "wf_prog p"
  shows "pass_ok p (foldm body [0..<length p] (p, False))"
  using fold_sound[OF assms]
  by (auto simp: pass_ok_def kept_def improves_def run_equiv_obs)

end

interpretation pass_cj: opt_pass "\<lambda>_. True" optimizeConditionalJumps
  by unfold_locales (simp add: optimizeConditionalJumps_def cj.inplace_pass_ok)

interpretation pass_stcj: opt_pass "\<lambda>_. True" optimizeSameTargetConditionalJumps
  by unfold_locales (simp add: optimizeSameTargetConditionalJumps_def stcj.inplace_pass_ok)

interpretation pass_uj: opt_pass "\<lambda>_. True" optimizeUnconditionalJumps
  by unfold_locales (simp add: optimizeUnconditionalJumps_def uj.inplace_pass_ok)

interpretation pass_jtr: opt_pass "\<lambda>_. True" optimizeJumpsToReturn
  by unfold_locales (simp add: optimizeJumpsToReturn_def jtr.inplace_pass_ok)

lemma fold_MarkRemoved:
  "fold (\<lambda>pc cr. if P pc then MarkRemoved pc cr else cr) xs cr =
     cr\<lparr>cr_toRemove := cr_toRemove cr @ filter P xs\<rparr>"
  by (induction xs arbitrary: cr) (auto simp: MarkRemoved_def)

lemma remove_where_eq:
  "remove_where P p =
     (let rs = filter P [0..<length p] in
      if rs = [] then Some (p, False) else map_option (\<lambda>q. (q, True)) (foldm remove_at (rev rs) p))"
proof -
  have "sort (filter P [0..<n]) = filter P [0..<n]" for n
    by (rule sorted_sort_id) (simp add: sorted_wrt_filter)
  then show ?thesis
    by (simp add: remove_where_def fold_MarkRemoved Apply_def Let_def map_option_case split: option.split)
qed

text \<open>A decreasing list of indexes.\<close>

lemma decreasing_filter: "sorted_wrt (>) (rev (filter P [0..<n]))"
  by (simp add: sorted_wrt_rev sorted_wrt_filter)

lemma wf_prog_all_ok: "wf_prog p \<Longrightarrow> all_ok p"
  by (simp add: all_ok_def wf_prog_insn_ok)

lemma cut_wf:
  assumes wf: "wf_prog p" and r: "Suc r < length p"
  shows "wf_prog (cut_insn r p)"
proof -
  have r': "r < length p" using r by simp
  have "wf_insn (length (cut_insn r p)) k (cut_insn r p ! k)" if k: "k < length (cut_insn r p)" for k
  proof -
    obtain pc where pc: "pc < length p" "pc \<noteq> r" "sh r pc = k" by (rule cut_ex[OF r' k])
    have "t < length p" if "t \<in> set (succs pc (p ! pc))" for t
      using wf_prog_succs[OF wf pc(1) that] .
    moreover have "sh r t < length p - 1" if "t < length p" for t
      using that r by (auto simp: sh_def)
    ultimately have "list_all (\<lambda>t. t < length (cut_insn r p)) (succs k (cut_insn r p ! k))"
      using cut_succs[OF r' pc(1,2)] pc(3) r' by (auto simp: list_all_iff)
    moreover have "insn_ok (cut_insn r p ! k)"
      using cut_all_ok[OF r' wf_prog_all_ok[OF wf]] k by (simp add: all_ok_def)
    ultimately show ?thesis by (simp add: wf_insn_def)
  qed
  moreover have "cut_insn r p \<noteq> []" using r by (auto simp flip: length_greater_0_conv)
  ultimately show ?thesis by (simp add: wf_prog_def)
qed

text \<open>Deleting instructions that do nothing and fall through.\<close>

lemma kept_refl [simp]: "kept p p"
  by (simp add: kept_def)

lemma kept_trans: "kept r q \<Longrightarrow> kept q p \<Longrightarrow> kept r p"
  by (auto simp: kept_def intro: obs_equiv_trans)

lemma remove_skips:
  assumes "wf_prog p" "sorted_wrt (>) rs"
    and "\<And>r. r \<in> set rs \<Longrightarrow> r < length p \<and> succs r (p ! r) = [Suc r] \<and> (S \<longrightarrow> skips p r)"
  shows "\<exists>q. foldm remove_at rs p = Some q \<and> wf_prog q \<and> (plain_loads p \<longrightarrow> plain_loads q) \<and>
    (S \<longrightarrow> obs_equiv q p) \<and> nreach q \<le> nreach p \<and> length q + length rs = length p"
  using assms
proof (induction rs arbitrary: p)
  case (Cons r rs)
  note wf = Cons.prems(1)
  have r: "r < length p" "succs r (p ! r) = [Suc r]" "S \<Longrightarrow> skips p r" using Cons.prems(3) by auto
  have Sr: "Suc r < length p" using wf_prog_succs[OF wf r(1)] r(2) by auto
  let ?q = "cut_insn r p"
  note ok = wf_prog_all_ok[OF wf]
  have "\<exists>q'. foldm remove_at rs ?q = Some q' \<and> wf_prog q' \<and> (plain_loads ?q \<longrightarrow> plain_loads q') \<and>
    (S \<longrightarrow> obs_equiv q' ?q) \<and> nreach q' \<le> nreach ?q \<and> length q' + length rs = length ?q"
  proof (rule Cons.IH)
    show "wf_prog ?q" by (rule cut_wf[OF wf Sr])
    show "sorted_wrt (>) rs" using Cons.prems(2) by simp
    fix k assume k: "k \<in> set rs"
    then have kr: "k < r" using Cons.prems(2) by simp
    have "succs k (p ! k) = [Suc k]" "S \<Longrightarrow> skips p k" using Cons.prems(3) k by auto
    then show "k < length ?q \<and> succs k (?q ! k) = [Suc k] \<and> (S \<longrightarrow> skips ?q k)"
      using kr r(1,2) cut_succs[OF r(1), of k] cut_skips[OF ok r(1,3) kr] by simp
  qed
  moreover have "nreach ?q \<le> nreach p" using nreach_cut[OF r(1) disjI2[OF r(2)] finite_sreach[OF wf]] .
  moreover have "S \<longrightarrow> obs_equiv ?q p" using cut_obs_equiv[OF ok r(1,3)] by blast
  ultimately show ?case using r(1) cut_plain_loads[OF r(1)]
    by (auto simp: remove_at_cut intro: obs_equiv_trans)
qed simp

lemma remove_where_skips:
  assumes "wf_prog p"
    and "\<And>r. r < length p \<Longrightarrow> P r \<Longrightarrow> succs r (p ! r) = [Suc r] \<and> (plain_loads p \<longrightarrow> skips p r)"
  shows "pass_ok p (remove_where P p)"
proof (cases "filter P [0..<length p] = []")
  case False
  let ?rs = "rev (filter P [0..<length p])"
  have "\<exists>q. foldm remove_at ?rs p = Some q \<and> wf_prog q \<and> (plain_loads p \<longrightarrow> plain_loads q) \<and>
    (plain_loads p \<longrightarrow> obs_equiv q p) \<and> nreach q \<le> nreach p \<and> length q + length ?rs = length p"
    by (rule remove_skips[OF assms(1) decreasing_filter]) (use assms(2) in auto)
  then obtain q where q: "foldm remove_at ?rs p = Some q" "wf_prog q" "kept q p"
    "nreach q \<le> nreach p" "length q + length ?rs = length p" by (auto simp: kept_def)
  have "length ?rs > 0" using False by (simp del: filter_empty_conv)
  with q(5) have "length q < length p" by linarith
  with q(4) have "(q, p) \<in> opt_order" by (auto simp: opt_order_def)
  with q False \<open>length q < length p\<close> show ?thesis
    by (auto simp: pass_ok_def remove_where_eq simp del: filter_empty_conv)
qed (auto simp: pass_ok_def remove_where_eq)

subsection \<open>Jumps over nothing\<close>

lemma removeZeroInstructionJumps_ok:
  assumes "wf_prog p"
  shows "pass_ok p (removeZeroInstructionJumps p)"
  unfolding removeZeroInstructionJumps_def
proof (rule remove_where_skips[OF assms])
  fix r assume r: "r < length p" and "\<not> (\<not> IsUnconditionalJump (p ! r) \<or> ImmK (p ! r) \<noteq> 0)"
  then have u: "IsUnconditionalJump (p ! r)" and z: "ImmK (p ! r) = 0" by auto
  show "succs r (p ! r) = [Suc r] \<and> (plain_loads p \<longrightarrow> skips p r)"
    using u z exec_step_uncond[OF wf_prog_insn_ok[OF assms r] u] by (simp add: skips_def)
qed

interpretation pass_zj: opt_pass "\<lambda>_. True" removeZeroInstructionJumps
  by unfold_locales (rule removeZeroInstructionJumps_ok)

subsection \<open>Dead code\<close>

lemma mark_reachable_step:
  assumes "c < length reachable" "c < length p" "\<not> reachable ! c"
  shows "mark_reachable p reachable (c # cs) =
    mark_reachable p (reachable[c := True]) (cs @ succs c (p ! c))"
  using assms
  by (auto simp: Let_def succs_def IsReturn_def IsJump_def IsUnconditionalJump_def IsConditionalJump_def)

lemma worklist_inv_step:
  assumes wf: "wf_prog p" and I: "worklist_inv p reachable (c # cs)"
  shows "c < length p" "reachable ! c \<Longrightarrow> worklist_inv p reachable cs"
    "worklist_inv p (reachable[c := True]) (cs @ succs c (p ! c))"
proof -
  from I have c: "c \<in> sreach p" and len: "length reachable = length p" by (auto simp: worklist_inv_def)
  show lt: "c < length p" by (rule sreach_bounded[OF wf c])
  show "reachable ! c \<Longrightarrow> worklist_inv p reachable cs" using I by (auto simp: worklist_inv_def)
  have "set (succs c (p ! c)) \<subseteq> sreach p" using sreach.sreach_step[OF c lt] by blast
  with I c len lt show "worklist_inv p (reachable[c := True]) (cs @ succs c (p ! c))"
    unfolding worklist_inv_def by (auto simp: nth_list_update)
qed

lemma mark_reachable_sreach:
  assumes "wf_prog p" "worklist_inv p reachable cs"
  shows "\<exists>r'. mark_reachable p reachable cs = Some r' \<and> length r' = length p \<and>
    (\<forall>i < length p. r' ! i \<longleftrightarrow> i \<in> sreach p)"
  using assms(2)
proof (induction "(unmarked reachable, length cs)" arbitrary: reachable cs rule: less_induct)
  case less
  show ?case
  proof (cases cs)
    case Nil
    note I = less.prems[unfolded Nil worklist_inv_def]
    have "reachable ! i" if "i \<in> sreach p" for i
      using that
    proof induction
      case sreach_start
      then show ?case using I by simp
    next
      case (sreach_step pc t)
      then show ?case using I by simp
    qed
    then have "\<forall>i < length p. reachable ! i \<longleftrightarrow> i \<in> sreach p" using I by blast
    then show ?thesis using I by (simp add: Nil)
  next
    case (Cons c cs')
    note I = less.prems[unfolded Cons]
    note st = worklist_inv_step[OF assms(1) I]
    have len: "length reachable = length p" using I by (simp add: worklist_inv_def)
    show ?thesis
    proof (cases "reachable ! c")
      case True
      have "(unmarked reachable, length cs') < (unmarked reachable, length cs)" by (simp add: Cons)
      from less.hyps[OF this st(2)[OF True]] True st(1) len show ?thesis
        by (simp only: Cons mark_reachable.simps(2) if_True simp_thms)
    next
      case False
      then have "(unmarked (reachable[c := True]), length (cs' @ succs c (p ! c))) < (unmarked reachable, length cs)"
        using unmarked_mark[of c reachable] st(1) len by simp
      from less.hyps[OF this st(3)] show ?thesis
        unfolding Cons using mark_reachable_step[of c reachable p cs'] st(1) len False by (simp only: simp_thms)
    qed
  qed
qed

text \<open>Deleting instructions that are never reached.\<close>

lemma reach_sreach:
  assumes "all_ok p" "reach e inp p pc m"
  shows "pc \<in> sreach p \<and> mach_ok m"
  using assms(2)
proof induction
  case reach_start
  show ?case by (simp add: sreach.sreach_start)
next
  case (reach_step pc m d m')
  then have "step_sound pc (p ! pc) (Next d m')"
    using exec_step_sound[of "p ! pc" m pc e inp] assms(1) by (simp add: all_ok_def)
  with reach_step show ?case by (auto intro: sreach.sreach_step)
qed

lemma unreachable_skips: "all_ok p \<Longrightarrow> r \<notin> sreach p \<Longrightarrow> skips p r"
  using reach_sreach by (auto simp: skips_def)

lemma remove_dead:
  assumes "all_ok p" "sreach p \<subseteq> {..<length p}" "sorted_wrt (>) rs" "set rs \<subseteq> {..<length p}"
    and "\<And>k. k < length p \<Longrightarrow> k \<in> sreach p \<longleftrightarrow> k \<notin> set rs"
  shows "\<exists>q. foldm remove_at rs p = Some q \<and> all_ok q \<and> (plain_loads p \<longrightarrow> plain_loads q) \<and> obs_equiv q p \<and>
    sreach q = {..<length q} \<and> nreach q \<le> nreach p \<and> length q + length rs = length p"
  using assms
proof (induction rs arbitrary: p)
  case Nil
  then show ?case by auto
next
  case (Cons r rs)
  note b = Cons.prems(2)
  have r: "r < length p" using Cons.prems(4) by simp
  have nr: "r \<notin> sreach p" using Cons.prems(5)[OF r] by simp
  have sk: "skips p r" by (rule unreachable_skips[OF Cons.prems(1) nr])
  let ?q = "cut_insn r p"
  have img: "sreach ?q = sh r ` sreach p" by (rule sreach_cut_dead[OF r nr b])
  have "\<exists>q'. foldm remove_at rs ?q = Some q' \<and> all_ok q' \<and> (plain_loads ?q \<longrightarrow> plain_loads q') \<and> obs_equiv q' ?q \<and>
    sreach q' = {..<length q'} \<and> nreach q' \<le> nreach ?q \<and> length q' + length rs = length ?q"
  proof (rule Cons.IH)
    show "all_ok ?q" by (rule cut_all_ok[OF r Cons.prems(1)])
    show "sorted_wrt (>) rs" using Cons.prems(3) by simp
    have lt: "k < r" if "k \<in> set rs" for k using that Cons.prems(3) by simp
    show "set rs \<subseteq> {..<length ?q}" using lt r by fastforce
    show "sreach ?q \<subseteq> {..<length ?q}" unfolding img using b nr r sh_bound[of _ "length p" r] by auto
    fix k assume "k < length ?q"
    then obtain pc where pc: "pc < length p" "pc \<noteq> r" "sh r pc = k" by (rule cut_ex[OF r])
    have "k \<in> sreach ?q \<longleftrightarrow> pc \<in> sreach p"
    proof
      assume "k \<in> sreach ?q"
      then obtain u where u: "u \<in> sreach p" "sh r u = sh r pc" unfolding img pc(3) by blast
      moreover have "u \<noteq> r" using u nr by blast
      ultimately show "pc \<in> sreach p" using sh_inj[OF u(2) _ pc(2)] by simp
    next
      assume "pc \<in> sreach p"
      then show "k \<in> sreach ?q" unfolding img pc(3)[symmetric] by (rule imageI)
    qed
    also have "\<dots> \<longleftrightarrow> pc \<notin> set (r # rs)" by (rule Cons.prems(5)[OF pc(1)])
    also have "\<dots> \<longleftrightarrow> k \<notin> set rs" using pc lt by (cases "pc < r") fastforce+
    finally show "k \<in> sreach ?q \<longleftrightarrow> k \<notin> set rs" .
  qed
  moreover have "nreach ?q \<le> nreach p"
    using nreach_cut[OF r disjI1[OF nr]] b finite_subset by blast
  moreover have "obs_equiv ?q p" by (rule cut_obs_equiv[OF Cons.prems(1) r sk])
  ultimately show ?case using r cut_plain_loads[OF r] by (auto simp: remove_at_cut intro: obs_equiv_trans)
qed

lemma all_reachable_wf:
  assumes "all_ok p" "sreach p = {..<length p}"
  shows "wf_prog p"
proof -
  have "0 < length p" using assms(2) sreach.sreach_start[of p] by auto
  moreover have "t < length p" if "pc < length p" "t \<in> set (succs pc (p ! pc))" for pc t
    using sreach.sreach_step[of pc p t] that assms(2) by auto
  ultimately show ?thesis using assms(1) by (auto simp: wf_prog_def wf_insn_def all_ok_def list_all_iff)
qed

lemma removeDeadCode_ok:
  assumes wf: "wf_prog p"
  shows "pass_ok p (removeDeadCode p) \<and> (removeDeadCode p = Some (p, False) \<longrightarrow> all_reachable p)"
proof -
  have "worklist_inv p (replicate (length p) False) [0]"
    by (auto simp: worklist_inv_def sreach.sreach_start)
  from mark_reachable_sreach[OF wf this] obtain rch where
    rch: "mark_reachable p (replicate (length p) False) [0] = Some rch" "length rch = length p"
    "\<And>i. i < length p \<Longrightarrow> rch ! i \<longleftrightarrow> i \<in> sreach p" by blast
  let ?P = "\<lambda>pc. \<not> rch ! pc" and ?rs = "rev (filter (\<lambda>pc. \<not> rch ! pc) [0..<length p])"
  have eq: "removeDeadCode p = remove_where ?P p"
    using wf rch(1) by (simp add: removeDeadCode_def wf_prog_def)
  have bnd: "sreach p \<subseteq> {..<length p}" using sreach_bounded[OF wf] by blast
  show ?thesis
  proof (cases "filter ?P [0..<length p] = []")
    case True
    then have "all_reachable p" using rch(3) bnd by (auto simp: all_reachable_def filter_empty_conv)
    with True show ?thesis by (auto simp: eq remove_where_eq pass_ok_def)
  next
    case False
    have "\<exists>q. foldm remove_at ?rs p = Some q \<and> all_ok q \<and> (plain_loads p \<longrightarrow> plain_loads q) \<and> obs_equiv q p \<and>
      sreach q = {..<length q} \<and> nreach q \<le> nreach p \<and> length q + length ?rs = length p"
      by (rule remove_dead[OF wf_prog_all_ok[OF wf] bnd decreasing_filter]) (use rch(3) in auto)
    then obtain q where q: "foldm remove_at ?rs p = Some q" "all_ok q" "kept q p"
      "sreach q = {..<length q}" "nreach q \<le> nreach p" "length q + length ?rs = length p"
      unfolding kept_def by blast
    have "length ?rs > 0" using False by (simp del: filter_empty_conv)
    with q(6) have less: "length q < length p" by linarith
    with q(5) have "(q, p) \<in> opt_order" by (auto simp: opt_order_def)
    with q less False all_reachable_wf[OF q(2,4)] show ?thesis
      by (auto simp: eq pass_ok_def remove_where_eq simp del: filter_empty_conv)
  qed
qed

interpretation pass_dc: opt_pass "\<lambda>_. True" removeDeadCode
  by unfold_locales (simp add: removeDeadCode_ok)

section \<open>Redundant loads\<close>

lemma foldm_map: "foldm (\<lambda>x. f (g x)) xs s = foldm f (map g xs) s"
proof (induction xs arbitrary: s)
  case (Cons x xs)
  then show ?case by (cases "f (g x) s") simp_all
qed simp

lemma JumpOffsets_succs:
  assumes "IsJump i"
  shows "map (\<lambda>jo. pc + unat (joOffset jo) + 1) (JumpOffsets i) = succs pc i"
  using assms jump_not_return[OF assms] cond_not_uncond[of i]
  by (cases "IsConditionalJump i") (auto simp: JumpOffsets_def succs_def IsJump_cases)

lemma reverseWalk_body_succs:
  assumes "pc < length p"
  shows "reverseWalk_body p pc walk = foldm (add_pred pc) (succs pc (p ! pc)) walk"
proof (cases "IsJump (p ! pc)")
  case True
  with assms jump_not_return[OF True] show ?thesis
    by (simp only: reverseWalk_body_def slice_get_in bind.simps if_False if_True
        foldm_map[of "add_pred pc" "\<lambda>jo. pc + unat (joOffset jo) + 1"] JumpOffsets_succs[OF True])
next
  case False
  then have "\<not> IsUnconditionalJump (p ! pc)" "\<not> IsConditionalJump (p ! pc)" by (auto simp: IsJump_cases)
  with False assms show ?thesis
    by (cases "add_pred pc (Suc pc) walk") (simp_all add: reverseWalk_body_def succs_def)
qed

lemma add_preds:
  assumes "\<And>t. t \<in> set ts \<Longrightarrow> t < length walk"
  shows "\<exists>w'. foldm (add_pred pc) ts walk = Some w' \<and> length w' = length walk \<and>
    (\<forall>t < length walk. set (w' ! t) = set (walk ! t) \<union> (if t \<in> set ts then {pc} else {}))"
  using assms
proof (induction ts arbitrary: walk)
  case (Cons u ts)
  have u: "u < length walk" using Cons.prems by simp
  let ?w = "walk[u := List.insert pc (walk ! u)]"
  from Cons.IH[of ?w] Cons.prems obtain w' where
    w': "foldm (add_pred pc) ts ?w = Some w'" "length w' = length ?w"
    "\<And>t. t < length ?w \<Longrightarrow> set (w' ! t) = set (?w ! t) \<union> (if t \<in> set ts then {pc} else {})" by auto
  moreover have "foldm (add_pred pc) (u # ts) walk = foldm (add_pred pc) ts ?w"
    using u by (simp add: add_pred_def)
  ultimately show ?case using u by (auto simp: nth_list_update split: if_splits)
qed auto

lemma reverseWalk_upto:
  assumes wf: "wf_prog p" and "n \<le> length p"
  shows "\<exists>w. foldm (reverseWalk_body p) [0..<n] (replicate (length p) []) = Some w \<and> length w = length p \<and>
    (\<forall>t < length p. set (w ! t) = {pc. pc < n \<and> t \<in> set (succs pc (p ! pc))})"
  using assms(2)
proof (induction n)
  case (Suc n)
  then have n: "n < length p" by simp
  from Suc obtain w where w: "foldm (reverseWalk_body p) [0..<n] (replicate (length p) []) = Some w"
    "length w = length p" "\<And>t. t < length p \<Longrightarrow> set (w ! t) = {pc. pc < n \<and> t \<in> set (succs pc (p ! pc))}"
    by auto
  have "\<exists>w'. foldm (add_pred n) (succs n (p ! n)) w = Some w' \<and> length w' = length w \<and>
    (\<forall>t < length w. set (w' ! t) = set (w ! t) \<union> (if t \<in> set (succs n (p ! n)) then {n} else {}))"
    by (rule add_preds) (simp add: w(2) wf_prog_succs[OF wf n])
  then obtain w' where w': "foldm (add_pred n) (succs n (p ! n)) w = Some w'" "length w' = length w"
    "\<And>t. t < length w \<Longrightarrow> set (w' ! t) = set (w ! t) \<union> (if t \<in> set (succs n (p ! n)) then {n} else {})"
    by blast
  have "set (w' ! t) = {pc. pc < Suc n \<and> t \<in> set (succs pc (p ! pc))}" if "t < length p" for t
    using w'(3)[of t] w(2,3) that by (auto simp: less_Suc_eq)
  moreover have "foldm (reverseWalk_body p) [0..<Suc n] (replicate (length p) []) = Some w'"
    using w(1) w'(1) by (simp add: foldm_append reverseWalk_body_succs[OF n])
  ultimately show ?case using w(2) w'(2) by auto
qed auto

lemma reverseWalk_ok: "wf_prog p \<Longrightarrow> \<exists>w. reverseWalk p = Some w \<and> walk_ok p w"
  using reverseWalk_upto[of p "length p"] by (simp add: reverseWalk_def walk_ok_def)

lemma succs_gt: "t \<in> set (succs pc i) \<Longrightarrow> pc < t"
  by (auto simp: succs_def split: if_splits)

lemma walk_ok_less: "walk_ok p walk \<Longrightarrow> k < length p \<Longrightarrow> b \<in> set (walk ! k) \<Longrightarrow> b < k \<and> b < length p"
  by (auto simp: walk_ok_def dest: succs_gt)

text \<open>The walk ends: with more fuel than the index it starts from, it gives an answer.\<close>

lemma lastModifiedA_total:
  assumes w: "walk_ok p walk"
  shows "k < length p \<Longrightarrow> k < fuel \<Longrightarrow> \<exists>r. lastModifiedA fuel p walk (walk ! k) = Some r \<and>
    (\<forall>p0. r = Some p0 \<longrightarrow> p0 < length p)"
proof (induction fuel arbitrary: k)
  case (Suc fuel)
  show ?case
  proof (cases "\<exists>b. walk ! k = [b]")
    case True
    then obtain b where b: "walk ! k = [b]" by blast
    then have lt: "b < k" "b < length p" using walk_ok_less[OF w Suc.prems(1)] by auto
    with w have "b < length walk" by (simp add: walk_ok_def)
    with Suc.IH[of b] Suc.prems lt b show ?thesis by (cases "ModifiesRegisterA (p ! b)") simp_all
  next
    case False
    then show ?thesis by (cases "walk ! k" rule: remdups_adj.cases) auto
  qed
qed simp

lemma keeps_regA:
  assumes "insn_ok i" "\<not> ModifiesRegisterA i" "exec_step e inp i m = Next d m'"
  shows "regA m' = regA m"
proof -
  obtain c where c: "opcode_case (OpCode i) = Some c" using assms(1) by (rule insn_okE)
  with assms(2) have "c \<notin> {CLdImm, CLdMem, CLdLen, CNeg, CTax} \<union> range CLdAbs \<union> range CLdInd
       \<union> {CAlu alu src | alu src. True}" by (simp add: ModifiesRegisterA_case)
  with assms(3) c show ?thesis
    by (cases c) (auto simp: exec_step_def split: option.splits if_splits)
qed

text \<open>What the walk finds: the instruction whose result is still in A.\<close>

lemma lastModifiedA_sound:
  assumes ok: "all_ok p" and w: "walk_ok p walk"
  shows "lastModifiedA fuel p walk (walk ! k) = Some (Some p0) \<Longrightarrow> k < length p \<Longrightarrow> reach e inp p k m \<Longrightarrow>
    \<exists>m0 d m1. exec_step e inp (p ! p0) m0 = Next d m1 \<and> regA m = regA m1"
proof (induction fuel arbitrary: k m)
  case (Suc fuel)
  have "\<exists>b. walk ! k = [b]"
    using Suc.prems(1) by (cases "walk ! k" rule: remdups_adj.cases) simp_all
  then obtain b where b: "walk ! k = [b]" by blast
  have "set (walk ! k) = {pc. pc < length p \<and> k \<in> set (succs pc (p ! pc))}"
    using w Suc.prems(2) by (simp add: walk_ok_def)
  with b have pre: "{pc. pc < length p \<and> k \<in> set (succs pc (p ! pc))} = {b}" by simp
  have "b \<in> {pc. pc < length p \<and> k \<in> set (succs pc (p ! pc))}" by (simp add: pre)
  then have lt: "b < length p" and "b < k" using succs_gt by auto
  then have "k \<noteq> 0" by simp
  from Suc.prems(3) obtain pc m' d where
    r: "reach e inp p pc m'" "pc < length p" "exec_step e inp (p ! pc) m' = Next d m" "k = pc + d + 1"
    using \<open>k \<noteq> 0\<close> by (cases rule: reach.cases) auto
  have okpc: "insn_ok (p ! pc)" using ok r(2) by (simp add: all_ok_def)
  have "mach_ok m'" using reach_sreach[OF ok r(1)] by simp
  from exec_step_sound[OF okpc this, of pc e inp] have "k \<in> set (succs pc (p ! pc))" using r(3,4) by simp
  with r(2) have "pc \<in> {pc. pc < length p \<and> k \<in> set (succs pc (p ! pc))}" by simp
  then have pcb: "pc = b" by (simp add: pre)
  show ?case
  proof (cases "ModifiesRegisterA (p ! b)")
    case True
    with Suc.prems(1) b lt have "p0 = b" by simp
    with r(3) pcb show ?thesis by blast
  next
    case False
    with Suc.prems(1) b lt have "lastModifiedA fuel p walk (walk ! b) = Some (Some p0)"
      using w by (simp add: walk_ok_def)
    from Suc.IH[OF this lt] r(1) pcb obtain m0 d' m1 where
      "exec_step e inp (p ! p0) m0 = Next d' m1" "regA m' = regA m1" by blast
    moreover have "regA m = regA m'" using keeps_regA[OF okpc _ r(3)] False pcb by simp
    ultimately show ?thesis by auto
  qed
qed simp

lemma Len_case:
  assumes "opcode_case op = Some c" "op AND instructionClassMask = bpf_Ld" "op AND loadModeMask = bpf_Len"
  shows "c = CLdLen"
  using opcode_case_SomeD[OF assms(1)] assms(2,3)
  unfolding opcode_table_eval list.set by (elim insertE emptyE) simp_all

lemma Equal_load:
  assumes "Equal i j" "op_class i = bpf_Ld" "insn_ok i" "plain_load i"
    and "exec_step e inp j m0 = Next d m1" "regA m = regA m1"
  shows "exec_step e inp i m = Next 0 m"
proof -
  obtain c where c: "opcode_case (OpCode i) = Some c" using assms(3) by (rule insn_okE)
  have oc: "OpCode j = OpCode i" using assms(1) by (auto simp: Equal_def split: if_splits)
  with c have cj: "opcode_case (OpCode j) = Some c" by simp
  from assms(2,4) c have "c = CLdImm \<or> (\<exists>sz. c = CLdAbs sz) \<or> c = CLdLen"
    using IsLd_case[OF c] by (auto simp: plain_load_def)
  moreover have "c = CLdLen \<or> ImmK j = ImmK i"
  proof (cases "OpCode i AND loadModeMask = bpf_Len")
    case True
    then show ?thesis using Len_case[OF c] assms(2) by (simp add: op_class_def)
  next
    case False
    then show ?thesis using assms(1,2) oc by (simp add: Equal_def)
  qed
  ultimately show ?thesis
    using assms(5,6) c cj by (auto simp: exec_step_def load_into_A_def split: option.splits)
qed

lemma succs_Ld: "op_class i = bpf_Ld \<Longrightarrow> succs pc i = [Suc pc]"
  by (simp add: succs_def IsReturn_def IsUnconditionalJump_def IsConditionalJump_def IsJump_def)

lemma foldm_snoc_all:
  assumes "\<And>x. x \<in> set xs \<Longrightarrow> \<exists>b. f x = Some b"
  shows "foldm (\<lambda>x acc. Option.bind (f x) (\<lambda>b. Some (acc @ [b]))) xs acc = Some (acc @ map (the \<circ> f) xs)"
  using assms
proof (induction xs arbitrary: acc)
  case (Cons x xs)
  moreover then obtain b where "f x = Some b" by auto
  ultimately show ?case by simp
qed simp

lemma redundant_load_total:
  assumes w: "walk_ok p walk" and k: "k < length p"
  shows "\<exists>b. redundant_load p walk k = Some b"
proof -
  have "k < length walk" using w k by (simp add: walk_ok_def)
  moreover from lastModifiedA_total[OF w k, of "Suc (length p)"] k obtain r where
    "lastModifiedA (Suc (length p)) p walk (walk ! k) = Some r" "\<And>p0. r = Some p0 \<Longrightarrow> p0 < length p" by auto
  ultimately show ?thesis using k
    by (cases r) (auto simp del: lastModifiedA.simps simp: redundant_load_def)
qed

lemma redundant_load_skips:
  assumes wf: "wf_prog p" and w: "walk_ok p walk" and k: "k < length p"
    and rl: "redundant_load p walk k = Some True"
  shows "succs k (p ! k) = [Suc k] \<and> (plain_loads p \<longrightarrow> skips p k)"
proof -
  have ld: "op_class (p ! k) = bpf_Ld" using rl k by (auto simp: redundant_load_def split: if_splits)
  with rl k w obtain p0 where
    p0: "lastModifiedA (Suc (length p)) p walk (walk ! k) = Some (Some p0)" "Equal (p ! k) (p ! p0)"
    by (auto simp del: lastModifiedA.simps simp: redundant_load_def walk_ok_def split: option.splits)
  have "exec_step e inp (p ! k) m = Next 0 m" if pl: "plain_loads p" and r: "reach e inp p k m" for e inp m
  proof -
    from lastModifiedA_sound[OF wf_prog_all_ok[OF wf] w p0(1) k r] obtain m0 d m1 where
      "exec_step e inp (p ! p0) m0 = Next d m1" "regA m = regA m1" by blast
    moreover have "plain_load (p ! k)" using pl k by (simp add: plain_loads_def list_all_length)
    ultimately show ?thesis using Equal_load[OF p0(2) ld wf_prog_insn_ok[OF wf k]] by blast
  qed
  then show ?thesis using succs_Ld[OF ld] by (simp add: skips_def)
qed

lemma removeRedundantLoads_ok:
  assumes wf: "wf_prog p"
  shows "pass_ok p (removeRedundantLoads p)"
proof -
  from reverseWalk_ok[OF wf] obtain walk where w: "reverseWalk p = Some walk" "walk_ok p walk" by blast
  have fl: "redundant_loads p walk = Some (map (the \<circ> redundant_load p walk) [0..<length p])"
    unfolding redundant_loads_def
    by (subst foldm_snoc_all) (use redundant_load_total[OF w(2)] in auto)
  let ?P = "\<lambda>pc. map (the \<circ> redundant_load p walk) [0..<length p] ! pc"
  have "pass_ok p (remove_where ?P p)"
  proof (rule remove_where_skips[OF wf])
    fix r assume r: "r < length p" "?P r"
    then have "redundant_load p walk r = Some True" using redundant_load_total[OF w(2) r(1)] by auto
    then show "succs r (p ! r) = [Suc r] \<and> (plain_loads p \<longrightarrow> skips p r)"
      by (rule redundant_load_skips[OF wf w(2) r(1)])
  qed
  then show ?thesis using w fl by (simp add: removeRedundantLoads_def)
qed

interpretation pass_rl: opt_pass "\<lambda>_. True" removeRedundantLoads
  by unfold_locales (simp add: removeRedundantLoads_ok)

end
