(* ===== verification/Bpf_Opt_Returns.thy ===== *)
theory Bpf_Opt_Returns
  imports Bpf_Opt_Removal
begin

text \<open>
  Correctness of the optimiser, part three: \<open>optimizeJumpsToSmallestSetOfReturns\<close> of
  \<^verbatim>\<open>pkg/bpf/optimizer.go\<close>.  Redirecting a branch from one return to another with the
  same effect keeps every run; a successful round of redirections leaves a return without
  predecessors, so that the number of reachable instructions drops.
\<close>

section \<open>Definitions\<close>

text \<open>The branches of an instruction, the offset of a branch, and an instruction with one offset replaced.\<close>

definition branches :: "insn \<Rightarrow> JumpType set" where
  "branches i = (if IsConditionalJump i then {JumpTrue, JumpFalse}
     else if IsUnconditionalJump i then {JumpDirect} else {})"

fun branch_off :: "insn \<Rightarrow> JumpType \<Rightarrow> nat" where
  "branch_off i JumpTrue = unat (JumpIfTrue i)"
| "branch_off i JumpFalse = unat (JumpIfFalse i)"
| "branch_off i JumpDirect = unat (ImmK i)"

fun set_branch :: "JumpType \<Rightarrow> nat \<Rightarrow> insn \<Rightarrow> insn" where
  "set_branch JumpTrue v i = i\<lparr>JumpIfTrue := of_nat v\<rparr>"
| "set_branch JumpFalse v i = i\<lparr>JumpIfFalse := of_nat v\<rparr>"
| "set_branch JumpDirect v i = i\<lparr>ImmK := of_nat v\<rparr>"

fun max_off :: "JumpType \<Rightarrow> nat" where
  "max_off JumpDirect = maxUnconditionalJumpOffset"
| "max_off _ = maxConditionalJumpOffset"

text \<open>A branch of \<open>p\<close> that goes to \<open>f\<close>, and one that can be redirected to \<open>t\<close>.\<close>

definition hits :: "insn list \<Rightarrow> nat \<Rightarrow> nat \<Rightarrow> JumpType \<Rightarrow> bool" where
  "hits p f pc ty \<longleftrightarrow> pc < length p \<and> ty \<in> branches (p ! pc) \<and> pc + branch_off (p ! pc) ty + 1 = f"

definition op_ok :: "insn list \<Rightarrow> nat \<Rightarrow> nat \<Rightarrow> jumpRewriteOperation \<Rightarrow> bool" where
  "op_ok p f t op \<longleftrightarrow> hits p f (jro_pc op) (jro_jumpType op) \<and> jro_pc op < t \<and>
     jro_rewriteTo op = t - jro_pc op - 1 \<and> jro_rewriteTo op \<le> max_off (jro_jumpType op)"

definition op_key :: "jumpRewriteOperation \<Rightarrow> nat \<times> JumpType" where
  "op_key op = (jro_pc op, jro_jumpType op)"

text \<open>What every rewrite of branch offsets keeps.\<close>

definition same_shape :: "insn list \<Rightarrow> insn list \<Rightarrow> bool" where
  "same_shape q p \<longleftrightarrow> wf_prog q \<and> length q = length p \<and> run_equiv q p \<and>
     (\<forall>k < length p. OpCode (q ! k) = OpCode (p ! k) \<and> (\<not> IsJump (p ! k) \<longrightarrow> q ! k = p ! k))"

text \<open>Two returns with the same effect.\<close>

definition same_return :: "insn list \<Rightarrow> nat \<Rightarrow> nat \<Rightarrow> bool" where
  "same_return p f t \<longleftrightarrow> f < length p \<and> t < length p \<and> IsReturn (p ! f) \<and> IsReturn (p ! t) \<and>
     Equal (p ! f) (p ! t) \<and> (\<forall>e inp m. exec_step e inp (p ! f) m = exec_step e inp (p ! t) m)"

definition no_pred :: "insn list \<Rightarrow> nat \<Rightarrow> bool" where
  "no_pred p f \<longleftrightarrow> f \<noteq> 0 \<and> (\<forall>k < length p. f \<notin> set (succs k (p ! k)))"

text \<open>The state of the pass: nothing has changed, or some instruction has lost its last predecessor.\<close>

definition merge_inv :: "insn list \<Rightarrow> opt_state \<Rightarrow> bool" where
  "merge_inv p st = (case st of (q, ch) \<Rightarrow> same_shape q p \<and>
     (if ch then \<exists>f < length p. no_pred q f else q = p))"

definition scan_ok :: "nat \<Rightarrow> nat \<Rightarrow> (nat \<times> JumpType) set \<Rightarrow> jumpRewriteOperation list \<Rightarrow> bool" where
  "scan_ok f t keys ops \<longleftrightarrow> distinct (map op_key ops) \<and> op_key ` set ops = keys \<and>
     (\<forall>op \<in> set ops. jro_pc op < t \<and> jro_rewriteTo op = t - jro_pc op - 1 \<and>
       jro_rewriteTo op \<le> max_off (jro_jumpType op))"

text \<open>The groups that \<open>retValueToPC\<close> builds.\<close>

definition groups_ok :: "insn list \<Rightarrow> nat \<Rightarrow> (u64 \<times> nat list) list \<Rightarrow> bool" where
  "groups_ok p n m \<longleftrightarrow> (\<forall>v pcs. (v, pcs) \<in> set m \<longrightarrow> distinct pcs \<and>
     (\<forall>pc \<in> set pcs. pc < n \<and> IsReturn (p ! pc) \<and> ret_value (p ! pc) = Some v))"

section \<open>Redirecting one branch\<close>

lemma apply_rewrite_set_branch:
  "apply_rewrite op p = p[jro_pc op := set_branch (jro_jumpType op) (jro_rewriteTo op) (p ! jro_pc op)]"
  by (cases "jro_jumpType op") (simp_all add: apply_rewrite_def Let_def)

lemma succs_branches:
  assumes "IsJump i"
  shows "set (succs pc i) = (\<lambda>ty. pc + branch_off i ty + 1) ` branches i"
  using assms cond_not_uncond[of i] by (auto simp: IsJump_cases branches_def)

lemma branches_IsJump: "ty \<in> branches i \<Longrightarrow> IsJump i"
  by (auto simp: branches_def IsJump_cases split: if_splits)

lemma branches_cong: "OpCode i = OpCode j \<Longrightarrow> branches i = branches j"
  using class_cong[of i j] by (simp add: branches_def)

lemma OpCode_set_branch [simp]: "OpCode (set_branch ty v i) = OpCode i"
  by (cases ty) simp_all

lemma branch_off_set_branch:
  assumes "v \<le> max_off ty"
  shows "branch_off (set_branch ty v i) ty = v"
    and "ty' \<noteq> ty \<Longrightarrow> branch_off (set_branch ty v i) ty' = branch_off i ty'"
  using assms by (cases ty; simp add: unat_of_nat_u8 unat_of_nat_u32)
    (cases ty; cases ty'; simp)

lemma ImmK_set_branch: "ty \<noteq> JumpDirect \<Longrightarrow> ImmK (set_branch ty v i) = ImmK i"
  by (cases ty) simp_all

lemma insn_ok_set_branch:
  assumes "insn_ok i" "ty \<in> branches i"
  shows "insn_ok (set_branch ty v i)"
proof (cases "ty = JumpDirect")
  case True
  then have "IsUnconditionalJump i" using assms(2) by (auto simp: branches_def split: if_splits)
  from uncond_case[OF assms(1) this] show ?thesis by (simp add: insn_ok_def)
qed (use assms(1) in \<open>simp add: insn_ok_def ImmK_set_branch split: option.splits\<close>)

text \<open>The step of a jump, by its branches.\<close>

lemma exec_step_branch:
  assumes "insn_ok i" "IsJump i"
  shows "\<exists>br \<in> branches i. \<forall>j. OpCode j = OpCode i \<longrightarrow> (IsConditionalJump i \<longrightarrow> ImmK j = ImmK i) \<longrightarrow>
      exec_step e inp j m = Next (branch_off j br) m"
proof (cases "IsConditionalJump i")
  case True
  from cond_case[OF assms(1) this] obtain cmp src where cs: "opcode_case (OpCode i) = Some (CJcond cmp src)" .
  let ?br = "if cmp_holds cmp (regA m) (operand_val src i m) then JumpTrue else JumpFalse"
  have "exec_step e inp j m = Next (branch_off j ?br) m" if j: "OpCode j = OpCode i" "ImmK j = ImmK i" for j
    using cs exec_step_cond[of j cmp src e inp m] j operand_val_cong[OF j(2), of src m]
    by (simp add: conditionalJumpOffset_def)
  with True show ?thesis by (intro bexI[of _ ?br]) (auto simp: branches_def)
next
  case False
  with assms(2) have u: "IsUnconditionalJump i" by (simp add: IsJump_cases)
  have "exec_step e inp j m = Next (unat (ImmK j)) m" if "OpCode j = OpCode i" for j
    using uncond_case[OF assms(1) u] that by (simp add: exec_step_def)
  with False u show ?thesis by (intro bexI[of _ JumpDirect]) (auto simp: branches_def)
qed

lemma exec_from_return:
  assumes "wf_prog p" "same_return p f t"
  shows "exec_from e inp p f m = exec_from e inp p t m"
proof -
  from assms(2) have f: "f < length p" "t < length p" "IsReturn (p ! f)"
    "exec_step e inp (p ! f) m = exec_step e inp (p ! t) m" by (simp_all add: same_return_def)
  obtain v where v: "exec_step e inp (p ! f) m = Halt v"
    by (rule exec_step_ret_cases[OF wf_prog_insn_ok[OF assms(1) f(1)] f(3)])
  then have "exec_step e inp (p ! t) m = Halt v" using f(4) by simp
  with v show ?thesis by (simp add: exec_from_in[OF f(1)] exec_from_in[OF f(2)])
qed

lemma apply_rewrite_sound:
  assumes wf: "wf_prog p" and sr: "same_return p f t" and op: "op_ok p f t op"
  shows "same_shape (apply_rewrite op p) p"
proof -
  let ?k = "jro_pc op" and ?ty = "jro_jumpType op" and ?v = "jro_rewriteTo op"
  let ?i = "p ! ?k" and ?j = "set_branch ?ty ?v (p ! ?k)"
  from op have k: "?k < length p" and br: "?ty \<in> branches ?i" and hit: "?k + branch_off ?i ?ty + 1 = f"
    and kt: "?k < t" and v: "?v = t - ?k - 1" "?v \<le> max_off ?ty" by (simp_all add: op_ok_def hits_def)
  have to: "?k + branch_off ?j ?ty + 1 = t" using branch_off_set_branch(1)[OF v(2)] v(1) kt by simp
  have off: "branch_off ?j ty = (if ty = ?ty then branch_off ?j ?ty else branch_off ?i ty)" for ty
    using branch_off_set_branch(2)[OF v(2)] by simp
  have ok: "insn_ok ?i" by (rule wf_prog_insn_ok[OF wf k])
  have J: "IsJump ?i" "IsJump ?j" using branches_IsJump[OF br] class_cong(3)[of ?j ?i] by simp_all
  have eqb: "branches ?j = branches ?i" by (rule branches_cong) simp
  have tlen: "t < length p" using sr by (simp add: same_return_def)
  have "run_equiv (p[?k := ?j]) p"
  proof (rule run_equiv_update)
    fix e inp m
    from exec_step_branch[OF ok J(1), of e inp m] obtain b where
      b: "\<And>j. OpCode j = OpCode ?i \<Longrightarrow> (IsConditionalJump ?i \<longrightarrow> ImmK j = ImmK ?i) \<Longrightarrow>
        exec_step e inp j m = Next (branch_off j b) m" by blast
    have "IsConditionalJump ?i \<longrightarrow> ImmK ?j = ImmK ?i"
      using br ImmK_set_branch by (auto simp: branches_def)
    with b(1)[of ?j] b(1)[of ?i] have st: "exec_step e inp ?j m = Next (branch_off ?j b) m"
      "exec_step e inp ?i m = Next (branch_off ?i b) m" by simp_all
    have "exec_from e inp p (?k + branch_off ?j b + 1) m = exec_from e inp p (?k + branch_off ?i b + 1) m"
    proof (cases "b = ?ty")
      case True
      show ?thesis unfolding True to hit using exec_from_return[OF wf sr] by simp
    qed (simp add: off)
    then show "exec_with e inp p ?k ?j m = exec_with e inp p ?k ?i m" by (simp add: exec_with_def st)
  qed
  moreover have "wf_prog (p[?k := ?j])"
  proof (rule wf_prog_update[OF wf k insn_ok_set_branch[OF ok br]])
    fix u assume "u \<in> set (succs ?k ?j)"
    then obtain ty where ty: "ty \<in> branches ?i" "u = ?k + branch_off ?j ty + 1"
      by (auto simp: succs_branches[OF J(2)] eqb)
    show "u < length p"
    proof (cases "ty = ?ty")
      case True
      with ty(2) to tlen show ?thesis by simp
    next
      case False
      with ty have "u \<in> set (succs ?k ?i)" by (auto simp: succs_branches[OF J(1)] off)
      then show ?thesis by (rule wf_prog_succs[OF wf k])
    qed
  qed
  ultimately show ?thesis
    using J(1) k by (auto simp: same_shape_def apply_rewrite_set_branch nth_list_update)
qed

section \<open>Redirecting every branch to a return\<close>

lemma same_shape_refl: "wf_prog p \<Longrightarrow> same_shape p p"
  by (simp add: same_shape_def)

lemma same_shape_trans:
  assumes "same_shape r q" "same_shape q p"
  shows "same_shape r p"
proof -
  have "OpCode (r ! k) = OpCode (p ! k) \<and> (\<not> IsJump (p ! k) \<longrightarrow> r ! k = p ! k)" if "k < length p" for k
    using assms that by (simp add: same_shape_def)
  with assms show ?thesis by (auto simp: same_shape_def intro: run_equiv_trans)
qed

lemma same_shape_at:
  assumes "same_shape q p" "k < length p"
  shows "OpCode (q ! k) = OpCode (p ! k)" "\<not> IsJump (p ! k) \<Longrightarrow> q ! k = p ! k"
    "branches (q ! k) = branches (p ! k)" "IsJump (q ! k) \<longleftrightarrow> IsJump (p ! k)"
  using assms branches_cong[of "q ! k" "p ! k"] class_cong(3)[of "q ! k" "p ! k"]
  by (simp_all add: same_shape_def)

lemma same_shape_return:
  assumes "same_shape q p" "same_return p f t"
  shows "same_return q f t"
proof -
  have "length q = length p" using assms(1) by (simp add: same_shape_def)
  moreover have "q ! f = p ! f" "q ! t = p ! t"
    using assms same_shape_at(2)[OF assms(1)] jump_not_return by (auto simp: same_return_def)
  ultimately show ?thesis using assms(2) by (simp add: same_return_def)
qed

lemma apply_rewrite_off:
  assumes "op_ok p f t op" "k < length p"
  shows "branch_off (apply_rewrite op p ! k) ty =
    (if (k, ty) = op_key op then t - k - 1 else branch_off (p ! k) ty)"
proof (cases "k = jro_pc op")
  case True
  have v: "jro_rewriteTo op \<le> max_off (jro_jumpType op)" "jro_rewriteTo op = t - k - 1"
    using assms(1) True by (simp_all add: op_ok_def)
  then show ?thesis using True assms(2) branch_off_set_branch[OF v(1)]
    by (simp add: apply_rewrite_set_branch op_key_def)
qed (simp add: apply_rewrite_set_branch op_key_def)

lemma fold_rewrite:
  assumes "wf_prog p" "same_return p f t" "\<And>op. op \<in> set ops \<Longrightarrow> op_ok p f t op" "distinct (map op_key ops)"
  shows "same_shape (fold apply_rewrite ops p) p \<and>
    (\<forall>k < length p. \<forall>ty. branch_off (fold apply_rewrite ops p ! k) ty =
      (if (k, ty) \<in> op_key ` set ops then t - k - 1 else branch_off (p ! k) ty))"
  using assms
proof (induction ops arbitrary: p)
  case Nil
  then show ?case by (simp add: same_shape_refl)
next
  case (Cons op ops)
  let ?q = "apply_rewrite op p"
  have op: "op_ok p f t op" using Cons.prems(3) by simp
  have sh: "same_shape ?q p" by (rule apply_rewrite_sound[OF Cons.prems(1,2) op])
  then have len: "length ?q = length p" and wfq: "wf_prog ?q" by (simp_all add: same_shape_def)
  note off = apply_rewrite_off[OF op]
  have "op_ok ?q f t op'" if "op' \<in> set ops" for op'
  proof -
    have o: "op_ok p f t op'" using that Cons.prems(3) by simp
    then have k: "jro_pc op' < length p" by (simp add: op_ok_def hits_def)
    have "op_key op \<notin> op_key ` set ops" using Cons.prems(4) by simp
    then have "op_key op' \<noteq> op_key op" using that by (metis imageI)
    then have "branch_off (?q ! jro_pc op') (jro_jumpType op') = branch_off (p ! jro_pc op') (jro_jumpType op')"
      using off[OF k] by (auto simp: op_key_def)
    with o k len show ?thesis using same_shape_at(3)[OF sh k] by (simp add: op_ok_def hits_def)
  qed
  from Cons.IH[OF wfq same_shape_return[OF sh Cons.prems(2)] this] Cons.prems(4)
  have IH: "same_shape (fold apply_rewrite ops ?q) ?q"
    "\<And>k ty. k < length p \<Longrightarrow> branch_off (fold apply_rewrite ops ?q ! k) ty =
      (if (k, ty) \<in> op_key ` set ops then t - k - 1 else branch_off (?q ! k) ty)"
    by (simp_all add: len)
  show ?case
  proof
    show "same_shape (fold apply_rewrite (op # ops) p) p" using same_shape_trans[OF IH(1) sh] by simp
    show "\<forall>k < length p. \<forall>ty. branch_off (fold apply_rewrite (op # ops) p ! k) ty =
      (if (k, ty) \<in> op_key ` set (op # ops) then t - k - 1 else branch_off (p ! k) ty)"
      using IH(2) off by simp
  qed
qed

lemma rewrite_ops_at_ok:
  assumes "rewrite_ops_at f t pc i = Some ops"
  shows "scan_ok f t {(pc, ty) | ty. ty \<in> branches i \<and> pc + branch_off i ty + 1 = f} ops"
  using assms
  by (auto simp: rewrite_ops_at_def Let_def scan_ok_def op_key_def branches_def cond_not_uncond
      split: if_splits)

lemma scan_ok_append:
  "scan_ok f t A ops \<Longrightarrow> scan_ok f t B ops' \<Longrightarrow> A \<inter> B = {} \<Longrightarrow> scan_ok f t (A \<union> B) (ops @ ops')"
  by (auto simp: scan_ok_def)

lemma rewrite_scan_ok:
  assumes "rewrite_scan p f t pcs = Some ops" "distinct pcs"
  shows "scan_ok f t {(pc, ty). pc \<in> set pcs \<and> ty \<in> branches (p ! pc) \<and> pc + branch_off (p ! pc) ty + 1 = f} ops"
  using assms
proof (induction pcs arbitrary: ops)
  case Nil
  then show ?case by (simp add: scan_ok_def)
next
  case (Cons pc pcs)
  then obtain a b where ab: "rewrite_ops_at f t pc (p ! pc) = Some a" "rewrite_scan p f t pcs = Some b" "ops = a @ b"
    by (auto split: option.splits)
  have eq: "{(c, ty). c \<in> set (pc # pcs) \<and> ty \<in> branches (p ! c) \<and> c + branch_off (p ! c) ty + 1 = f} =
    {(pc, ty) | ty. ty \<in> branches (p ! pc) \<and> pc + branch_off (p ! pc) ty + 1 = f} \<union>
    {(c, ty). c \<in> set pcs \<and> ty \<in> branches (p ! c) \<and> c + branch_off (p ! c) ty + 1 = f}" by auto
  show ?case unfolding eq ab(3)
    by (rule scan_ok_append[OF rewrite_ops_at_ok[OF ab(1)] Cons.IH[OF ab(2)]]) (use Cons.prems(2) in auto)
qed

lemma rewrite_scan_hits:
  assumes "rewrite_scan p f t [0..<f] = Some ops" "f < length p"
  shows "distinct (map op_key ops)" "\<And>op. op \<in> set ops \<Longrightarrow> op_ok p f t op"
    "(k, ty) \<in> op_key ` set ops \<longleftrightarrow> hits p f k ty"
proof -
  note sc = rewrite_scan_ok[OF assms(1) distinct_upt, unfolded scan_ok_def]
  show "distinct (map op_key ops)" by (rule conjunct1[OF sc])
  have keys: "(k, ty) \<in> op_key ` set ops \<longleftrightarrow> hits p f k ty" for k ty
    unfolding conjunct1[OF conjunct2[OF sc]] using assms(2) by (auto simp: hits_def)
  then show "(k, ty) \<in> op_key ` set ops \<longleftrightarrow> hits p f k ty" .
  fix op assume op: "op \<in> set ops"
  then have "op_key op \<in> op_key ` set ops" by (rule imageI)
  then have "hits p f (jro_pc op) (jro_jumpType op)"
    using keys[of "jro_pc op" "jro_jumpType op"] unfolding op_key_def by blast
  moreover have "jro_pc op < t \<and> jro_rewriteTo op = t - jro_pc op - 1 \<and> jro_rewriteTo op \<le> max_off (jro_jumpType op)"
    by (rule bspec[OF conjunct2[OF conjunct2[OF sc]] op])
  ultimately show "op_ok p f t op" by (simp add: op_ok_def)
qed

lemma rewritten_hits:
  assumes wf: "wf_prog p" and sr: "same_return p f t" and ne: "f \<noteq> t"
    and sc: "rewrite_scan p f t [0..<f] = Some ops"
  shows "same_shape (fold apply_rewrite ops p) p" "\<not> hits (fold apply_rewrite ops p) f k ty"
proof -
  let ?q = "fold apply_rewrite ops p"
  have f: "f < length p" using sr by (simp add: same_return_def)
  note h = rewrite_scan_hits[OF sc f]
  note fr = fold_rewrite[OF wf sr h(2) h(1)]
  show sh: "same_shape ?q p" by (rule conjunct1[OF fr])
  have off: "branch_off (?q ! k) ty = (if hits p f k ty then t - k - 1 else branch_off (p ! k) ty)"
    if "k < length p" using fr that h(3)[of k ty] by simp
  have len: "length ?q = length p" using sh by (simp add: same_shape_def)
  show "\<not> hits ?q f k ty"
  proof
    assume hq: "hits ?q f k ty"
    then have k: "k < length p" and br: "ty \<in> branches (p ! k)"
      using same_shape_at(3)[OF sh] by (auto simp: hits_def len)
    show False
    proof (cases "hits p f k ty")
      case True
      then have "(k, ty) \<in> op_key ` set ops" by (simp add: h(3))
      then obtain op where "op \<in> set ops" "op_key op = (k, ty)" by (metis imageE)
      with h(2)[of op] have "k < t" by (simp add: op_key_def op_ok_def)
      with hq off[OF k] True ne show False by (simp add: hits_def)
    next
      case False
      with hq off[OF k] br k show False by (simp add: hits_def)
    qed
  qed
qed

lemma no_hits_no_pred:
  assumes "\<And>k ty. \<not> hits p f k ty" "\<not> ret_fallthrough p f" "f \<noteq> 0"
  shows "no_pred p f"
  unfolding no_pred_def
proof (intro conjI allI impI notI)
  fix k assume k: "k < length p" and s: "f \<in> set (succs k (p ! k))"
  have kf: "k < f" by (rule succs_gt[OF s])
  show False
  proof (cases "IsJump (p ! k)")
    case True
    with s obtain ty where "ty \<in> branches (p ! k)" "f = k + branch_off (p ! k) ty + 1"
      by (auto simp: succs_branches)
    with k assms(1)[of k ty] show False by (simp add: hits_def)
  next
    case False
    then have "\<not> IsReturn (p ! k)" "Suc k = f"
      using s by (auto simp: succs_def IsJump_cases split: if_splits)
    with False kf assms(2) show False
      by (auto simp: ret_fallthrough_def list_ex_iff IsReturn_def IsJump_def)
  qed
qed (use assms(3) in simp)

lemma same_shape_fallthrough:
  assumes "same_shape q p" "f < length p"
  shows "ret_fallthrough q f = ret_fallthrough p f"
  using assms by (auto simp: ret_fallthrough_def list_ex_iff same_shape_def op_class_def)

text \<open>
  A successful rewrite keeps every run and leaves the return \<open>f\<close> without predecessors, unless
  the program can fall through to it.
\<close>

lemma rewriteAllJumpsToReturn_sound:
  assumes wf: "wf_prog p" and sr: "same_return p f t" and ne: "f \<noteq> t"
    and nf: "\<not> ret_fallthrough p f"
  shows "\<exists>q ok. rewriteAllJumpsToReturn p f t = Some (q, ok) \<and>
    (if ok then same_shape q p \<and> no_pred q f else q = p)"
proof -
  have f: "f < length p" "t < length p" "IsReturn (p ! f)" "IsReturn (p ! t)" "Equal (p ! f) (p ! t)"
    using sr by (simp_all add: same_return_def)
  consider "rewrite_scan p f t [0..<f] = None" | "rewrite_scan p f t [0..<f] = Some []"
    | ops where "rewrite_scan p f t [0..<f] = Some ops" "ops \<noteq> []" by (cases "rewrite_scan p f t [0..<f]") auto
  then show ?thesis
  proof cases
    case (3 ops)
    note rw = rewritten_hits[OF wf sr ne 3(1)]
    have "f \<noteq> 0" using 3 by (cases f) auto
    then have "no_pred (fold apply_rewrite ops p) f"
      using rw(2) same_shape_fallthrough[OF rw(1) f(1)] nf by (intro no_hits_no_pred) auto
    moreover have "rewriteAllJumpsToReturn p f t = Some (fold apply_rewrite ops p, True)"
      using f 3 by (simp add: rewriteAllJumpsToReturn_def)
    ultimately show ?thesis using rw(1) by auto
  qed (use f in \<open>auto simp: rewriteAllJumpsToReturn_def\<close>)
qed

section \<open>The pass\<close>

lemma ret_value_cases:
  assumes "insn_ok i" "IsReturn i"
  shows "OpCode i = bpf_Ret OR bpf_K \<and> ret_value i = Some (ucast (ImmK i)) \<and>
      (\<forall>e inp m. exec_step e inp i m = Halt (ImmK i)) \<or>
    OpCode i = bpf_Ret OR bpf_A \<and> ret_value i = Some retRegisterA \<and>
      (\<forall>e inp m. exec_step e inp i m = Halt (regA m))"
proof -
  obtain c where c: "opcode_case (OpCode i) = Some c" using assms(1) by (rule insn_okE)
  then have "c = CRetK \<or> c = CRetA" using assms(2) by (simp add: IsReturn_case)
  then show ?thesis using opcode_case_SomeD[OF c] c
    by (auto simp: opcode_table_eval ret_value_def exec_step_def)
qed

lemma ucast_u32_bound: "(ucast (k :: u32) :: u64) \<noteq> retRegisterA"
proof
  assume "(ucast k :: u64) = retRegisterA"
  then have "unat (ucast k :: u64) = unat retRegisterA" by simp
  moreover have "unat (ucast k :: u64) = unat k"
    using unat_u32_less[of k] by (simp only: unsigned_ucast_eq) (simp add: take_bit_nat_eq_self_iff less_trans[OF unat_u32_less])
  ultimately show False using unat_u32_less[of k] by simp
qed

lemma ucast_u32_inj:
  assumes "(ucast (a :: u32) :: u64) = ucast b"
  shows "a = b"
proof -
  have "(ucast (ucast x :: u64) :: u32) = x" for x :: u32
    by (rule ucast_up_ucast_id) (simp only: is_up, simp)
  then show ?thesis by (metis assms)
qed

lemma same_ret_value:
  assumes "wf_prog p" "f < length p" "t < length p" "IsReturn (p ! f)" "IsReturn (p ! t)"
    and v: "ret_value (p ! f) = Some v" "ret_value (p ! t) = Some v"
  shows "same_return p f t"
proof -
  note rf = ret_value_cases[OF wf_prog_insn_ok[OF assms(1,2)] assms(4)]
  note rt = ret_value_cases[OF wf_prog_insn_ok[OF assms(1,3)] assms(5)]
  have cls: "op_class (p ! f) = bpf_Ret" using assms(4) by (simp add: IsReturn_def)
  from rf rt v have "OpCode (p ! f) = bpf_Ret OR bpf_K \<and> OpCode (p ! t) = OpCode (p ! f) \<and>
      ImmK (p ! f) = ImmK (p ! t) \<and> (\<forall>e inp m. exec_step e inp (p ! f) m = exec_step e inp (p ! t) m) \<or>
    OpCode (p ! f) = bpf_Ret OR bpf_A \<and> OpCode (p ! t) = OpCode (p ! f) \<and>
      (\<forall>e inp m. exec_step e inp (p ! f) m = exec_step e inp (p ! t) m)"
    using ucast_u32_bound ucast_u32_inj[of "ImmK (p ! f)" "ImmK (p ! t)"] by (elim disjE conjE) auto
  then have "Equal (p ! f) (p ! t) \<and> (\<forall>e inp m. exec_step e inp (p ! f) m = exec_step e inp (p ! t) m)"
    using cls by (elim disjE conjE) (simp_all add: Equal_def)
  then show ?thesis using assms by (simp add: same_return_def)
qed

lemma groups_ok_add:
  assumes "groups_ok p n m" "IsReturn (p ! n)" "ret_value (p ! n) = Some v"
  shows "groups_ok p (Suc n) (add_ret v n m)"
proof -
  have old: "distinct pcs \<and> (\<forall>pc \<in> set pcs. pc < n \<and> IsReturn (p ! pc) \<and> ret_value (p ! pc) = Some w)"
    if "(w, pcs) \<in> set m" for w pcs
    using assms(1) that by (simp add: groups_ok_def)
  have "distinct pcs \<and> (\<forall>pc \<in> set pcs. pc < Suc n \<and> IsReturn (p ! pc) \<and> ret_value (p ! pc) = Some w)"
    if "(w, pcs) \<in> set (add_ret v n m)" for w pcs
  proof -
    have "(w, pcs) \<in> set m \<or> w = v \<and> pcs = [n] \<or> w = v \<and> (\<exists>qs. (v, qs) \<in> set m \<and> pcs = qs @ [n])"
      using that by (auto simp: add_ret_def split: option.splits if_splits)
    then show ?thesis
      using old[of w pcs] old[of v] assms(2,3) by (elim disjE conjE exE) (auto simp: less_Suc_eq)
  qed
  then show ?thesis by (simp add: groups_ok_def)
qed

lemma retValueToPC_ok:
  assumes "wf_prog p"
  shows "\<exists>m. retValueToPC p = Some m \<and> groups_ok p (length p) m"
proof -
  let ?f = "\<lambda>pc m. if \<not> IsReturn (p ! pc) then Some m
         else do { v \<leftarrow> ret_value (p ! pc); Some (add_ret v pc m) }"
  have "\<exists>m. foldm ?f [0..<n] [] = Some m \<and> groups_ok p n m" if "n \<le> length p" for n
    using that
  proof (induction n)
    case 0
    then show ?case by (simp add: groups_ok_def)
  next
    case (Suc n)
    then obtain m where m: "foldm ?f [0..<n] [] = Some m" "groups_ok p n m" by auto
    show ?case
    proof (cases "IsReturn (p ! n)")
      case True
      have "insn_ok (p ! n)" using wf_prog_insn_ok[OF assms] Suc.prems by simp
      from ret_value_cases[OF this True] obtain v where v: "ret_value (p ! n) = Some v" by auto
      show ?thesis using m(1) True v groups_ok_add[OF m(2) True v] by (simp add: foldm_append)
    next
      case False
      have "groups_ok p (Suc n) m" using m(2) by (auto simp: groups_ok_def less_Suc_eq)
      with m(1) False show ?thesis by (simp add: foldm_append)
    qed
  qed
  then show ?thesis by (simp add: retValueToPC_def)
qed

lemma try_candidates_ok:
  assumes "merge_inv p st" "f < length p" "\<not> ret_fallthrough p f"
    and "\<And>t. t \<in> set cands \<Longrightarrow> same_return p f t \<and> t \<noteq> f"
  shows "\<exists>st'. try_candidates f cands st = Some st' \<and> merge_inv p st'"
  using assms(1,4)
proof (induction cands arbitrary: st)
  case (Cons t cands)
  obtain q ch where st: "st = (q, ch)" by (cases st)
  with Cons.prems(1) have sh: "same_shape q p" by (simp add: merge_inv_def)
  then have wf: "wf_prog q" by (simp add: same_shape_def)
  have t: "same_return p f t" "f \<noteq> t" using Cons.prems(2)[of t] by auto
  have "\<not> ret_fallthrough q f" using same_shape_fallthrough[OF sh assms(2)] assms(3) by simp
  from rewriteAllJumpsToReturn_sound[OF wf same_shape_return[OF sh t(1)] t(2) this] obtain q' ok where
    r: "rewriteAllJumpsToReturn q f t = Some (q', ok)" "if ok then same_shape q' q \<and> no_pred q' f else q' = q"
    by blast
  show ?case
  proof (cases ok)
    case True
    with r(2) have "merge_inv p (q', True)"
      using same_shape_trans[OF _ sh] assms(2) by (auto simp: merge_inv_def)
    with True r(1) st show ?thesis by simp
  next
    case False
    with r st Cons.IH[OF Cons.prems(1)] Cons.prems(2) show ?thesis by simp
  qed
qed simp

lemma merge_returns_ok:
  assumes "merge_inv p st" "distinct pcs"
    and "\<And>f t. f \<in> set pcs \<Longrightarrow> t \<in> set pcs \<Longrightarrow> same_return p f t"
  shows "\<exists>st'. merge_returns (ret_fallthrough p) pcs st = Some st' \<and> merge_inv p st'"
  using assms
proof (induction pcs arbitrary: st)
  case (Cons f pcs)
  have f: "f < length p" using Cons.prems(3)[of f f] by (simp add: same_return_def)
  have "\<exists>st'. (if ret_fallthrough p f then Some st else try_candidates f (rev pcs) st) = Some st' \<and> merge_inv p st'"
  proof (cases "ret_fallthrough p f")
    case False
    have "\<exists>st'. try_candidates f (rev pcs) st = Some st' \<and> merge_inv p st'"
      by (rule try_candidates_ok[OF Cons.prems(1) f False]) (use Cons.prems(2,3) in auto)
    with False show ?thesis by simp
  qed (use Cons.prems(1) in simp)
  then obtain st' where
    st': "(if ret_fallthrough p f then Some st else try_candidates f (rev pcs) st) = Some st'" "merge_inv p st'"
    by blast
  have "\<exists>st''. merge_returns (ret_fallthrough p) pcs st' = Some st'' \<and> merge_inv p st''"
    by (rule Cons.IH[OF st'(2)]) (use Cons.prems(2,3) in auto)
  with st'(1) show ?case by simp
qed simp

lemma no_pred_unreachable: "no_pred p f \<Longrightarrow> f \<notin> sreach p"
proof
  assume np: "no_pred p f" and "f \<in> sreach p"
  from this(2) show False by (cases rule: sreach.cases) (use np in \<open>auto simp: no_pred_def\<close>)
qed

lemma same_shape_plain_loads:
  assumes "same_shape q p" "plain_loads p"
  shows "plain_loads q"
proof -
  have len: "length q = length p" using assms(1) by (simp add: same_shape_def)
  have "plain_load (q ! k)" if "k < length p" for k
    using class_cong(5)[OF same_shape_at(1)[OF assms(1) that]] assms(2) that
    by (simp add: plain_loads_def list_all_length)
  then show ?thesis by (simp add: plain_loads_def list_all_length len)
qed

lemma optimizeJumpsToSmallestSetOfReturns_ok:
  assumes wf: "wf_prog p" and all: "all_reachable p"
  shows "pass_ok p (optimizeJumpsToSmallestSetOfReturns ord p)"
proof -
  from retValueToPC_ok[OF wf] obtain m where m: "retValueToPC p = Some m" "groups_ok p (length p) m" by blast
  let ?group = "\<lambda>v. sort_key (\<lambda>pc. (ret_popularity p pc, pc)) (case map_of m v of None \<Rightarrow> [] | Some pcs \<Rightarrow> pcs)"
  have g: "distinct (?group v) \<and> (\<forall>f \<in> set (?group v). \<forall>t \<in> set (?group v). same_return p f t)" for v
  proof (cases "map_of m v")
    case (Some pcs)
    then have "(v, pcs) \<in> set m" by (rule map_of_SomeD)
    with m(2) have "distinct pcs" "\<And>pc. pc \<in> set pcs \<Longrightarrow> pc < length p \<and> IsReturn (p ! pc) \<and> ret_value (p ! pc) = Some v"
      by (auto simp: groups_ok_def)
    with Some show ?thesis using same_ret_value[OF wf] by auto
  qed simp
  have "\<exists>st. foldm (\<lambda>v st. merge_returns (ret_fallthrough p) (?group v) st) (ord (map fst m)) (p, False) = Some st \<and>
    merge_inv p st"
  proof (rule foldm_invariant)
    show "merge_inv p (p, False)" by (simp add: merge_inv_def same_shape_refl[OF wf])
    show "\<exists>st'. merge_returns (ret_fallthrough p) (?group v) st = Some st' \<and> merge_inv p st'"
      if "merge_inv p st" for v st
      by (rule merge_returns_ok[OF that]) (use g in blast)+
  qed
  then obtain q ch where
    q: "optimizeJumpsToSmallestSetOfReturns ord p = Some (q, ch)" "merge_inv p (q, ch)"
    using m(1) by (auto simp: optimizeJumpsToSmallestSetOfReturns_def)
  show ?thesis
  proof (cases ch)
    case True
    with q(2) obtain f where sh: "same_shape q p" and f: "f < length p" "no_pred q f" by (auto simp: merge_inv_def)
    then have wfq: "wf_prog q" and len: "length q = length p" and re: "run_equiv q p" by (simp_all add: same_shape_def)
    have "sreach q \<subset> sreach p"
      using sreach_bounded[OF wfq] no_pred_unreachable[OF f(2)] f(1) all len by (auto simp: all_reachable_def)
    then have "nreach q < nreach p" unfolding nreach_def by (intro psubset_card_mono finite_sreach[OF wf])
    then have "(q, p) \<in> opt_order" by (simp add: opt_order_def)
    with True q(1) wfq run_equiv_obs[OF re] same_shape_plain_loads[OF sh] len show ?thesis
      unfolding pass_ok_def kept_def by (intro exI[of _ q] exI[of _ True]) simp
  qed (use q in \<open>auto simp: merge_inv_def pass_ok_def\<close>)
qed

interpretation pass_ret: opt_pass all_reachable "optimizeJumpsToSmallestSetOfReturns ord" for ord
  by unfold_locales (rule optimizeJumpsToSmallestSetOfReturns_ok)

end
