(* ===== verification/Bpf_Opt_Correct.thy ===== *)
theory Bpf_Opt_Correct
  imports Bpf_Opt_Returns
begin

text \<open>
  Correctness of the optimiser, part four: the loop \<open>optimize\<close> ends, because every pass that
  reports a change goes down in a well-founded order, and \<open>Compile\<close> with optimisation keeps
  the behaviour of programs whose loads into A read immediates, absolute input or the input
  length.  For loads relative to X the redundancy test of the optimiser is wrong; the last
  section has a concrete program.
\<close>

section \<open>Definitions\<close>

text \<open>
  The restriction to plain loads is needed.  \<open>removeRedundantLoads\<close> takes a load relative to X
  for redundant when the last instruction that modified A was an equal load, although X may
  have changed in between.
\<close>

definition indexed_loads :: "insn list" where
  "indexed_loads =
     [Stmt (bpf_Ld OR bpf_Ind OR bpf_W) 0, Stmt (bpf_Ldx OR bpf_Imm OR bpf_W) 4,
      Stmt (bpf_Ld OR bpf_Ind OR bpf_W) 0, Stmt (bpf_Ret OR bpf_A) 0]"

section \<open>One round\<close>

lemma pass_ok_Nil: "pass_ok p (optimize_round [] p)"
  by (auto simp: pass_ok_def)

lemma pass_ok_Cons:
  assumes "pass_ok p (fn p)" "fn p = Some (p, False) \<Longrightarrow> pass_ok p (optimize_round funcs p)"
  shows "pass_ok p (optimize_round (fn # funcs) p)"
proof -
  from assms(1) obtain q ch where q: "fn p = Some (q, ch)" "q = p \<and> \<not> ch \<or> ch" by (auto simp: pass_ok_def)
  show ?thesis
  proof (cases ch)
    case True
    with assms(1) q show ?thesis by simp
  next
    case False
    with assms(2) q show ?thesis by simp
  qed
qed

lemma optimize_round_ok:
  assumes wf: "wf_prog p"
  shows "pass_ok p (optimize_round (optimizer_funcs ord) p)"
proof -
  note pass = pass_cj.pass_sound pass_stcj.pass_sound pass_uj.pass_sound pass_jtr.pass_sound
    pass_zj.pass_sound pass_dc.pass_sound pass_rl.pass_sound
  note pass' = pass[OF wf TrueI]
  show ?thesis unfolding optimizer_funcs_def
  proof (intro pass_ok_Cons pass' pass_ok_Nil)
    assume "removeDeadCode p = Some (p, False)"
    then show "pass_ok p (optimizeJumpsToSmallestSetOfReturns ord p)"
      using pass_ret.pass_sound[OF wf] removeDeadCode_ok[OF wf] by blast
  qed
qed

section \<open>The loop\<close>

lemma optimize_total:
  assumes "wf_prog p"
  shows "\<exists>q. Optimize ord p = Some q \<and> wf_prog q \<and> kept q p \<and> length q \<le> length p \<and>
    optimize_round (optimizer_funcs ord) q = Some (q, False)"
  using assms
proof (induction p rule: wf_induct_rule[OF wf_opt_order])
  case (1 p)
  from optimize_round_ok[OF 1(2), of ord] obtain q ch where
    q: "optimize_round (optimizer_funcs ord) p = Some (q, ch)"
    "q = p \<and> \<not> ch \<or> ch \<and> wf_prog q \<and> kept q p \<and> length q \<le> length p \<and> (q, p) \<in> opt_order"
    unfolding pass_ok_def by blast
  show ?case
  proof (cases ch)
    case True
    with q(2) 1(1)[of q] obtain r where
      "Optimize ord q = Some r" "wf_prog r" "kept r q" "length r \<le> length q"
      "optimize_round (optimizer_funcs ord) r = Some (r, False)" by blast
    moreover have "Optimize ord p = Optimize ord q"
      unfolding Optimize_def by (subst optimize.simps) (simp add: q(1) True)
    ultimately show ?thesis using True q(2) kept_trans[of r q p] by auto
  next
    case False
    have "Optimize ord p = Some q" unfolding Optimize_def by (subst optimize.simps) (simp add: q(1) False)
    with False q 1(2) show ?thesis by simp
  qed
qed

text \<open>The loop ends only when dead code elimination has nothing left to do.\<close>

lemma optimize_round_unchanged:
  assumes "\<And>fn. fn \<in> set xs \<Longrightarrow> pass_ok p (fn p)" "optimize_round (xs @ ys) p = Some (r, False)" "fn \<in> set xs"
  shows "fn p = Some (p, False)"
  using assms
proof (induction xs)
  case (Cons g xs)
  from Cons.prems(1)[of g] obtain q ch where g: "g p = Some (q, ch)" "q = p \<and> \<not> ch \<or> ch" by (auto simp: pass_ok_def)
  with Cons.prems(2) have "q = p" "\<not> ch" by (cases ch; simp)+
  with Cons g show ?case by auto
qed simp

lemma optimized_all_reachable:
  assumes "wf_prog p" "optimize_round (optimizer_funcs ord) p = Some (p, False)"
  shows "all_reachable p"
proof -
  let ?xs = "[optimizeConditionalJumps, optimizeSameTargetConditionalJumps, optimizeUnconditionalJumps,
    optimizeJumpsToReturn, removeZeroInstructionJumps, removeDeadCode]"
  have ok: "pass_ok p (fn p)" if "fn \<in> set ?xs" for fn
    using that pass_cj.pass_sound pass_stcj.pass_sound pass_uj.pass_sound pass_jtr.pass_sound
      pass_zj.pass_sound pass_dc.pass_sound assms(1) by (auto simp del: filter_empty_conv)
  have "removeDeadCode p = Some (p, False)"
  proof (rule optimize_round_unchanged)
    show "pass_ok p (fn p)" if "fn \<in> set ?xs" for fn using that by (rule ok)
    show "optimize_round (?xs @ [removeRedundantLoads, optimizeJumpsToSmallestSetOfReturns ord]) p = Some (p, False)"
      using assms(2) by (simp add: optimizer_funcs_def)
  qed simp
  with removeDeadCode_ok[OF assms(1)] show ?thesis by blast
qed

section \<open>Validation accepts exactly the well-formed programs\<close>

lemma wf_validate_insn:
  assumes "wf_insn n pc i"
  shows "validate_insn n pc i = None"
proof -
  from assms obtain c where c: "opcode_case (OpCode i) = Some c" "case_ok c (ImmK i)"
    by (auto simp: wf_insn_def elim: insn_okE)
  have s: "list_all (\<lambda>t. t < n) (succs pc i)" using assms by (simp add: wf_insn_def)
  note s' = s[unfolded succs_case[OF c(1)]]
  show ?thesis
    using opcode_case_SomeD[OF c(1)] s' c(2) unfolding opcode_table_eval list.set
    by (elim insertE emptyE; simp add: validate_insn_def Let_def op_class_def unat_eq_0)
qed

lemma wf_last_return:
  assumes "wf_prog p"
  shows "OpCode (last p) = bpf_Ret OR bpf_K \<or> OpCode (last p) = bpf_Ret OR bpf_A"
proof -
  from assms have n: "length p - 1 < length p" and l: "last p = p ! (length p - 1)"
    by (simp_all add: wf_prog_def last_conv_nth)
  have "t \<notin> set (succs (length p - 1) (last p))" for t
    using wf_prog_succs[OF assms n, of t] succs_gt[of t "length p - 1" "last p"] l by auto
  then have "succs (length p - 1) (last p) = []" by (cases "succs (length p - 1) (last p)") auto
  then have "IsReturn (last p)" by (simp add: succs_def split: if_splits)
  from ret_value_cases[OF _ this] wf_prog_insn_ok[OF assms n] l show ?thesis by auto
qed

lemma validate_iff: "validate p = None \<longleftrightarrow> wf_prog p \<and> length p \<le> MaxInstructions"
proof
  assume "validate p = None"
  then show "wf_prog p \<and> length p \<le> MaxInstructions"
    using validate_wf[of p] by (auto simp: validate_def split: if_splits)
next
  assume a: "wf_prog p \<and> length p \<le> MaxInstructions"
  then have "validate_from (length p) 0 p = None"
    by (simp add: validate_from_None wf_prog_def wf_validate_insn)
  moreover have "p \<noteq> []" using a by (simp add: wf_prog_def)
  ultimately show "validate p = None" using a wf_last_return[of p] by (auto simp: validate_def)
qed

section \<open>Compile\<close>

lemma Exec_observe:
  "obs_equiv q p \<Longrightarrow> observe (Exec e \<lparr>instructions = q\<rparr> inp) = observe (Exec e \<lparr>instructions = p\<rparr> inp)"
  by (simp add: obs_equiv_def Exec_def)

lemma Compile_optimized:
  assumes "validate p = None"
  shows "\<exists>q. Compile ord p True = Some (Inr \<lparr>instructions = q\<rparr>) \<and> validate q = None \<and> kept q p \<and>
    length q \<le> length p \<and> all_reachable q"
proof -
  have v: "wf_prog p" "length p \<le> MaxInstructions" using assms by (simp_all add: validate_iff)
  from optimize_total[OF v(1), of ord] obtain q where
    "Optimize ord p = Some q" "wf_prog q" "kept q p" "length q \<le> length p"
    "optimize_round (optimizer_funcs ord) q = Some (q, False)" by blast
  moreover from this have "Compile ord p True = Some (Inr \<lparr>instructions = q\<rparr>)"
    using assms by (simp add: Compile_def)
  moreover have "validate q = None" "all_reachable q"
    using calculation v(2) optimized_all_reachable[of q ord] by (simp_all add: validate_iff)
  ultimately show ?thesis by blast
qed

section \<open>Properties\<close>

text \<open>
  C6. The checks of \<open>Compile\<close> accept exactly the programs that are well formed: at least one and
  at most 4096 instructions, every opcode one that the interpreter executes with an operand it
  accepts, and every successor of every instruction inside the program.
\<close>

theorem validate_exact:
  "validate p = None \<longleftrightarrow>
     p \<noteq> [] \<and> length p \<le> MaxInstructions \<and>
     list_all (\<lambda>pc. wf_insn (length p) pc (p ! pc)) [0..<length p]"
  by (auto simp: validate_iff wf_prog_def list_all_iff)

text \<open>
  C2. Optimisation ends: for every program that passes the checks, \<open>Compile\<close> with optimisation
  returns a program.  It passes the checks again, is not longer, and contains no instruction
  that control flow cannot reach.
\<close>

theorem Compile_terminates:
  assumes "validate p = None"
  shows "\<exists>q. Compile ord p True = Some (Inr q) \<and> validate (instructions q) = None \<and>
    Length q \<le> length p \<and> sreach (instructions q) = {..<Length q}"
  using Compile_optimized[OF assms, of ord] by (auto simp: Length_def all_reachable_def)

theorem Compile_terminates_witness:
  "\<exists>q. Compile id sample_insns True = Some (Inr q) \<and> validate (instructions q) = None \<and>
    Length q \<le> length sample_insns \<and> sreach (instructions q) = {..<Length q}"
  by (rule Compile_terminates) code_simp

text \<open>
  C1. Optimisation keeps behaviour.  For a program that passes the checks and loads into A only
  immediates, absolute input or the input length (the loads that seccomp filters use), the
  optimised program returns the same value as the original on every input, or fails with the
  same error code.
\<close>

theorem Compile_optimize_correct:
  assumes "validate p = None" "plain_loads p"
  shows "\<exists>q. Compile ord p True = Some (Inr q) \<and>
    (\<forall>e inp. observe (Exec e q inp) = observe (Exec e \<lparr>instructions = p\<rparr> inp))"
proof -
  from Compile_optimized[OF assms(1), of ord] obtain q where
    "Compile ord p True = Some (Inr \<lparr>instructions = q\<rparr>)" "kept q p" by blast
  with assms(2) show ?thesis by (auto simp: kept_def Exec_observe)
qed

theorem Compile_optimize_correct_witness:
  "\<exists>q. Compile id sample_insns True = Some (Inr q) \<and>
    (\<forall>e inp. observe (Exec e q inp) = observe (Exec e \<lparr>instructions = sample_insns\<rparr> inp))"
proof (rule Compile_optimize_correct)
  show "validate sample_insns = None" by code_simp
  show "plain_loads sample_insns" by code_simp
qed

section \<open>Loads relative to X\<close>

lemma indexed_loads_rounds:
  "optimize_round (optimizer_funcs id) indexed_loads =
     Some ([indexed_loads ! 0, indexed_loads ! 1, indexed_loads ! 3], True)"
  "optimize_round (optimizer_funcs id) [indexed_loads ! 0, indexed_loads ! 1, indexed_loads ! 3] =
     Some ([indexed_loads ! 0, indexed_loads ! 1, indexed_loads ! 3], False)"
  by code_simp+


end
