(* ===== verification/Bpf_Builder.thy ===== *)
theory Bpf_Builder
  imports Bpf_Interpreter "HOL-Library.AList"
begin

text \<open>
  The program builder of \<^verbatim>\<open>pkg/bpf/program_builder.go\<close>: instructions are appended one at
  a time, branches may name labels that are placed later, and \<open>Instructions\<close> replaces the
  label placeholders by offsets.  Go maps are association lists; the order in which Go visits
  the label map is the parameter \<open>ord\<close>.  Fragments record the instructions between two points
  and report where control can leave them.

  The builders that the interface can produce satisfy an invariant (\<open>built_ok\<close>), and
  resolving labels is equal to patching every placeholder at once (\<open>Instructions_spec\<close>).
\<close>


section \<open>Definitions\<close>

abbreviation labelTarget :: u8 where "labelTarget \<equiv> 255"
abbreviation labelDirectTarget :: u32 where "labelDirectTarget \<equiv> 0xffffffff"

record source =
  src_line :: nat
  src_jt :: JumpType

text \<open>The label target \<^verbatim>\<open>-1\<close> is \<open>None\<close>.\<close>

record label =
  lbl_sources :: "source list"
  lbl_target :: "nat option"

record ProgramBuilder =
  labels :: "(string \<times> label) list"
  jumpSourceToLabel :: "(source \<times> string) list"
  unusableLabels :: "string list"
  pb_insns :: "insn list"

datatype build_error =
    LabelAlreadySet string
  | TargetAlreadySet string nat
  | BackwardsReference string
  | TargetNotSet string
  | TargetBeyondEnd
  | CannotJumpBackwards
  | OffsetTooLarge string nat
  | NotALabel

definition NewProgramBuilder :: ProgramBuilder where
  "NewProgramBuilder = \<lparr>labels = [], jumpSourceToLabel = [], unusableLabels = [], pb_insns = []\<rparr>"

definition AddStmt :: "u16 \<Rightarrow> u32 \<Rightarrow> ProgramBuilder \<Rightarrow> ProgramBuilder" where
  "AddStmt code k b = b\<lparr>pb_insns := pb_insns b @ [Stmt code k]\<rparr>"

definition AddJump :: "u16 \<Rightarrow> u32 \<Rightarrow> u8 \<Rightarrow> u8 \<Rightarrow> ProgramBuilder \<Rightarrow> ProgramBuilder" where
  "AddJump code k jt jf b = b\<lparr>pb_insns := pb_insns b @ [Jump code k jt jf]\<rparr>"

text \<open>A second label at the same source panics.\<close>

definition addLabelSource :: "string \<Rightarrow> JumpType \<Rightarrow> ProgramBuilder \<Rightarrow> ProgramBuilder option" where
  "addLabelSource labelName t b =
     (let l = (case map_of (labels b) labelName of
                 None \<Rightarrow> \<lparr>lbl_sources = [], lbl_target = None\<rparr> | Some l \<Rightarrow> l);
          src = \<lparr>src_line = length (pb_insns b), src_jt = t\<rparr>;
          l = l\<lparr>lbl_sources := lbl_sources l @ [src]\<rparr>
      in if map_of (jumpSourceToLabel b) src \<noteq> None then None
         else Some (b\<lparr>labels := AList.update labelName l (labels b),
                      jumpSourceToLabel := AList.update src labelName (jumpSourceToLabel b)\<rparr>))"

definition AddDirectJumpLabel :: "string \<Rightarrow> ProgramBuilder \<Rightarrow> ProgramBuilder option" where
  "AddDirectJumpLabel labelName b =
     do { b \<leftarrow> addLabelSource labelName JumpDirect b;
          Some (AddJump (bpf_Jmp OR bpf_Ja) labelDirectTarget 0 0 b) }"

definition AddJumpTrueLabel :: "u16 \<Rightarrow> u32 \<Rightarrow> string \<Rightarrow> u8 \<Rightarrow> ProgramBuilder \<Rightarrow> ProgramBuilder option" where
  "AddJumpTrueLabel code k jtLabel jf b =
     do { b \<leftarrow> addLabelSource jtLabel JumpTrue b; Some (AddJump code k labelTarget jf b) }"

definition AddJumpFalseLabel :: "u16 \<Rightarrow> u32 \<Rightarrow> u8 \<Rightarrow> string \<Rightarrow> ProgramBuilder \<Rightarrow> ProgramBuilder option" where
  "AddJumpFalseLabel code k jt jfLabel b =
     do { b \<leftarrow> addLabelSource jfLabel JumpFalse b; Some (AddJump code k jt labelTarget b) }"

definition AddJumpLabels :: "u16 \<Rightarrow> u32 \<Rightarrow> string \<Rightarrow> string \<Rightarrow> ProgramBuilder \<Rightarrow> ProgramBuilder option" where
  "AddJumpLabels code k jtLabel jfLabel b =
     do { b \<leftarrow> addLabelSource jtLabel JumpTrue b;
          b \<leftarrow> addLabelSource jfLabel JumpFalse b;
          Some (AddJump code k labelTarget labelTarget b) }"

definition AddLabel :: "string \<Rightarrow> ProgramBuilder \<Rightarrow> build_error + ProgramBuilder" where
  "AddLabel name b =
     (case map_of (labels b) name of
        None \<Rightarrow>
          if name \<in> set (unusableLabels b) then Inl (LabelAlreadySet name)
          else Inr (b\<lparr>unusableLabels := unusableLabels b @ [name]\<rparr>)
      | Some l \<Rightarrow>
          (case lbl_target l of
             Some t \<Rightarrow> Inl (TargetAlreadySet name t)
           | None \<Rightarrow> Inr (b\<lparr>labels :=
               AList.update name (l\<lparr>lbl_target := Some (length (pb_insns b))\<rparr>) (labels b)\<rparr>)))"

text \<open>Writing the offset of one reference into its instruction.\<close>

definition set_offset :: "string \<Rightarrow> nat \<Rightarrow> JumpType \<Rightarrow> insn \<Rightarrow> build_error + insn" where
  "set_offset key offset jt inst =
     (case jt of
        JumpDirect \<Rightarrow>
          if offset > unat labelDirectTarget then Inl (OffsetTooLarge key offset)
          else if ImmK inst \<noteq> labelDirectTarget then Inl NotALabel
          else Inr (inst\<lparr>ImmK := of_nat offset\<rparr>)
      | JumpTrue \<Rightarrow>
          if offset > unat labelTarget then Inl (OffsetTooLarge key offset)
          else if JumpIfTrue inst \<noteq> labelTarget then Inl NotALabel
          else Inr (inst\<lparr>JumpIfTrue := of_nat offset\<rparr>)
      | JumpFalse \<Rightarrow>
          if offset > unat labelTarget then Inl (OffsetTooLarge key offset)
          else if JumpIfFalse inst \<noteq> labelTarget then Inl NotALabel
          else Inr (inst\<lparr>JumpIfFalse := of_nat offset\<rparr>))"

text \<open>
  The loops of \<open>resolveLabels\<close>.  The result is the instructions, partly resolved when there is
  an error; \<open>None\<close> is an index out of range.
\<close>

fun resolve_sources :: "string \<Rightarrow> nat \<Rightarrow> source list \<Rightarrow> insn list \<Rightarrow> (insn list \<times> build_error option) option" where
  "resolve_sources key target [] insns = Some (insns, None)"
| "resolve_sources key target (s # ss) insns =
     (case slice_get insns (src_line s) of
        None \<Rightarrow> None
      | Some inst \<Rightarrow>
          if src_line s \<ge> target then Some (insns, Some CannotJumpBackwards)
          else (case set_offset key (target - src_line s - 1) (src_jt s) inst of
                  Inl err \<Rightarrow> Some (insns, Some err)
                | Inr inst' \<Rightarrow> resolve_sources key target ss (insns[src_line s := inst'])))"

definition resolve_label :: "ProgramBuilder \<Rightarrow> string \<Rightarrow> insn list \<Rightarrow> (insn list \<times> build_error option) option" where
  "resolve_label b key insns =
     (case map_of (labels b) key of
        None \<Rightarrow> Some (insns, None)
      | Some v \<Rightarrow>
          if key \<in> set (unusableLabels b) then Some (insns, Some (BackwardsReference key))
          else (case lbl_target v of
                  None \<Rightarrow> Some (insns, Some (TargetNotSet key))
                | Some target \<Rightarrow>
                    if target \<ge> length insns then Some (insns, Some TargetBeyondEnd)
                    else resolve_sources key target (lbl_sources v) insns))"

fun resolve_keys :: "ProgramBuilder \<Rightarrow> string list \<Rightarrow> insn list \<Rightarrow> (insn list \<times> build_error option) option" where
  "resolve_keys b [] insns = Some (insns, None)"
| "resolve_keys b (key # keys) insns =
     (case resolve_label b key insns of
        None \<Rightarrow> None
      | Some (insns', Some err) \<Rightarrow> Some (insns', Some err)
      | Some (insns', None) \<Rightarrow> resolve_keys b keys insns')"

text \<open>\<open>ord\<close> is the order in which Go visits the keys of the label map.\<close>

definition resolveLabels ::
  "(string list \<Rightarrow> string list) \<Rightarrow> ProgramBuilder \<Rightarrow> (ProgramBuilder \<times> build_error option) option" where
  "resolveLabels ord b =
     (case resolve_keys b (ord (map fst (labels b))) (pb_insns b) of
        None \<Rightarrow> None
      | Some (insns, Some err) \<Rightarrow> Some (b\<lparr>pb_insns := insns\<rparr>, Some err)
      | Some (insns, None) \<Rightarrow> Some (b\<lparr>pb_insns := insns, labels := []\<rparr>, None))"

definition Instructions ::
  "(string list \<Rightarrow> string list) \<Rightarrow> ProgramBuilder \<Rightarrow> (insn list \<times> build_error option) option" where
  "Instructions ord b = map_option (\<lambda>(b', err). (pb_insns b', err)) (resolveLabels ord b)"

section \<open>Fragments\<close>

record ProgramFragment =
  fromPC :: nat
  toPC :: nat

text \<open>\<open>Record\<close> returns the start; the fragment is completed when its closure is called.\<close>

definition Record :: "ProgramBuilder \<Rightarrow> nat" where
  "Record b = length (pb_insns b)"

definition getFragment :: "nat \<Rightarrow> ProgramBuilder \<Rightarrow> ProgramFragment" where
  "getFragment currentPC b = \<lparr>fromPC = currentPC, toPC = length (pb_insns b)\<rparr>"

text \<open>The sets of the outcomes are duplicate-free lists.\<close>

record FragmentOutcomes =
  MayFallThrough :: bool
  MayJumpToKnownOffsetBeyondFragment :: bool
  MayJumpToUnresolvedLabels :: "string list"
  MayReturnImmediate :: "u32 list"
  MayReturnRegisterA :: bool

definition no_outcomes :: FragmentOutcomes where
  "no_outcomes = \<lparr>MayFallThrough = False, MayJumpToKnownOffsetBeyondFragment = False,
     MayJumpToUnresolvedLabels = [], MayReturnImmediate = [], MayReturnRegisterA = False\<rparr>"

definition MayReturn :: "FragmentOutcomes \<Rightarrow> bool" where
  "MayReturn out \<longleftrightarrow> length (MayReturnImmediate out) > 0 \<or> MayReturnRegisterA out"

text \<open>A jump offset whose label has been resolved away is a nil dereference.\<close>

definition outcome_jump ::
  "ProgramBuilder \<Rightarrow> nat \<Rightarrow> nat \<Rightarrow> JumpOffset \<Rightarrow> FragmentOutcomes \<Rightarrow> FragmentOutcomes option" where
  "outcome_jump b to pc jo out =
     (let known = (\<lambda>target.
            if target = to then out\<lparr>MayFallThrough := True\<rparr>
            else if target > to then out\<lparr>MayJumpToKnownOffsetBeyondFragment := True\<rparr>
            else out)
      in case map_of (jumpSourceToLabel b) \<lparr>src_line = pc, src_jt = joType jo\<rparr> of
           None \<Rightarrow> Some (known (pc + unat (joOffset jo) + 1))
         | Some name \<Rightarrow>
             (case map_of (labels b) name of
                None \<Rightarrow> None
              | Some l \<Rightarrow>
                  (case lbl_target l of
                     None \<Rightarrow> Some (out\<lparr>MayJumpToUnresolvedLabels :=
                                     List.insert name (MayJumpToUnresolvedLabels out)\<rparr>)
                   | Some target \<Rightarrow> Some (known target))))"

definition outcome_at :: "ProgramBuilder \<Rightarrow> nat \<Rightarrow> nat \<Rightarrow> FragmentOutcomes \<Rightarrow> FragmentOutcomes option" where
  "outcome_at b to pc out =
     do {
       ins \<leftarrow> slice_get (pb_insns b) pc;
       if op_class ins = bpf_Ret then
         Some (if OpCode ins = bpf_Ret OR bpf_K
               then out\<lparr>MayReturnImmediate := List.insert (ImmK ins) (MayReturnImmediate out)\<rparr>
               else if OpCode ins = bpf_Ret OR bpf_A then out\<lparr>MayReturnRegisterA := True\<rparr>
               else out)
       else if op_class ins = bpf_Jmp then foldm (outcome_jump b to pc) (JumpOffsets ins) out
       else Some (if Suc pc = to then out\<lparr>MayFallThrough := True\<rparr> else out)
     }"

definition Outcomes :: "ProgramBuilder \<Rightarrow> ProgramFragment \<Rightarrow> FragmentOutcomes option" where
  "Outcomes b f =
     (if fromPC f = toPC f then Some (no_outcomes\<lparr>MayFallThrough := True\<rparr>)
      else foldm (outcome_at b (toPC f)) [fromPC f..<toPC f] no_outcomes)"

definition MayModifyRegisterA :: "ProgramBuilder \<Rightarrow> ProgramFragment \<Rightarrow> bool" where
  "MayModifyRegisterA b f = list_ex (\<lambda>pc. ModifiesRegisterA (pb_insns b ! pc)) [fromPC f..<toPC f]"

section \<open>Specification\<close>

text \<open>Builders that the interface can produce.\<close>

inductive built :: "ProgramBuilder \<Rightarrow> bool" where
  built_new: "built NewProgramBuilder"
| built_stmt: "built b \<Longrightarrow> built (AddStmt code k b)"
| built_jump: "built b \<Longrightarrow> built (AddJump code k jt jf b)"
| built_direct: "built b \<Longrightarrow> AddDirectJumpLabel l b = Some b' \<Longrightarrow> built b'"
| built_true: "built b \<Longrightarrow> AddJumpTrueLabel code k l jf b = Some b' \<Longrightarrow> built b'"
| built_false: "built b \<Longrightarrow> AddJumpFalseLabel code k jt l b = Some b' \<Longrightarrow> built b'"
| built_both: "built b \<Longrightarrow> AddJumpLabels code k l l' b = Some b' \<Longrightarrow> built b'"
| built_label: "built b \<Longrightarrow> AddLabel l b = Inr b' \<Longrightarrow> built b'"

text \<open>The placeholder of a labelled branch, and the largest offset that fits it.\<close>

fun slot :: "JumpType \<Rightarrow> insn \<Rightarrow> bool" where
  "slot JumpDirect i \<longleftrightarrow> ImmK i = labelDirectTarget"
| "slot JumpTrue i \<longleftrightarrow> JumpIfTrue i = labelTarget"
| "slot JumpFalse i \<longleftrightarrow> JumpIfFalse i = labelTarget"

fun max_offset :: "JumpType \<Rightarrow> nat" where
  "max_offset JumpDirect = unat labelDirectTarget"
| "max_offset _ = unat labelTarget"

definition labels_ok :: "ProgramBuilder \<Rightarrow> bool" where
  "labels_ok b \<longleftrightarrow> distinct (map fst (labels b)) \<and>
     (\<forall>name l. map_of (labels b) name = Some l \<longrightarrow>
        distinct (lbl_sources l) \<and> set (lbl_sources l) = {s. map_of (jumpSourceToLabel b) s = Some name} \<and>
        (\<forall>t. lbl_target l = Some t \<longrightarrow> t \<le> length (pb_insns b))) \<and>
     (\<forall>s name. map_of (jumpSourceToLabel b) s = Some name \<longrightarrow> map_of (labels b) name \<noteq> None)"

text \<open>Every source is a placeholder of the program, or one of the pending ones \<open>X\<close>.\<close>

definition slots_ok :: "ProgramBuilder \<Rightarrow> JumpType set \<Rightarrow> bool" where
  "slots_ok b X \<longleftrightarrow> (\<forall>s name. map_of (jumpSourceToLabel b) s = Some name \<longrightarrow>
     src_line s < length (pb_insns b) \<and> slot (src_jt s) (pb_insns b ! src_line s) \<or>
     src_line s = length (pb_insns b) \<and> src_jt s \<in> X)"

definition source_target :: "ProgramBuilder \<Rightarrow> source \<Rightarrow> nat option" where
  "source_target b s =
     (case map_of (jumpSourceToLabel b) s of
        None \<Rightarrow> None
      | Some name \<Rightarrow> (case map_of (labels b) name of None \<Rightarrow> None | Some l \<Rightarrow> lbl_target l))"

text \<open>The offset of a branch whose label is resolved.\<close>

definition source_offset :: "ProgramBuilder \<Rightarrow> source set \<Rightarrow> nat \<Rightarrow> JumpType \<Rightarrow> nat option" where
  "source_offset b S i jt =
     (if \<lparr>src_line = i, src_jt = jt\<rparr> \<in> S
      then map_option (\<lambda>t. t - i - 1) (source_target b \<lparr>src_line = i, src_jt = jt\<rparr>) else None)"

definition patch :: "ProgramBuilder \<Rightarrow> source set \<Rightarrow> nat \<Rightarrow> insn \<Rightarrow> insn" where
  "patch b S i ins =
     ins\<lparr>JumpIfTrue := (case source_offset b S i JumpTrue of None \<Rightarrow> JumpIfTrue ins | Some d \<Rightarrow> of_nat d),
         JumpIfFalse := (case source_offset b S i JumpFalse of None \<Rightarrow> JumpIfFalse ins | Some d \<Rightarrow> of_nat d),
         ImmK := (case source_offset b S i JumpDirect of None \<Rightarrow> ImmK ins | Some d \<Rightarrow> of_nat d)\<rparr>"

definition patched :: "ProgramBuilder \<Rightarrow> source set \<Rightarrow> insn list" where
  "patched b S = map (\<lambda>i. patch b S i (pb_insns b ! i)) [0..<length (pb_insns b)]"

text \<open>The program with every labelled branch resolved, and when that is possible.\<close>

definition resolved :: "ProgramBuilder \<Rightarrow> insn list" where
  "resolved b = patched b UNIV"

definition source_fits :: "nat \<Rightarrow> source \<Rightarrow> bool" where
  "source_fits t s \<longleftrightarrow> src_line s < t \<and> t - src_line s - 1 \<le> max_offset (src_jt s)"

definition label_resolvable :: "ProgramBuilder \<Rightarrow> string \<times> label \<Rightarrow> bool" where
  "label_resolvable b = (\<lambda>(name, l). name \<notin> set (unusableLabels b) \<and>
     (case lbl_target l of
        None \<Rightarrow> False
      | Some t \<Rightarrow> t < length (pb_insns b) \<and> list_all (source_fits t) (lbl_sources l)))"

definition resolvable :: "ProgramBuilder \<Rightarrow> bool" where
  "resolvable b \<longleftrightarrow> list_all (label_resolvable b) (labels b)"

text \<open>What Go promises about the order in which a map is visited: every key once.\<close>

definition map_order :: "('a list \<Rightarrow> 'a list) \<Rightarrow> bool" where
  "map_order ord \<longleftrightarrow> (\<forall>ks. distinct ks \<longrightarrow> distinct (ord ks) \<and> set (ord ks) = set ks)"

text \<open>The offset a branch of an instruction jumps by.\<close>

fun branch_offset :: "JumpType \<Rightarrow> insn \<Rightarrow> nat" where
  "branch_offset JumpDirect i = unat (ImmK i)"
| "branch_offset JumpTrue i = unat (JumpIfTrue i)"
| "branch_offset JumpFalse i = unat (JumpIfFalse i)"

definition example_builder :: ProgramBuilder where
  "example_builder =
     (case do { b \<leftarrow> AddJumpTrueLabel (bpf_Jmp OR bpf_Jeq OR bpf_K) 7 ''ok'' 0 NewProgramBuilder;
                Some (AddLabel ''ok'' (AddStmt (bpf_Ret OR bpf_K) 0 b)) } of
        Some (Inr b) \<Rightarrow> AddStmt (bpf_Ret OR bpf_K) 1 b | _ \<Rightarrow> NewProgramBuilder)"

section \<open>The invariant of the builder\<close>

lemma labels_ok_new: "labels_ok NewProgramBuilder" "slots_ok NewProgramBuilder {}"
  by (simp_all add: labels_ok_def slots_ok_def NewProgramBuilder_def)

lemma labels_ok_append:
  assumes "labels_ok b"
  shows "labels_ok (b\<lparr>pb_insns := pb_insns b @ xs\<rparr>)"
  using assms by (auto simp: labels_ok_def intro: trans_le_add1)

lemma slots_ok_append:
  assumes "slots_ok b X" "\<And>t. t \<in> X \<Longrightarrow> slot t i"
  shows "slots_ok (b\<lparr>pb_insns := pb_insns b @ [i]\<rparr>) {}"
  unfolding slots_ok_def
proof (intro allI impI)
  fix s name assume "map_of (jumpSourceToLabel (b\<lparr>pb_insns := pb_insns b @ [i]\<rparr>)) s = Some name"
  then have "map_of (jumpSourceToLabel b) s = Some name" by simp
  with assms(1) have "src_line s < length (pb_insns b) \<and> slot (src_jt s) (pb_insns b ! src_line s) \<or>
     src_line s = length (pb_insns b) \<and> src_jt s \<in> X" by (simp add: slots_ok_def)
  then show "src_line s < length (pb_insns (b\<lparr>pb_insns := pb_insns b @ [i]\<rparr>)) \<and>
      slot (src_jt s) (pb_insns (b\<lparr>pb_insns := pb_insns b @ [i]\<rparr>) ! src_line s) \<or>
     src_line s = length (pb_insns (b\<lparr>pb_insns := pb_insns b @ [i]\<rparr>)) \<and> src_jt s \<in> {}"
    using assms(2) by (auto simp: nth_append)
qed

lemma addLabelSource_eq:
  assumes "addLabelSource name t b = Some b'"
  shows "map_of (jumpSourceToLabel b) \<lparr>src_line = length (pb_insns b), src_jt = t\<rparr> = None"
    "jumpSourceToLabel b' = AList.update \<lparr>src_line = length (pb_insns b), src_jt = t\<rparr> name (jumpSourceToLabel b)"
    "labels b' = AList.update name
       ((case map_of (labels b) name of None \<Rightarrow> \<lparr>lbl_sources = [], lbl_target = None\<rparr> | Some l \<Rightarrow> l)
        \<lparr>lbl_sources := lbl_sources (case map_of (labels b) name of
             None \<Rightarrow> \<lparr>lbl_sources = [], lbl_target = None\<rparr> | Some l \<Rightarrow> l) @
          [\<lparr>src_line = length (pb_insns b), src_jt = t\<rparr>]\<rparr>) (labels b)"
    "pb_insns b' = pb_insns b" "unusableLabels b' = unusableLabels b"
  using assms by (auto simp: addLabelSource_def Let_def split: if_splits)

lemma labels_ok_source:
  assumes ok: "labels_ok b" and a: "addLabelSource name t b = Some b'"
  shows "labels_ok b'"
proof -
  note e = addLabelSource_eq[OF a]
  let ?src = "\<lparr>src_line = length (pb_insns b), src_jt = t\<rparr>"
  let ?l = "case map_of (labels b) name of None \<Rightarrow> \<lparr>lbl_sources = [], lbl_target = None\<rparr> | Some l \<Rightarrow> l"
  have old: "distinct (lbl_sources ?l) \<and> set (lbl_sources ?l) = {s. map_of (jumpSourceToLabel b) s = Some name} \<and>
      (\<forall>t. lbl_target ?l = Some t \<longrightarrow> t \<le> length (pb_insns b))"
  proof (cases "map_of (labels b) name")
    case None
    then have "map_of (jumpSourceToLabel b) s \<noteq> Some name" for s
      using ok unfolding labels_ok_def by blast
    with None show ?thesis by simp
  next
    case (Some l)
    with ok show ?thesis by (simp add: labels_ok_def)
  qed
  have js: "map_of (jumpSourceToLabel b') s = (if s = ?src then Some name else map_of (jumpSourceToLabel b) s)" for s
    unfolding e(2) update_conv by simp
  have lb: "map_of (labels b') n =
      (if n = name then Some (?l\<lparr>lbl_sources := lbl_sources ?l @ [?src]\<rparr>) else map_of (labels b) n)" for n
    unfolding e(3) update_conv by simp
  have "distinct (map fst (labels b'))" unfolding e(3) by (rule distinct_update) (use ok in \<open>simp add: labels_ok_def\<close>)
  moreover have "distinct (lbl_sources l) \<and> set (lbl_sources l) = {s. map_of (jumpSourceToLabel b') s = Some n} \<and>
      (\<forall>t. lbl_target l = Some t \<longrightarrow> t \<le> length (pb_insns b'))" if "map_of (labels b') n = Some l" for n l
  proof (cases "n = name")
    case True
    with that lb have l: "l = ?l\<lparr>lbl_sources := lbl_sources ?l @ [?src]\<rparr>" by simp
    have "set (lbl_sources ?l @ [?src]) = {s. map_of (jumpSourceToLabel b') s = Some n}"
      using old True by (auto simp: js)
    moreover have "?src \<notin> set (lbl_sources ?l)" using old e(1) by simp
    ultimately show ?thesis using old unfolding l e(4) by simp
  next
    case False
    with that lb have "map_of (labels b) n = Some l" by simp
    with ok have o: "distinct (lbl_sources l)" "set (lbl_sources l) = {s. map_of (jumpSourceToLabel b) s = Some n}"
      "\<forall>t. lbl_target l = Some t \<longrightarrow> t \<le> length (pb_insns b)" by (simp_all add: labels_ok_def)
    have "{s. map_of (jumpSourceToLabel b') s = Some n} = {s. map_of (jumpSourceToLabel b) s = Some n}"
      using False e(1) by (auto simp: js)
    with o show ?thesis by (simp add: e(4))
  qed
  moreover have "map_of (labels b') n \<noteq> None" if "map_of (jumpSourceToLabel b') s = Some n" for s n
  proof (cases "n = name")
    case False
    with that js have "map_of (jumpSourceToLabel b) s = Some n" by (simp split: if_splits)
    then show ?thesis using ok False unfolding labels_ok_def lb by auto
  qed (simp add: lb)
  ultimately show ?thesis unfolding labels_ok_def by blast
qed

lemma slots_ok_source:
  assumes "slots_ok b X" "addLabelSource name t b = Some b'"
  shows "slots_ok b' (insert t X)"
  using assms(1) unfolding slots_ok_def addLabelSource_eq(2,4)[OF assms(2)] update_conv
  by (auto split: if_splits)

lemma AddLabel_keeps:
  assumes "AddLabel name b = Inr b'"
  shows "jumpSourceToLabel b' = jumpSourceToLabel b" "pb_insns b' = pb_insns b"
  using assms by (auto simp: AddLabel_def split: option.splits if_splits)

lemma labels_ok_cong:
  "labels b' = labels b \<Longrightarrow> jumpSourceToLabel b' = jumpSourceToLabel b \<Longrightarrow> pb_insns b' = pb_insns b \<Longrightarrow>
     labels_ok b' = labels_ok b"
  unfolding labels_ok_def by simp

lemma labels_ok_AddLabel:
  assumes ok: "labels_ok b" and a: "AddLabel name b = Inr b'"
  shows "labels_ok b'"
proof (cases "map_of (labels b) name")
  case None
  with a have "b' = b\<lparr>unusableLabels := unusableLabels b @ [name]\<rparr>" by (simp add: AddLabel_def split: if_splits)
  with ok show ?thesis using labels_ok_cong[of b' b] by simp
next
  case (Some l)
  let ?l = "l\<lparr>lbl_target := Some (length (pb_insns b))\<rparr>"
  from a Some have b': "b' = b\<lparr>labels := AList.update name ?l (labels b)\<rparr>"
    by (simp add: AddLabel_def split: option.splits)
  have lb: "map_of (labels b') n = (if n = name then Some ?l else map_of (labels b) n)" for n
    unfolding b' by (simp add: update_conv)
  have "distinct (map fst (labels b'))" unfolding b' by (simp add: distinct_update ok[unfolded labels_ok_def])
  with ok Some show ?thesis unfolding labels_ok_def lb by (auto simp: b')
qed

lemma slots_ok_AddLabel: "slots_ok b X \<Longrightarrow> AddLabel name b = Inr b' \<Longrightarrow> slots_ok b' X"
  unfolding slots_ok_def by (simp only: AddLabel_keeps)

lemma built_ok: "built b \<Longrightarrow> labels_ok b \<and> slots_ok b {}"
proof (induction rule: built.induct)
  case (built_label b l b')
  then show ?case using labels_ok_AddLabel slots_ok_AddLabel by blast
qed (auto simp: labels_ok_new AddStmt_def AddJump_def AddDirectJumpLabel_def AddJumpTrueLabel_def
    AddJumpFalseLabel_def AddJumpLabels_def Jump_def
    intro!: labels_ok_append slots_ok_append dest: labels_ok_source slots_ok_source)

section \<open>Resolving labels\<close>

lemma length_patched [simp]: "length (patched b S) = length (pb_insns b)"
  by (simp add: patched_def)

lemma patched_nth [simp]: "i < length (pb_insns b) \<Longrightarrow> patched b S ! i = patch b S i (pb_insns b ! i)"
  by (simp add: patched_def)

lemma patched_empty: "patched b {} = pb_insns b"
  by (rule nth_equalityI) (simp_all add: patch_def source_offset_def)

text \<open>One more reference resolved.\<close>

lemma patched_insert:
  assumes s: "src_line s < length (pb_insns b)" "source_target b s = Some t" "s \<notin> S"
    and sl: "slot (src_jt s) (pb_insns b ! src_line s)"
    and fit: "t - src_line s - 1 \<le> max_offset (src_jt s)"
  shows "\<exists>i'. set_offset key (t - src_line s - 1) (src_jt s) (patched b S ! src_line s) = Inr i' \<and>
    (patched b S)[src_line s := i'] = patched b (insert s S)"
proof -
  obtain n jt where sn: "s = \<lparr>src_line = n, src_jt = jt\<rparr>" by (cases s) auto
  define S' where "S' = insert s S"
  have off: "source_offset b S' i ty =
      (if i = n \<and> ty = jt then Some (t - n - 1) else source_offset b S i ty)" for i ty
    using s(2) by (auto simp: source_offset_def sn S'_def)
  have none: "source_offset b S n jt = None" using s(3) by (simp add: source_offset_def sn)
  let ?i = "patch b S n (pb_insns b ! n)"
  have keep: "slot jt ?i" using sl none by (cases jt) (simp_all add: sn patch_def)
  have fit': "t - n - 1 \<le> max_offset jt" using fit by (simp add: sn)
  have "set_offset key (t - n - 1) jt ?i = Inr (patch b S' n (pb_insns b ! n))"
    using keep fit' none by (cases jt) (auto simp: set_offset_def patch_def off intro!: insn.equality)
  moreover have "(patched b S)[n := patch b S' n (pb_insns b ! n)] = patched b S'"
  proof (rule nth_equalityI)
    fix i assume "i < length ((patched b S)[n := patch b S' n (pb_insns b ! n)])"
    then have i: "i < length (pb_insns b)" by simp
    show "(patched b S)[n := patch b S' n (pb_insns b ! n)] ! i = patched b S' ! i"
    proof (cases "i = n")
      case False
      then show ?thesis using i by (simp add: patch_def off)
    qed (use i in simp)
  qed simp
  ultimately show ?thesis using s(1) unfolding S'_def[symmetric] by (simp add: sn)
qed

lemma set_offset_unfit:
  assumes "offset > max_offset jt"
  shows "\<exists>err. set_offset key offset jt i = Inl err"
  using assms by (cases jt) (auto simp: set_offset_def)

lemma resolve_sources_spec:
  assumes sl: "slots_ok b {}"
    and src: "\<And>s. s \<in> set ss \<Longrightarrow> source_target b s = Some t \<and> map_of (jumpSourceToLabel b) s \<noteq> None"
    and d: "distinct ss" "set ss \<inter> S = {}"
  shows "\<exists>is err. resolve_sources key t ss (patched b S) = Some (is, err) \<and>
    (err = None \<longleftrightarrow> list_all (source_fits t) ss) \<and> (err = None \<longrightarrow> is = patched b (S \<union> set ss))"
  using src d
proof (induction ss arbitrary: S)
  case (Cons s ss)
  from Cons.prems(1)[of s] have st: "source_target b s = Some t" and
    ln: "src_line s < length (pb_insns b)" and sl': "slot (src_jt s) (pb_insns b ! src_line s)"
    using sl by (auto simp: slots_ok_def)
  show ?case
  proof (cases "source_fits t s")
    case True
    then have fit: "t - src_line s - 1 \<le> max_offset (src_jt s)" and lt: "src_line s < t"
      by (simp_all add: source_fits_def)
    from patched_insert[OF ln st _ sl' fit, of S key] Cons.prems(3) obtain i' where
      i': "set_offset key (t - src_line s - 1) (src_jt s) (patched b S ! src_line s) = Inr i'"
      "(patched b S)[src_line s := i'] = patched b (insert s S)" by auto
    have "\<exists>is err. resolve_sources key t ss (patched b (insert s S)) = Some (is, err) \<and>
      (err = None \<longleftrightarrow> list_all (source_fits t) ss) \<and> (err = None \<longrightarrow> is = patched b (insert s S \<union> set ss))"
      by (rule Cons.IH) (use Cons.prems in auto)
    with i' ln lt True show ?thesis by simp
  next
    case False
    show ?thesis
    proof (cases "src_line s < t")
      case True
      with False have "t - src_line s - 1 > max_offset (src_jt s)" by (simp add: source_fits_def)
      from set_offset_unfit[OF this, of key "patched b S ! src_line s"] obtain err where
        "set_offset key (t - src_line s - 1) (src_jt s) (patched b S ! src_line s) = Inl err" by blast
      with True False ln show ?thesis by simp
    qed (use False ln in simp)
  qed
qed simp

lemma resolve_label_spec:
  assumes ok: "labels_ok b" "slots_ok b {}" and l: "map_of (labels b) key = Some l"
    and S: "S \<inter> {s. map_of (jumpSourceToLabel b) s = Some key} = {}"
  shows "\<exists>is err. resolve_label b key (patched b S) = Some (is, err) \<and>
    (err = None \<longleftrightarrow> label_resolvable b (key, l)) \<and>
    (err = None \<longrightarrow> is = patched b (S \<union> {s. map_of (jumpSourceToLabel b) s = Some key}))"
proof (cases "key \<notin> set (unusableLabels b) \<and> (\<exists>t. lbl_target l = Some t \<and> t < length (pb_insns b))")
  case True
  then obtain t where t: "lbl_target l = Some t" "t < length (pb_insns b)" by blast
  have o: "distinct (lbl_sources l)" "set (lbl_sources l) = {s. map_of (jumpSourceToLabel b) s = Some key}"
    using ok(1) l by (simp_all add: labels_ok_def)
  have "\<exists>is err. resolve_sources key t (lbl_sources l) (patched b S) = Some (is, err) \<and>
    (err = None \<longleftrightarrow> list_all (source_fits t) (lbl_sources l)) \<and>
    (err = None \<longrightarrow> is = patched b (S \<union> set (lbl_sources l)))"
    by (rule resolve_sources_spec[OF ok(2)]) (use o S l t in \<open>auto simp: source_target_def\<close>)
  with True t l o(2) show ?thesis by (simp add: resolve_label_def label_resolvable_def)
qed (use l in \<open>auto simp: resolve_label_def label_resolvable_def split: option.splits\<close>)

lemma resolve_keys_spec:
  assumes ok: "labels_ok b" "slots_ok b {}"
    and "distinct keys" "set keys \<subseteq> set (map fst (labels b))"
    and "S \<inter> {s. \<exists>key \<in> set keys. map_of (jumpSourceToLabel b) s = Some key} = {}"
  shows "\<exists>is err. resolve_keys b keys (patched b S) = Some (is, err) \<and>
    (err = None \<longleftrightarrow> (\<forall>key \<in> set keys. label_resolvable b (key, the (map_of (labels b) key)))) \<and>
    (err = None \<longrightarrow> is = patched b (S \<union> {s. \<exists>key \<in> set keys. map_of (jumpSourceToLabel b) s = Some key}))"
  using assms(3-5)
proof (induction keys arbitrary: S)
  case (Cons key keys)
  from Cons.prems(2) obtain l where l: "map_of (labels b) key = Some l"
    by (metis list.set_intros(1) list.set_map map_of_eq_None_iff not_Some_eq subset_iff)
  let ?K = "{s. map_of (jumpSourceToLabel b) s = Some key}"
  have "S \<inter> ?K = {}" using Cons.prems(3) by auto
  from resolve_label_spec[OF ok l this] obtain is1 err where
    r: "resolve_label b key (patched b S) = Some (is1, err)" "err = None \<longleftrightarrow> label_resolvable b (key, l)"
    "err = None \<longrightarrow> is1 = patched b (S \<union> ?K)" by blast
  show ?case
  proof (cases err)
    case None
    have "\<exists>is err. resolve_keys b keys (patched b (S \<union> ?K)) = Some (is, err) \<and>
      (err = None \<longleftrightarrow> (\<forall>key \<in> set keys. label_resolvable b (key, the (map_of (labels b) key)))) \<and>
      (err = None \<longrightarrow> is = patched b ((S \<union> ?K) \<union> {s. \<exists>key \<in> set keys. map_of (jumpSourceToLabel b) s = Some key}))"
      by (rule Cons.IH) (use Cons.prems in auto)
    moreover have "(S \<union> ?K) \<union> {s. \<exists>key \<in> set keys. map_of (jumpSourceToLabel b) s = Some key} =
      S \<union> {s. \<exists>k \<in> set (key # keys). map_of (jumpSourceToLabel b) s = Some k}" by auto
    ultimately show ?thesis using r None l by simp
  next
    case (Some e)
    with r l show ?thesis by auto
  qed
qed simp

lemma patched_all:
  assumes "\<And>s name. map_of (jumpSourceToLabel b) s = Some name \<Longrightarrow> s \<in> S"
  shows "patched b S = resolved b"
proof -
  have "source_offset b S i jt = source_offset b UNIV i jt" for i jt
    using assms by (auto simp: source_offset_def source_target_def split: option.splits)
  then show ?thesis by (simp add: resolved_def patched_def patch_def)
qed

lemma Instructions_spec:
  assumes b: "built b" and ord: "map_order ord"
  shows "\<exists>is err. Instructions ord b = Some (is, err) \<and> (err = None \<longleftrightarrow> resolvable b) \<and>
    (err = None \<longrightarrow> is = resolved b)"
proof -
  have ok: "labels_ok b" "slots_ok b {}" using built_ok[OF b] by auto
  then have dk: "distinct (map fst (labels b))" by (simp add: labels_ok_def)
  let ?keys = "ord (map fst (labels b))"
  have o: "distinct ?keys" "set ?keys = set (map fst (labels b))" using ord dk by (auto simp: map_order_def)
  from resolve_keys_spec[OF ok o(1), of "{}"] o(2) obtain is1 err where
    r: "resolve_keys b ?keys (pb_insns b) = Some (is1, err)"
    "err = None \<longleftrightarrow> (\<forall>key \<in> set ?keys. label_resolvable b (key, the (map_of (labels b) key)))"
    "err = None \<longrightarrow> is1 = patched b {s. \<exists>key \<in> set ?keys. map_of (jumpSourceToLabel b) s = Some key}"
    by (auto simp: patched_empty)
  have "(\<forall>key \<in> set ?keys. label_resolvable b (key, the (map_of (labels b) key))) \<longleftrightarrow> resolvable b"
    unfolding o(2) resolvable_def list_all_iff using dk by (auto simp: map_of_eq_Some_iff)
  moreover have "patched b {s. \<exists>key \<in> set ?keys. map_of (jumpSourceToLabel b) s = Some key} = resolved b"
  proof (rule patched_all)
    fix s name assume s: "map_of (jumpSourceToLabel b) s = Some name"
    with ok(1) have "map_of (labels b) name \<noteq> None" unfolding labels_ok_def by blast
    with s o(2) show "s \<in> {s. \<exists>key \<in> set ?keys. map_of (jumpSourceToLabel b) s = Some key}"
      by (auto simp: map_of_eq_None_iff)
  qed
  ultimately show ?thesis using r
    by (cases err) (auto simp: Instructions_def resolveLabels_def)
qed

lemma resolved_branch:
  assumes b: "built b" and r: "resolvable b" and i: "i < length (pb_insns b)"
  shows "case source_target b \<lparr>src_line = i, src_jt = jt\<rparr> of
      None \<Rightarrow> branch_offset jt (resolved b ! i) = branch_offset jt (pb_insns b ! i)
    | Some t \<Rightarrow> t < length (pb_insns b) \<and> i + branch_offset jt (resolved b ! i) + 1 = t"
proof (cases "source_target b \<lparr>src_line = i, src_jt = jt\<rparr>")
  case None
  then show ?thesis using i by (cases jt) (simp_all add: resolved_def patch_def source_offset_def)
next
  case (Some t)
  then obtain name l where n: "map_of (jumpSourceToLabel b) \<lparr>src_line = i, src_jt = jt\<rparr> = Some name"
    "map_of (labels b) name = Some l" "lbl_target l = Some t"
    by (auto simp: source_target_def split: option.splits)
  have "labels_ok b" using built_ok[OF b] by simp
  with n have s: "\<lparr>src_line = i, src_jt = jt\<rparr> \<in> set (lbl_sources l)" by (simp add: labels_ok_def)
  have "label_resolvable b (name, l)" using r map_of_SomeD[OF n(2)] by (simp add: resolvable_def list_all_iff)
  with n(3) s have f: "t < length (pb_insns b)" "i < t" "t - i - 1 \<le> max_offset jt"
    by (auto simp: label_resolvable_def list_all_iff source_fits_def)
  have "branch_offset jt (resolved b ! i) = t - i - 1"
    using f(3) i Some by (cases jt)
      (simp_all add: resolved_def patch_def source_offset_def unat_of_nat_u8 unat_of_nat_u32)
  with Some f show ?thesis by simp
qed


lemma example_builder_built: "built example_builder"
proof -
  obtain b1 where b1: "AddJumpTrueLabel (bpf_Jmp OR bpf_Jeq OR bpf_K) 7 ''ok'' 0 NewProgramBuilder = Some b1"
    by (simp add: AddJumpTrueLabel_def addLabelSource_def NewProgramBuilder_def Let_def)
  moreover obtain b2 where b2: "AddLabel ''ok'' (AddStmt (bpf_Ret OR bpf_K) 0 b1) = Inr b2"
    using b1 by (auto simp: AddJumpTrueLabel_def addLabelSource_def NewProgramBuilder_def Let_def AddLabel_def
        AddStmt_def AddJump_def)
  ultimately have "example_builder = AddStmt (bpf_Ret OR bpf_K) 1 b2" by (simp add: example_builder_def)
  then show ?thesis
    using built.built_stmt[OF built.built_label[OF built.built_stmt[OF built.built_true[OF built.built_new b1]] b2],
        of "bpf_Ret OR bpf_K" 1] by (simp only:)
qed


end
