(* ===== verification/Go_Format.thy ===== *)
theory Go_Format
  imports Prelude
begin

text \<open>
  The number formatting of Go's \<^verbatim>\<open>fmt\<close> and \<^verbatim>\<open>strconv\<close> packages as the
  development uses it: \<^verbatim>\<open>%d\<close>, \<^verbatim>\<open>%x\<close>, \<^verbatim>\<open>%#x\<close> and
  \<^verbatim>\<open>%04x\<close> of unsigned numbers, \<^verbatim>\<open>strconv.ParseUint\<close> in a given base,
  \<^verbatim>\<open>strings.Index\<close> of one character and \<^verbatim>\<open>strings.Join\<close>.  Reading back what
  was printed gives the number, so printing is injective.
\<close>

section \<open>Definitions\<close>

definition digit_char :: "nat \<Rightarrow> char" where
  "digit_char d = char_of (if d < 10 then 48 + d else 87 + d)"

function base_string :: "nat \<Rightarrow> nat \<Rightarrow> string" where
  "base_string b n =
     (if b < 2 \<or> n < b then [digit_char n] else base_string b (n div b) @ [digit_char (n mod b)])"
  by pat_completeness auto
termination by (relation "measure snd") auto

declare base_string.simps [simp del]

definition fmt_d :: "nat \<Rightarrow> string" where
  "fmt_d n = base_string 10 n"

definition fmt_x :: "nat \<Rightarrow> string" where
  "fmt_x n = base_string 16 n"

text \<open>\<^verbatim>\<open>%#x\<close>.\<close>

definition fmt_0x :: "nat \<Rightarrow> string" where
  "fmt_0x n = ''0x'' @ fmt_x n"

text \<open>\<^verbatim>\<open>%04x\<close>.\<close>

definition fmt_04x :: "nat \<Rightarrow> string" where
  "fmt_04x n = (let s = fmt_x n in replicate (4 - length s) (CHR ''0'') @ s)"

text \<open>The digits that \<^verbatim>\<open>ParseUint\<close> accepts, in both cases.\<close>

definition digit_val :: "char \<Rightarrow> nat option" where
  "digit_val c =
     (let v = of_char c :: nat in
      if 48 \<le> v \<and> v \<le> 57 then Some (v - 48)
      else if 97 \<le> v \<and> v \<le> 122 then Some (v - 87)
      else if 65 \<le> v \<and> v \<le> 90 then Some (v - 55)
      else None)"

fun parse_from :: "nat \<Rightarrow> nat \<Rightarrow> string \<Rightarrow> nat option" where
  "parse_from b acc [] = Some acc"
| "parse_from b acc (c # cs) =
     (case digit_val c of
        None \<Rightarrow> None
      | Some d \<Rightarrow> if d < b then parse_from b (acc * b + d) cs else None)"

text \<open>\<^verbatim>\<open>strconv.ParseUint(s, base, bits)\<close>: an empty string, a bad digit and a value out of range are errors.\<close>

definition ParseUint :: "string \<Rightarrow> nat \<Rightarrow> nat \<Rightarrow> nat option" where
  "ParseUint s b bits =
     (if s = [] then None
      else case parse_from b 0 s of
        None \<Rightarrow> None
      | Some n \<Rightarrow> if n < 2 ^ bits then Some n else None)"

fun strings_Index :: "char \<Rightarrow> string \<Rightarrow> nat option" where
  "strings_Index c [] = None"
| "strings_Index c (x # xs) = (if x = c then Some 0 else map_option Suc (strings_Index c xs))"

fun strings_Join :: "string list \<Rightarrow> string \<Rightarrow> string" where
  "strings_Join [] sep = []"
| "strings_Join [s] sep = s"
| "strings_Join (s # ss) sep = s @ sep @ strings_Join ss sep"

text \<open>\<^verbatim>\<open>strings.Contains\<close>, and \<^verbatim>\<open>strings.ReplaceAll\<close> of a non-empty text.\<close>

fun strings_Contains :: "string \<Rightarrow> string \<Rightarrow> bool" where
  "strings_Contains [] sub \<longleftrightarrow> sub = []"
| "strings_Contains (c # cs) sub \<longleftrightarrow> take (length sub) (c # cs) = sub \<or> strings_Contains cs sub"

function strings_ReplaceAll :: "string \<Rightarrow> string \<Rightarrow> string \<Rightarrow> string" where
  "strings_ReplaceAll s old new =
     (if s = [] \<or> old = [] then s
      else if take (length old) s = old then new @ strings_ReplaceAll (drop (length old) s) old new
      else hd s # strings_ReplaceAll (tl s) old new)"
  by pat_completeness auto
termination by (relation "measure (\<lambda>(s, old, new). length s)") auto

declare strings_ReplaceAll.simps [simp del]

text \<open>\<^verbatim>\<open>strings.TrimSpace\<close> of ASCII text.\<close>

definition is_space :: "char \<Rightarrow> bool" where
  "is_space c \<longleftrightarrow> of_char c \<in> {9, 10, 11, 12, 13, 32 :: nat}"

definition strings_TrimSpace :: "string \<Rightarrow> string" where
  "strings_TrimSpace s = rev (dropWhile is_space (rev (dropWhile is_space s)))"

section \<open>Digits\<close>

lemma digit_val_digit_char: "d < 16 \<Longrightarrow> digit_val (digit_char d) = Some d"
  by (simp add: digit_val_def digit_char_def Let_def)

lemma parse_from_append:
  "parse_from b acc (xs @ ys) = Option.bind (parse_from b acc xs) (\<lambda>a. parse_from b a ys)"
  by (induction xs arbitrary: acc) (auto split: option.split)

lemma parse_base_string:
  assumes "2 \<le> b" "b \<le> 16"
  shows "parse_from b 0 (base_string b n) = Some n"
  using assms
proof (induction b n rule: base_string.induct)
  case (1 b n)
  show ?case
  proof (cases "n < b")
    case True
    then show ?thesis using 1(2,3)
      by (subst base_string.simps) (simp add: digit_val_digit_char)
  next
    case False
    have "n mod b < b" using 1(2) by simp
    moreover from this have "n mod b < 16" using 1(3) by simp
    ultimately show ?thesis using 1 False
      by (subst base_string.simps) (simp add: parse_from_append digit_val_digit_char)
  qed
qed

lemma base_string_inj: "2 \<le> b \<Longrightarrow> b \<le> 16 \<Longrightarrow> base_string b m = base_string b n \<Longrightarrow> m = n"
  by (metis option.inject parse_base_string)

lemma fmt_d_inj [simp]: "fmt_d m = fmt_d n \<longleftrightarrow> m = n"
  using base_string_inj[of 10 m n] by (auto simp: fmt_d_def)

lemma fmt_x_inj [simp]: "fmt_x m = fmt_x n \<longleftrightarrow> m = n"
  using base_string_inj[of 16 m n] by (auto simp: fmt_x_def)

lemma fmt_0x_inj [simp]: "fmt_0x m = fmt_0x n \<longleftrightarrow> m = n"
  by (simp add: fmt_0x_def)

lemma base_string_nonempty [simp]: "base_string b n \<noteq> []"
  by (subst base_string.simps) simp

lemma parse_from_digits: "parse_from b acc s = Some n \<Longrightarrow> c \<in> set s \<Longrightarrow> digit_val c \<noteq> None"
  by (induction s arbitrary: acc) (auto split: option.splits if_splits)

lemma base_string_digits: "2 \<le> b \<Longrightarrow> b \<le> 16 \<Longrightarrow> c \<in> set (base_string b n) \<Longrightarrow> digit_val c \<noteq> None"
  by (rule parse_from_digits[OF parse_base_string])

lemma fmt_d_digits: "c \<in> set (fmt_d n) \<Longrightarrow> digit_val c \<noteq> None"
  and fmt_x_digits: "c \<in> set (fmt_x n) \<Longrightarrow> digit_val c \<noteq> None"
  by (auto simp: fmt_d_def fmt_x_def dest: base_string_digits[rotated 2])

section \<open>Reading back\<close>

lemma parse_leading_zeros: "parse_from 16 0 (replicate k (CHR ''0'') @ s) = parse_from 16 0 s"
  by (induction k) (simp_all add: digit_val_def)

lemma ParseUint_fmt_04x: "n < 65536 \<Longrightarrow> ParseUint (fmt_04x n) 16 16 = Some n"
  by (simp add: ParseUint_def fmt_04x_def Let_def parse_leading_zeros fmt_x_def parse_base_string)

lemma strings_Index_append:
  "c \<notin> set xs \<Longrightarrow> strings_Index c (xs @ c # ys) = Some (length xs)"
  by (induction xs) auto

lemma strings_Index_None: "strings_Index c s = None \<longleftrightarrow> c \<notin> set s"
  by (induction s) auto

end
