(* ===== verification/Seccomp_Program.thy ===== *)
theory Seccomp_Program
  imports Bpf_Builder Go_Format
begin

text \<open>
  The layer of \<^verbatim>\<open>pkg/seccomp/seccomp.go\<close> between the rules and the program builder:
  \<open>syscallProgram\<close> with its jumps, labels and fragment assertions, \<open>labelSet\<close>, which
  invents label names, and \<open>matchedValue\<close>, which loads the halves of a 64-bit value.

  A \<^verbatim>\<open>syscallProgram\<close> is a pointer to a program builder, so its operations take the builder
  and return the updated one; \<open>None\<close> is a panic.  A \<^verbatim>\<open>labelSet\<close> has a counter that
  \<open>NewLabel\<close> increments, so \<open>NewLabel\<close> returns the updated set.
\<close>

section \<open>Definitions\<close>

subsection \<open>syscallProgram\<close>

type_synonym syscallProgram = ProgramBuilder

abbreviation skipOneInst :: u8 where "skipOneInst \<equiv> 1"
abbreviation defaultLabel :: string where "defaultLabel \<equiv> ''default_action''"
abbreviation vsyscallPageIPMask :: u32 where "vsyscallPageIPMask \<equiv> 0x80000000"

definition sp_Stmt :: "u16 \<Rightarrow> u32 \<Rightarrow> syscallProgram \<Rightarrow> syscallProgram" where
  "sp_Stmt code k s = AddStmt code k s"

definition JumpTo :: "string \<Rightarrow> syscallProgram \<Rightarrow> syscallProgram option" where
  "JumpTo lbl s = AddDirectJumpLabel lbl s"

definition sp_If :: "u16 \<Rightarrow> u32 \<Rightarrow> string \<Rightarrow> syscallProgram \<Rightarrow> syscallProgram option" where
  "sp_If code k jt s = JumpTo jt (AddJump code k 0 skipOneInst s)"

definition IfNot :: "u16 \<Rightarrow> u32 \<Rightarrow> string \<Rightarrow> syscallProgram \<Rightarrow> syscallProgram option" where
  "IfNot code k jf s = JumpTo jf (AddJump code k skipOneInst 0 s)"

definition sp_Ret :: "u32 \<Rightarrow> syscallProgram \<Rightarrow> syscallProgram" where
  "sp_Ret action s = sp_Stmt (bpf_Ret OR bpf_K) action s"

definition sp_Label :: "string \<Rightarrow> syscallProgram \<Rightarrow> syscallProgram option" where
  "sp_Label lbl s = (case AddLabel lbl s of Inl err \<Rightarrow> None | Inr s' \<Rightarrow> Some s')"

text \<open>
  A fragment is the program counter at which recording started.  The assertions return the
  program unchanged, or panic.
\<close>

definition sp_Record :: "syscallProgram \<Rightarrow> nat" where
  "sp_Record s = Record s"

definition MustHaveJumpedToOrReturned ::
  "nat \<Rightarrow> string list \<Rightarrow> u32 list \<Rightarrow> syscallProgram \<Rightarrow> syscallProgram option" where
  "MustHaveJumpedToOrReturned frag possibleLabels possibleReturnValues s =
     do {
       outcomes \<leftarrow> Outcomes s (getFragment frag s);
       if MayFallThrough outcomes then None
       else if possibleReturnValues = [] \<and> MayReturn outcomes then None
       else if MayReturnRegisterA outcomes then None
       else if MayJumpToKnownOffsetBeyondFragment outcomes then None
       else if \<not> list_all (\<lambda>jumpLabel. jumpLabel \<in> set possibleLabels) (MayJumpToUnresolvedLabels outcomes) then None
       else if \<not> list_all (\<lambda>returnValue. returnValue \<in> set possibleReturnValues) (MayReturnImmediate outcomes) then None
       else Some s
     }"

definition MustHaveJumpedTo :: "nat \<Rightarrow> string list \<Rightarrow> syscallProgram \<Rightarrow> syscallProgram option" where
  "MustHaveJumpedTo frag ls s = MustHaveJumpedToOrReturned frag ls [] s"

subsection \<open>labelSet\<close>

record labelSet =
  ls_prefix :: string
  labelCounter :: nat
  Matched :: string
  Mismatched :: string

definition NewLabel :: "labelSet \<Rightarrow> string \<times> labelSet" where
  "NewLabel l = (ls_prefix l @ ''#'' @ fmt_d (labelCounter l), l\<lparr>labelCounter := labelCounter l + 1\<rparr>)"

definition Push :: "string \<Rightarrow> string \<Rightarrow> string \<Rightarrow> labelSet \<Rightarrow> labelSet" where
  "Push labelSuffix newRuleMatch newRuleMismatch l =
     \<lparr>ls_prefix = (if ls_prefix l \<noteq> '''' then ls_prefix l @ ''_'' @ labelSuffix else labelSuffix),
      labelCounter = 0, Matched = newRuleMatch, Mismatched = newRuleMismatch\<rparr>"

subsection \<open>matchedValue\<close>

record matchedValue =
  dataOffsetHigh :: u32
  dataOffsetLow :: u32

definition LoadHigh32Bits :: "matchedValue \<Rightarrow> syscallProgram \<Rightarrow> syscallProgram" where
  "LoadHigh32Bits m s = sp_Stmt (bpf_Ld OR bpf_Abs OR bpf_W) (dataOffsetHigh m) s"

definition LoadLow32Bits :: "matchedValue \<Rightarrow> syscallProgram \<Rightarrow> syscallProgram" where
  "LoadLow32Bits m s = sp_Stmt (bpf_Ld OR bpf_Abs OR bpf_W) (dataOffsetLow m) s"

end
