(* ===== verification/Seccomp_Fragment.thy ===== *)
theory Seccomp_Fragment
  imports Seccomp_Program
begin

text \<open>
  What a piece of code does that is appended to a program builder.  \<open>renders b b' S L R K out\<close>
  says everything about the code between the builders \<open>b\<close> and \<open>b'\<close>: it places only labels of \<open>S\<close>,
  leaves only through labels of \<open>L\<close> or by returning a value of \<open>R\<close>, and in every final program it
  behaves like \<open>out\<close>, a function of the words of the input and of register A to a label or a return
  value; on the way to the labels in \<open>K\<close> register A is kept.

  The rules \<open>renders_jump\<close>, \<open>renders_ret\<close>, \<open>renders_load\<close>, \<open>renders_and\<close> and \<open>renders_cond\<close> are for single
  instructions, \<open>renders_seq\<close> joins two pieces by a label, and \<open>renders_assertion\<close> shows that the
  run-time assertions of the code generator hold.
\<close>

section \<open>Definitions\<close>

text \<open>Where a label has been placed, whether it is placed, and whether it has been mentioned.\<close>

definition target :: "ProgramBuilder \<Rightarrow> string \<Rightarrow> nat option" where
  "target b l = Option.bind (map_of (labels b) l) lbl_target"

definition placed :: "ProgramBuilder \<Rightarrow> string \<Rightarrow> bool" where
  "placed b l \<longleftrightarrow> target b l \<noteq> None \<or> l \<in> set (unusableLabels b)"

definition known :: "ProgramBuilder \<Rightarrow> string \<Rightarrow> bool" where
  "known b l \<longleftrightarrow> map_of (labels b) l \<noteq> None \<or> l \<in> set (unusableLabels b)"

definition src_at :: "ProgramBuilder \<Rightarrow> nat \<Rightarrow> string option" where
  "src_at b i = map_of (jumpSourceToLabel b) \<lparr>src_line = i, src_jt = JumpDirect\<rparr>"

abbreviation len :: "ProgramBuilder \<Rightarrow> nat" where
  "len b \<equiv> length (pb_insns b)"

text \<open>Builders in which all labelled branches are unconditional jumps.\<close>

definition direct :: "ProgramBuilder \<Rightarrow> bool" where
  "direct b \<longleftrightarrow> built b \<and>
     (\<forall>s l. map_of (jumpSourceToLabel b) s = Some l \<longrightarrow> src_jt s = JumpDirect) \<and>
     (\<forall>l lab. map_of (labels b) l = Some lab \<longrightarrow> lbl_sources lab \<noteq> [] \<and> l \<notin> set (unusableLabels b))"

text \<open>
  Control can leave the instructions from \<open>lo\<close> on only through a label of \<open>L\<close> or by returning a
  value of \<open>R\<close>.
\<close>

definition leaves_ok :: "ProgramBuilder \<Rightarrow> string set \<Rightarrow> u32 set \<Rightarrow> nat \<Rightarrow> bool" where
  "leaves_ok b L R i \<longleftrightarrow>
     (let ins = pb_insns b ! i; op = OpCode ins in
      if op = 0x06 then ImmK ins \<in> R
      else if op = 0x05 then
        (case src_at b i of
           None \<Rightarrow> False
         | Some l \<Rightarrow> (case target b l of None \<Rightarrow> l \<in> L | Some t \<Rightarrow> i < t \<and> t < len b))
      else if op \<in> {0x15, 0x25, 0x35, 0x45} then
        i + unat (JumpIfTrue ins) + 1 < len b \<and> i + unat (JumpIfFalse ins) + 1 < len b
      else op \<in> {0x20, 0x54} \<and> Suc i < len b)"

definition closed :: "ProgramBuilder \<Rightarrow> nat \<Rightarrow> string set \<Rightarrow> u32 set \<Rightarrow> bool" where
  "closed b lo L R \<longleftrightarrow> (\<forall>i. lo \<le> i \<and> i < len b \<longrightarrow> leaves_ok b L R i)"

definition ext :: "ProgramBuilder \<Rightarrow> ProgramBuilder \<Rightarrow> bool" where
  "ext b b' \<longleftrightarrow> (\<exists>xs. pb_insns b' = pb_insns b @ xs) \<and> (\<forall>i < len b. src_at b' i = src_at b i) \<and>
     (\<forall>l t. target b l = Some t \<longrightarrow> target b' l = Some t) \<and> set (unusableLabels b) \<subseteq> set (unusableLabels b')"

text \<open>A final program \<open>I\<close> with the places \<open>T\<close> of all labels, as far as the builder determines them.\<close>

definition insn_agrees :: "insn list \<Rightarrow> (string \<Rightarrow> nat) \<Rightarrow> nat \<Rightarrow> string option \<Rightarrow> insn \<Rightarrow> bool" where
  "insn_agrees I T i src ins \<longleftrightarrow>
     (case src of
        None \<Rightarrow> I ! i = ins
      | Some l \<Rightarrow> i < T l \<and> T l < length I \<and> T l - i - 1 < 2 ^ 32 \<and> I ! i = ins\<lparr>ImmK := of_nat (T l - i - 1)\<rparr>)"

definition agrees :: "ProgramBuilder \<Rightarrow> insn list \<Rightarrow> (string \<Rightarrow> nat) \<Rightarrow> bool" where
  "agrees b I T \<longleftrightarrow> len b \<le> length I \<and>
     (\<forall>i < len b. insn_agrees I T i (src_at b i) (pb_insns b ! i)) \<and>
     (\<forall>l t. target b l = Some t \<longrightarrow> T l = t)"

text \<open>The words of the system call data, and the data they make up.\<close>

definition readable :: "Endianness \<Rightarrow> Input \<Rightarrow> (u32 \<Rightarrow> u32) \<Rightarrow> bool" where
  "readable e inp w \<longleftrightarrow> (\<forall>i < 16. load32 e inp (of_nat (4 * i)) = Some (w (of_nat (4 * i))))"

definition leads :: "Endianness \<Rightarrow> Input \<Rightarrow> insn list \<Rightarrow> (string \<Rightarrow> nat) \<Rightarrow> nat \<Rightarrow> machine \<Rightarrow> string set \<Rightarrow> string + u32 \<Rightarrow> bool" where
  "leads e inp I T pc m K x \<longleftrightarrow>
     (case x of
        Inl l \<Rightarrow> (\<exists>m'. (l \<in> K \<longrightarrow> regA m' = regA m) \<and> exec_from e inp I pc m = exec_from e inp I (T l) m')
      | Inr v \<Rightarrow> exec_from e inp I pc m = Some (Inr v))"

definition computes :: "ProgramBuilder \<Rightarrow> nat \<Rightarrow> string set \<Rightarrow> ((u32 \<Rightarrow> u32) \<Rightarrow> u32 \<Rightarrow> string + u32) \<Rightarrow> bool" where
  "computes b lo K out \<longleftrightarrow> (\<forall>e inp w I T m. readable e inp w \<longrightarrow> agrees b I T \<longrightarrow>
     leads e inp I T lo m K (out w (regA m)))"

text \<open>
  Everything that matters about the code added between \<open>b\<close> and \<open>b'\<close>: it places only labels of \<open>S\<close>,
  leaves through \<open>L\<close> or by returning a value of \<open>R\<close>, and does what \<open>out\<close> says, keeping register A on
  the way to the labels in \<open>K\<close>.
\<close>

definition renders ::
  "ProgramBuilder \<Rightarrow> ProgramBuilder \<Rightarrow> string set \<Rightarrow> string set \<Rightarrow> u32 set \<Rightarrow> string set \<Rightarrow>
     ((u32 \<Rightarrow> u32) \<Rightarrow> u32 \<Rightarrow> string + u32) \<Rightarrow> bool" where
  "renders b b' S L R K out \<longleftrightarrow> direct b' \<and> ext b b' \<and> len b < len b' \<and> closed b' (len b) L R \<and>
     (\<forall>l. placed b' l \<longrightarrow> placed b l \<or> l \<in> S) \<and> (\<forall>l. known b' l \<longrightarrow> known b l \<or> l \<in> S \<or> l \<in> L) \<and>
     computes b' (len b) K out"

text \<open>The comparison that a conditional jump makes.\<close>

definition jump_holds :: "u16 \<Rightarrow> u32 \<Rightarrow> u32 \<Rightarrow> bool" where
  "jump_holds c k a =
     (if c = 0x15 then a = k else if c = 0x25 then a > k else if c = 0x35 then a \<ge> k else a AND k \<noteq> 0)"

abbreviation cond_op :: "u16 \<Rightarrow> bool" where
  "cond_op c \<equiv> c \<in> {0x15, 0x25, 0x35, 0x45}"

definition word_offset :: "u32 \<Rightarrow> bool" where
  "word_offset off \<longleftrightarrow> (\<exists>i < 16. off = of_nat (4 * i))"

definition outcomes_in :: "string set \<Rightarrow> u32 set \<Rightarrow> FragmentOutcomes \<Rightarrow> bool" where
  "outcomes_in L R out \<longleftrightarrow> \<not> MayFallThrough out \<and> \<not> MayJumpToKnownOffsetBeyondFragment out \<and>
     \<not> MayReturnRegisterA out \<and> set (MayJumpToUnresolvedLabels out) \<subseteq> L \<and> set (MayReturnImmediate out) \<subseteq> R"

section \<open>Operations of the builder\<close>

lemma placed_known: "placed b l \<Longrightarrow> known b l"
  by (auto simp: placed_def known_def target_def)

lemma direct_new: "direct NewProgramBuilder"
  by (auto simp: direct_def NewProgramBuilder_def intro: built.built_new[unfolded NewProgramBuilder_def])

lemma direct_no_source: "direct b \<Longrightarrow> len b \<le> src_line s \<Longrightarrow> map_of (jumpSourceToLabel b) s = None"
  using built_ok[of b] by (auto simp: direct_def slots_ok_def)

lemma direct_src_label:
  assumes "direct b" "src_at b i = Some l"
  shows "i < len b" "map_of (labels b) l \<noteq> None" "l \<notin> set (unusableLabels b)"
proof -
  have ok: "labels_ok b" "slots_ok b {}" using built_ok[of b] assms(1) by (auto simp: direct_def)
  show "map_of (labels b) l \<noteq> None" using ok(1) assms(2) unfolding labels_ok_def src_at_def by blast
  then show "l \<notin> set (unusableLabels b)" using assms(1) by (auto simp: direct_def)
  show "i < len b" using direct_no_source[OF assms(1), of "\<lparr>src_line = i, src_jt = JumpDirect\<rparr>"] assms(2)
    by (cases "i < len b") (auto simp: src_at_def)
qed

lemma Stmt_spec:
  assumes "direct b"
  shows "direct (AddStmt c k b)" "pb_insns (AddStmt c k b) = pb_insns b @ [Stmt c k]"
    "src_at (AddStmt c k b) = src_at b" "target (AddStmt c k b) = target b"
    "placed (AddStmt c k b) = placed b" "known (AddStmt c k b) = known b"
    "unusableLabels (AddStmt c k b) = unusableLabels b"
  using assms built.built_stmt[of b c k]
  by (auto simp: direct_def AddStmt_def src_at_def target_def placed_def known_def fun_eq_iff)

lemma AddJump_spec:
  assumes "direct b"
  shows "direct (AddJump c k jt jf b)" "pb_insns (AddJump c k jt jf b) = pb_insns b @ [Jump c k jt jf]"
    "src_at (AddJump c k jt jf b) = src_at b" "target (AddJump c k jt jf b) = target b"
    "placed (AddJump c k jt jf b) = placed b" "known (AddJump c k jt jf b) = known b"
    "unusableLabels (AddJump c k jt jf b) = unusableLabels b"
  using assms built.built_jump[of b c k jt jf]
  by (auto simp: direct_def AddJump_def src_at_def target_def placed_def known_def fun_eq_iff)

lemma JumpTo_spec:
  assumes "direct b" "l \<notin> set (unusableLabels b)"
  shows "\<exists>b'. JumpTo l b = Some b' \<and> direct b' \<and> pb_insns b' = pb_insns b @ [Jump 5 labelDirectTarget 0 0] \<and>
    src_at b' = (src_at b)(len b \<mapsto> l) \<and> target b' = target b \<and> placed b' = placed b \<and>
    unusableLabels b' = unusableLabels b \<and> (\<forall>x. known b' x \<longleftrightarrow> known b x \<or> x = l)"
proof -
  let ?src = "\<lparr>src_line = len b, src_jt = JumpDirect\<rparr>"
  have n: "map_of (jumpSourceToLabel b) ?src = None" using direct_no_source[OF assms(1)] by simp
  then obtain b1 where b1: "addLabelSource l JumpDirect b = Some b1" by (simp add: addLabelSource_def Let_def)
  note e = addLabelSource_eq[OF b1]
  define b' where "b' = AddJump (bpf_Jmp OR bpf_Ja) labelDirectTarget 0 0 b1"
  have J: "JumpTo l b = Some b'" by (simp add: JumpTo_def AddDirectJumpLabel_def b1 b'_def)
  have f: "pb_insns b' = pb_insns b @ [Jump 5 labelDirectTarget 0 0]" "labels b' = labels b1"
    "jumpSourceToLabel b' = jumpSourceToLabel b1" "unusableLabels b' = unusableLabels b"
    by (simp_all add: b'_def AddJump_def e)
  have js: "map_of (jumpSourceToLabel b') s = (if s = ?src then Some l else map_of (jumpSourceToLabel b) s)" for s
    unfolding f(3) e(2) update_conv by simp
  let ?l = "case map_of (labels b) l of None \<Rightarrow> \<lparr>lbl_sources = [], lbl_target = None\<rparr> | Some l \<Rightarrow> l"
  have lb: "map_of (labels b') x =
      (if x = l then Some (?l\<lparr>lbl_sources := lbl_sources ?l @ [?src]\<rparr>) else map_of (labels b) x)" for x
    unfolding f(2) e(3) update_conv by simp
  have "built b'" using built.built_direct[of b l b'] J assms(1) by (simp add: direct_def JumpTo_def)
  moreover have "src_jt s = JumpDirect" if "map_of (jumpSourceToLabel b') s = Some x" for s x
    using that assms(1) js[of s] by (auto simp: direct_def split: if_splits)
  moreover have "lbl_sources lab \<noteq> [] \<and> x \<notin> set (unusableLabels b')" if "map_of (labels b') x = Some lab" for x lab
    using that assms lb[of x] by (auto simp: direct_def f(4) split: if_splits)
  ultimately have "direct b'" unfolding direct_def by blast
  moreover have t: "target b' = target b"
    unfolding target_def fun_eq_iff lb by (auto split: option.split)
  moreover have "src_at b' = (src_at b)(len b \<mapsto> l)" by (auto simp: src_at_def js fun_eq_iff)
  moreover have "placed b' = placed b" unfolding placed_def t f(4) ..
  moreover have "known b' x \<longleftrightarrow> known b x \<or> x = l" for x unfolding known_def lb f(4) by auto
  ultimately show ?thesis using J f by blast
qed

lemma Label_spec:
  assumes "direct b" "\<not> placed b l"
  shows "\<exists>b'. sp_Label l b = Some b' \<and> direct b' \<and> pb_insns b' = pb_insns b \<and> src_at b' = src_at b \<and>
    set (unusableLabels b) \<subseteq> set (unusableLabels b') \<and>
    (\<forall>x. placed b' x \<longleftrightarrow> placed b x \<or> x = l) \<and> (\<forall>x. known b' x \<longleftrightarrow> known b x \<or> x = l) \<and>
    (\<forall>x. target b' x = (if x = l \<and> map_of (labels b) l \<noteq> None then Some (len b) else target b x))"
proof (cases "map_of (labels b) l")
  case None
  define b' where "b' = b\<lparr>unusableLabels := unusableLabels b @ [l]\<rparr>"
  have L: "AddLabel l b = Inr b'" using assms(2) None by (simp add: AddLabel_def b'_def placed_def)
  then have "built b'" using built.built_label[of b l b'] assms(1) by (simp add: direct_def)
  then have "direct b'" using assms(1) None by (auto simp: direct_def b'_def)
  with L None show ?thesis by (auto simp: sp_Label_def b'_def src_at_def placed_def known_def target_def)
next
  case (Some lab)
  with assms(2) have lt: "lbl_target lab = None" by (simp add: placed_def target_def)
  define b' where "b' = b\<lparr>labels := AList.update l (lab\<lparr>lbl_target := Some (len b)\<rparr>) (labels b)\<rparr>"
  have L: "AddLabel l b = Inr b'" using Some lt by (simp add: AddLabel_def b'_def)
  then have "built b'" using built.built_label[of b l b'] assms(1) by (simp add: direct_def)
  moreover have lb: "map_of (labels b') x = (if x = l then Some (lab\<lparr>lbl_target := Some (len b)\<rparr>) else map_of (labels b) x)" for x
    by (simp add: b'_def update_conv)
  ultimately have "direct b'" using assms(1) Some by (auto simp: direct_def b'_def update_conv split: if_splits)
  moreover have "target b' x = (if x = l then Some (len b) else target b x)" for x
    by (simp add: target_def lb)
  ultimately show ?thesis using L Some by (auto simp: sp_Label_def placed_def known_def lb) (simp_all add: b'_def src_at_def fun_eq_iff)
qed

section \<open>Extension of builders\<close>

lemma ext_refl: "ext b b" by (simp add: ext_def)

lemma ext_len: "ext b b' \<Longrightarrow> len b \<le> len b'" by (auto simp: ext_def)

lemma ext_nth: "ext b b' \<Longrightarrow> i < len b \<Longrightarrow> pb_insns b' ! i = pb_insns b ! i" by (auto simp: ext_def nth_append)

lemma ext_trans:
  assumes "ext a b" "ext b c" shows "ext a c"
proof -
  have "len a \<le> len b" using assms(1) by (rule ext_len)
  with assms show ?thesis unfolding ext_def by (auto 0 3 simp: less_le_trans)
qed

lemma ext_placed: "ext b b' \<Longrightarrow> placed b l \<Longrightarrow> placed b' l" by (auto simp: ext_def placed_def)

lemma ext_Stmt: "direct b \<Longrightarrow> ext b (AddStmt c k b)" by (simp add: ext_def Stmt_spec)

lemma ext_AddJump: "direct b \<Longrightarrow> ext b (AddJump c k jt jf b)" by (simp add: ext_def AddJump_spec)

lemma agreesD:
  assumes "agrees b I T"
  shows "len b \<le> length I" "i < len b \<Longrightarrow> insn_agrees I T i (src_at b i) (pb_insns b ! i)"
    "target b l = Some t \<Longrightarrow> T l = t"
  using assms unfolding agrees_def by blast+

lemma agreesI:
  assumes "len b \<le> length I" "\<And>i. i < len b \<Longrightarrow> insn_agrees I T i (src_at b i) (pb_insns b ! i)"
    "\<And>l t. target b l = Some t \<Longrightarrow> T l = t"
  shows "agrees b I T"
  using assms unfolding agrees_def by blast

lemma agrees_ext:
  assumes x: "ext b b'" and a: "agrees b' I T"
  shows "agrees b I T"
proof (rule agreesI)
  show "len b \<le> length I" using ext_len[OF x] agreesD(1)[OF a] by linarith
  fix i assume i: "i < len b"
  then have "i < len b'" "src_at b' i = src_at b i" using x ext_len[OF x] by (auto simp: ext_def)
  then show "insn_agrees I T i (src_at b i) (pb_insns b ! i)"
    using agreesD(2)[OF a, of i] ext_nth[OF x i] by simp
next
  fix l t assume "target b l = Some t"
  then have "target b' l = Some t" using x unfolding ext_def by blast
  then show "T l = t" by (rule agreesD(3)[OF a])
qed

lemma insn_agrees_cong:
  "(\<And>l. src = Some l \<Longrightarrow> T l = T' l) \<Longrightarrow> insn_agrees I T i src ins = insn_agrees I T' i src ins"
  by (cases src) (simp_all add: insn_agrees_def)

text \<open>A label that has just been placed: its place can be assumed, even when nothing refers to it.\<close>

lemma agrees_Label:
  assumes d: "direct b" and np: "\<not> placed b l" and L: "sp_Label l b = Some b'" and a: "agrees b' I T"
  shows "\<exists>T'. agrees b I T' \<and> T' l = len b \<and> (\<forall>x. x \<noteq> l \<longrightarrow> T' x = T x)"
proof (intro exI conjI)
  from Label_spec[OF d np] L have s: "pb_insns b' = pb_insns b" "src_at b' = src_at b"
    "target b' x = (if x = l \<and> map_of (labels b) l \<noteq> None then Some (len b) else target b x)" for x by auto
  show "agrees b I (T(l := len b))"
  proof (rule agreesI)
    show "len b \<le> length I" using agreesD(1)[OF a] s(1) by simp
    fix i assume i: "i < len b"
    then have o: "insn_agrees I T i (src_at b i) (pb_insns b ! i)" using agreesD(2)[OF a, of i] s(1,2) by simp
    have "T l = len b" if "src_at b i = Some l"
      using direct_src_label(2)[OF d that] s(3)[of l] agreesD(3)[OF a, of l "len b"] by auto
    then show "insn_agrees I (T(l := len b)) i (src_at b i) (pb_insns b ! i)"
      using o by (subst insn_agrees_cong[of _ _ T]) auto
  next
    fix x t assume x: "target b x = Some t"
    then have "x \<noteq> l" using np by (auto simp: placed_def)
    with x s(3)[of x] agreesD(3)[OF a, of x t] show "(T(l := len b)) x = t" by simp
  qed
qed simp_all

section \<open>One step of a run\<close>

lemma exec_next:
  assumes "pc < length I" "exec_step e inp (I ! pc) m = Next d m'"
  shows "exec_from e inp I pc m = exec_from e inp I (pc + d + 1) m'"
  using assms by (subst exec_from.simps) simp

lemma exec_halt:
  assumes "pc < length I" "exec_step e inp (I ! pc) m = Halt v"
  shows "exec_from e inp I pc m = Some (Inr v)"
  using assms by (subst exec_from.simps) simp

lemma opcode_case_used:
  "opcode_case 0x05 = Some CJa" "opcode_case 0x06 = Some CRetK" "opcode_case 0x20 = Some (CLdAbs SzW)"
  "opcode_case 0x54 = Some (CAlu AluAnd SrcK)" "opcode_case 0x15 = Some (CJcond CmpEq SrcK)"
  "opcode_case 0x25 = Some (CJcond CmpGt SrcK)" "opcode_case 0x35 = Some (CJcond CmpGe SrcK)"
  "opcode_case 0x45 = Some (CJcond CmpSet SrcK)"
  by code_simp+

lemma step_cond:
  assumes "cond_op c"
  shows "exec_step e inp (Jump c k jt jf) m =
    Next (if jump_holds c k (regA m) then unat jt else unat jf) m"
  using assms by (auto simp: exec_step_def Jump_def opcode_case_used jump_holds_def conditionalJumpOffset_def)

lemma agrees_insn:
  assumes "agrees b I T" "i < len b" "src_at b i = None"
  shows "i < length I" "I ! i = pb_insns b ! i"
  using agreesD(1)[OF assms(1)] agreesD(2)[OF assms(1,2)] assms(2,3) by (simp_all add: insn_agrees_def)

lemma agrees_jump:
  assumes "agrees b I T" "i < len b" "src_at b i = Some l" "OpCode (pb_insns b ! i) = 5"
  shows "exec_from e inp I i m = exec_from e inp I (T l) m"
proof -
  have I: "i < T l" "T l < length I" "T l - i - 1 < 2 ^ 32" "I ! i = (pb_insns b ! i)\<lparr>ImmK := of_nat (T l - i - 1)\<rparr>"
    using agreesD(2)[OF assms(1,2)] assms(3) by (simp_all add: insn_agrees_def)
  have "T l - i - 1 < 4294967296" using I by simp
  then have u: "unat (of_nat (T l - i - 1) :: u32) = T l - i - 1" by (rule unat_of_nat_u32)
  have "exec_step e inp (I ! i) m = Next (unat (of_nat (T l - i - 1) :: u32)) m"
    unfolding I(4) using assms(4) by (simp add: exec_step_def opcode_case_used)
  then have "exec_from e inp I i m = exec_from e inp I (i + (T l - i - 1) + 1) m"
    unfolding u using I(1,2) by (intro exec_next) simp_all
  moreover have "i + (T l - i - 1) + 1 = T l" using I(1) by linarith
  ultimately show ?thesis by simp
qed

section \<open>Composing code\<close>

lemma rendersD:
  assumes "renders b b' S L R K out"
  shows "direct b'" "ext b b'" "len b < len b'" "closed b' (len b) L R"
    "placed b' l \<Longrightarrow> placed b l \<or> l \<in> S" "known b' l \<Longrightarrow> known b l \<or> l \<in> S \<or> l \<in> L"
    "computes b' (len b) K out"
  using assms unfolding renders_def by blast+

lemma closedD: "closed b lo L R \<Longrightarrow> lo \<le> i \<Longrightarrow> i < len b \<Longrightarrow> leaves_ok b L R i"
  by (simp add: closed_def)

lemma leaves_ext:
  assumes x: "ext b b'" and i: "i < len b" and o: "leaves_ok b L R i" and R: "R \<subseteq> R'"
    and L: "\<And>l. l \<in> L \<Longrightarrow> src_at b i = Some l \<Longrightarrow> target b l = None \<Longrightarrow> case target b' l of None \<Rightarrow> l \<in> L' | Some t \<Rightarrow> len b \<le> t \<and> t < len b'"
  shows "leaves_ok b' L' R' i"
proof -
  have e: "pb_insns b' ! i = pb_insns b ! i" "src_at b' i = src_at b i" "len b \<le> len b'"
    using x i ext_len[OF x] ext_nth[OF x i] by (auto simp: ext_def)
  show ?thesis
  proof (cases "OpCode (pb_insns b ! i) = 0x05")
    case True
    with o obtain l where l: "src_at b i = Some l" "case target b l of None \<Rightarrow> l \<in> L | Some t \<Rightarrow> i < t \<and> t < len b"
      by (auto simp: leaves_ok_def Let_def split: option.splits)
    have "case target b' l of None \<Rightarrow> l \<in> L' | Some t \<Rightarrow> i < t \<and> t < len b'"
    proof (cases "target b l")
      case None
      with l L[of l] i show ?thesis by (auto split: option.splits)
    next
      case (Some t)
      moreover from this have "target b' l = Some t" using x unfolding ext_def by blast
      ultimately show ?thesis using l(2) e(3) by simp
    qed
    with True e l(1) show ?thesis by (simp add: leaves_ok_def Let_def)
  next
    case False
    then show ?thesis using o e R by (auto simp: leaves_ok_def Let_def split: if_splits)
  qed
qed

lemma computesD:
  "computes b lo K out \<Longrightarrow> readable e inp w \<Longrightarrow> agrees b I T \<Longrightarrow> leads e inp I T lo m K (out w (regA m))"
  unfolding computes_def by blast

text \<open>Code in front of other code.\<close>

lemma renders_front:
  assumes r: "renders b1 b' S L R K out" and x: "ext b b1" "len b < len b1"
    and p: "\<And>l. placed b1 l \<Longrightarrow> placed b l" and k: "\<And>l. known b1 l \<Longrightarrow> known b l \<or> l \<in> L'" and L: "L \<subseteq> L'"
    and lv: "\<And>i. len b \<le> i \<Longrightarrow> i < len b1 \<Longrightarrow> leaves_ok b' L' R i"
    and sem: "\<And>e inp w I T m. readable e inp w \<Longrightarrow> agrees b1 I T \<Longrightarrow>
      (\<And>m. leads e inp I T (len b1) m K (out w (regA m))) \<Longrightarrow> leads e inp I T (len b) m K' (out' w (regA m))"
  shows "renders b b' S L' R K' out'"
  unfolding renders_def
proof (intro conjI allI impI)
  note R = rendersD[OF r]
  show "direct b'" "len b < len b'" using R(1,3) x(2) by auto
  show "ext b b'" by (rule ext_trans[OF x(1) R(2)])
  show "placed b l \<or> l \<in> S" if "placed b' l" for l using R(5)[OF that] p by blast
  show "known b l \<or> l \<in> S \<or> l \<in> L'" if "known b' l" for l using R(6)[OF that] k L by blast
  show "closed b' (len b) L' R" unfolding closed_def
  proof (intro allI impI)
    fix i assume i: "len b \<le> i \<and> i < len b'"
    show "leaves_ok b' L' R i"
    proof (cases "i < len b1")
      case False
      then have o: "leaves_ok b' L R i" using closedD[OF R(4)] i by simp
      show ?thesis by (rule leaves_ext[OF ext_refl _ o]) (use i L in auto)
    qed (use lv i in simp)
  qed
  show "computes b' (len b) K' out'" unfolding computes_def
  proof (intro allI impI)
    fix e inp w I T m assume a: "readable e inp w" "agrees b' I T"
    show "leads e inp I T (len b) m K' (out' w (regA m))"
      by (rule sem[OF a(1) agrees_ext[OF R(2) a(2)]]) (rule computesD[OF R(7) a])
  qed
qed

lemma renders_jump:
  assumes d: "direct b" and np: "\<not> placed b l"
  shows "\<exists>b'. JumpTo l b = Some b' \<and> renders b b' {} {l} {} UNIV (\<lambda>_ _. Inl l)"
proof -
  from JumpTo_spec[OF d, of l] np obtain b' where b': "JumpTo l b = Some b'" "direct b'"
    "pb_insns b' = pb_insns b @ [Jump 5 labelDirectTarget 0 0]" "src_at b' = (src_at b)(len b \<mapsto> l)"
    "target b' = target b" "placed b' = placed b" "unusableLabels b' = unusableLabels b"
    "\<forall>x. known b' x \<longleftrightarrow> known b x \<or> x = l" by (auto simp: placed_def)
  have "ext b b'" using b'(3-7) by (simp add: ext_def)
  moreover have "closed b' (len b) {l} {}"
    using b'(3-5) np by (auto simp: closed_def leaves_ok_def Let_def less_Suc_eq Jump_def placed_def)
  moreover have "computes b' (len b) UNIV (\<lambda>_ _. Inl l)" unfolding computes_def
  proof (intro allI impI)
    fix e inp w I T m assume a: "agrees b' I T"
    have "exec_from e inp I (len b) m = exec_from e inp I (T l) m"
      by (rule agrees_jump[OF a]) (simp_all add: b'(3,4) Jump_def)
    then show "leads e inp I T (len b) m UNIV (Inl l)" by (auto simp: leads_def)
  qed
  ultimately show ?thesis using b' by (auto simp: renders_def)
qed

lemma renders_ret:
  assumes d: "direct b"
  shows "renders b (sp_Ret v b) {} {} {v} UNIV (\<lambda>_ _. Inr v)"
proof -
  have s: "sp_Ret v b = AddStmt 6 v b" by (simp add: sp_Ret_def sp_Stmt_def)
  have "computes (AddStmt 6 v b) (len b) UNIV (\<lambda>_ _. Inr v)" unfolding computes_def
  proof (intro allI impI)
    fix e inp w I T m assume a: "agrees (AddStmt 6 v b) I T"
    have n: "src_at (AddStmt 6 v b) (len b) = None"
      using Stmt_spec(3)[OF d] direct_src_label(1)[OF d, of "len b"] by (cases "src_at b (len b)") auto
    have "len b < length I" "I ! len b = Stmt 6 v"
      using agrees_insn[OF a _ n] by (simp_all add: Stmt_spec[OF d])
    then have "exec_from e inp I (len b) m = Some (Inr v)"
      by (intro exec_halt) (simp_all add: exec_step_def Stmt_def opcode_case_used)
    then show "leads e inp I T (len b) m UNIV (Inr v)" by (simp add: leads_def)
  qed
  then show ?thesis unfolding s renders_def
    by (auto simp: Stmt_spec[OF d] ext_Stmt[OF d] closed_def leaves_ok_def less_Suc_eq Stmt_def)
qed

text \<open>A statement that changes register A.\<close>

lemma renders_stmt:
  assumes d: "direct b" and r: "renders (AddStmt c k b) b' S L R K out" and c: "c \<in> {0x20, 0x54}"
    and st: "\<And>e inp w m. readable e inp w \<Longrightarrow> exec_step e inp (Stmt c k) m = Next 0 (m\<lparr>regA := f w (regA m)\<rparr>)"
  shows "renders b b' S L R {} (\<lambda>w a. out w (f w a))"
proof (rule renders_front[OF r])
  let ?b = "AddStmt c k b"
  note s = Stmt_spec[OF d, of c k]
  note R = rendersD[OF r]
  show "ext b ?b" by (rule ext_Stmt[OF d])
  show "leaves_ok b' L R i" if "len b \<le> i" "i < len ?b" for i
  proof -
    have i: "i = len b" using that by (simp add: s)
    have "pb_insns b' ! i = Stmt c k" using ext_nth[OF R(2), of i] i by (simp add: s)
    then show ?thesis using c R(3) i by (auto simp: leaves_ok_def Stmt_def s)
  qed
  fix e inp w I T m assume a: "readable e inp w" "agrees ?b I T" and
    l: "\<And>m. leads e inp I T (len ?b) m K (out w (regA m))"
  have n: "src_at ?b (len b) = None"
    using s(3) direct_src_label(1)[OF d, of "len b"] by (cases "src_at b (len b)") auto
  have "len b < length I" "I ! len b = Stmt c k" using agrees_insn[OF a(2) _ n] by (simp_all add: s)
  then have "exec_from e inp I (len b) m = exec_from e inp I (len ?b) (m\<lparr>regA := f w (regA m)\<rparr>)"
    using exec_next[of "len b" I e inp m 0] st[OF a(1)] by (simp add: s)
  then show "leads e inp I T (len b) m {} (out w (f w (regA m)))"
    using l[of "m\<lparr>regA := f w (regA m)\<rparr>"] unfolding leads_def by (auto split: sum.splits)
qed (simp_all add: Stmt_spec[OF d])

lemma renders_load:
  assumes "direct b" "renders (AddStmt 0x20 off b) b' S L R K out" "word_offset off"
  shows "renders b b' S L R {} (\<lambda>w a. out w (w off))"
proof (rule renders_stmt[OF assms(1,2)])
  fix e inp w m assume "readable e inp w"
  with assms(3) have "load32 e inp off = Some (w off)" by (auto simp: readable_def word_offset_def)
  then show "exec_step e inp (Stmt 0x20 off) m = Next 0 (m\<lparr>regA := w off\<rparr>)"
    by (simp add: exec_step_def Stmt_def opcode_case_used load_sized_def load_into_A_def)
qed simp

lemma renders_and:
  assumes "direct b" "renders (AddStmt 0x54 k b) b' S L R K out"
  shows "renders b b' S L R {} (\<lambda>w a. out w (a AND k))"
  by (rule renders_stmt[OF assms]) (simp_all add: exec_step_def Stmt_def opcode_case_used)

text \<open>A conditional jump over a jump to \<open>l\<close>, in both polarities.\<close>

lemma renders_cond:
  assumes d: "direct b" and np: "\<not> placed b l" and c: "cond_op c"
    and J: "JumpTo l (AddJump c k jt jf b) = Some b1" and jj: "jt = 1 \<and> jf = 0 \<and> \<not> pol \<or> jt = 0 \<and> jf = 1 \<and> pol"
    and r: "renders b1 b' S L R K out" and lS: "l \<notin> S"
  shows "renders b b' S (insert l L) R {x. (x = l \<or> x \<in> K) \<and> (x = l \<longrightarrow> x \<in> K \<or> (\<forall>w a. out w a \<noteq> Inl l))}
    (\<lambda>w a. if jump_holds c k a = pol then Inl l else out w a)"
proof (rule renders_front[OF r])
  let ?b = "AddJump c k jt jf b"
  let ?K = "{x. (x = l \<or> x \<in> K) \<and> (x = l \<longrightarrow> x \<in> K \<or> (\<forall>w a. out w a \<noteq> Inl l))}"
  note s = AddJump_spec[OF d, of c k jt jf]
  from JumpTo_spec[OF s(1), of l] np J have j: "direct b1"
    "pb_insns b1 = pb_insns b @ [Jump c k jt jf, Jump 5 labelDirectTarget 0 0]" "src_at b1 = (src_at b)(len b + 1 \<mapsto> l)"
    "target b1 = target b" "placed b1 = placed b" "unusableLabels b1 = unusableLabels b"
    "\<forall>x. known b1 x \<longleftrightarrow> known b x \<or> x = l" by (auto simp: s placed_def)
  note R = rendersD[OF r]
  show x: "ext b b1" using j by (auto simp: ext_def)
  show "len b < len b1" "\<And>l. placed b1 l \<Longrightarrow> placed b l" "L \<subseteq> insert l L"
    "\<And>x. known b1 x \<Longrightarrow> known b x \<or> x \<in> insert l L" using j by auto
  have n: "src_at b1 (len b) = None"
    using j(3) direct_src_label(1)[OF d, of "len b"] by (cases "src_at b (len b)") auto
  have len1: "len b1 = len b + 2" using j(2) by simp
  have np': "\<not> placed b' l" using R(5)[of l] lS np j(5) by auto
  show "leaves_ok b' (insert l L) R i" if i: "len b \<le> i" "i < len b1" for i
  proof -
    have l': "len b + 2 < len b'" using R(3) len1 by simp
    from i len1 have "i = len b \<or> i = len b + 1" by auto
    then show ?thesis
    proof
      assume i: "i = len b"
      have "pb_insns b' ! i = Jump c k jt jf" using ext_nth[OF R(2), of i] i j(2) by (simp add: nth_append)
      then show ?thesis using c l' i jj by (auto simp: leaves_ok_def Jump_def)
    next
      assume i: "i = len b + 1"
      have "pb_insns b' ! i = Jump 5 labelDirectTarget 0 0" "src_at b' i = Some l" "target b' l = None"
        using ext_nth[OF R(2), of i] R(2) i j(2,3) len1 np' by (auto simp: nth_append ext_def placed_def)
      then show ?thesis by (simp add: leaves_ok_def Jump_def)
    qed
  qed
  fix e inp w I T m assume a: "readable e inp w" "agrees b1 I T" and
    ld: "\<And>m. leads e inp I T (len b1) m K (out w (regA m))"
  have I: "len b < length I" "I ! len b = Jump c k jt jf" using agrees_insn[OF a(2) _ n] by (simp_all add: j(2))
  have st: "exec_from e inp I (len b) m =
      exec_from e inp I (len b + (if jump_holds c k (regA m) then unat jt else unat jf) + 1) m"
    using I step_cond[OF c] by (intro exec_next) simp_all
  have jmp: "exec_from e inp I (len b + 1) m = exec_from e inp I (T l) m"
    by (rule agrees_jump[OF a(2)]) (simp_all add: j(2,3) nth_append Jump_def)
  show "leads e inp I T (len b) m ?K (if jump_holds c k (regA m) = pol then Inl l else out w (regA m))"
  proof (cases "jump_holds c k (regA m) = pol")
    case True
    then have "exec_from e inp I (len b) m = exec_from e inp I (T l) m" using st jmp jj by auto
    with True show ?thesis by (auto simp: leads_def)
  next
    case False
    then have "exec_from e inp I (len b) m = exec_from e inp I (len b1) m" using st jj len1 by auto
    with False ld[of m] show ?thesis unfolding leads_def by (auto split: sum.splits)
  qed
qed

text \<open>Code after other code, joined by a label.\<close>

lemma renders_seq:
  assumes r1: "renders b p1 S1 L1 R1 K1 out1" and np: "\<not> placed b n" "n \<notin> S1"
    and Lb: "sp_Label n p1 = Some p2" and r2: "renders p2 p3 S2 L2 R2 K2 out2"
    and dj: "(L1 - {n}) \<inter> S2 = {}"
    and A: "n \<in> K1 \<or> (\<forall>w a a'. out2 w a = out2 w a')" and K: "K \<subseteq> K1 \<inter> K2" "K \<noteq> {} \<Longrightarrow> n \<in> K1"
  shows "renders b p3 (insert n (S1 \<union> S2)) ((L1 - {n}) \<union> L2) (R1 \<union> R2) K
    (\<lambda>w a. if out1 w a = Inl n then out2 w a else out1 w a)"
  unfolding renders_def
proof (intro conjI allI impI)
  note R1 = rendersD[OF r1] and R2 = rendersD[OF r2]
  have np1: "\<not> placed p1 n" using R1(5)[of n] np by blast
  from Label_spec[OF R1(1) np1] Lb have s: "direct p2" "pb_insns p2 = pb_insns p1" "src_at p2 = src_at p1"
    "set (unusableLabels p1) \<subseteq> set (unusableLabels p2)"
    "\<And>x. placed p2 x \<longleftrightarrow> placed p1 x \<or> x = n" "\<And>x. known p2 x \<longleftrightarrow> known p1 x \<or> x = n"
    "\<And>x. target p2 x = (if x = n \<and> map_of (labels p1) n \<noteq> None then Some (len p1) else target p1 x)" by auto
  have "target p1 n = None" using np1 by (simp add: placed_def)
  then have x12: "ext p1 p2" using s(2-4,7) by (auto simp: ext_def)
  have x13: "ext p1 p3" by (rule ext_trans[OF x12 R2(2)])
  show "direct p3" "len b < len p3" using R1(3) R2(1,3) s(2) by auto
  show "ext b p3" by (rule ext_trans[OF R1(2) x13])
  show "placed b l \<or> l \<in> insert n (S1 \<union> S2)" if "placed p3 l" for l
    using R2(5)[OF that] s(5) R1(5)[of l] by blast
  show "known b l \<or> l \<in> insert n (S1 \<union> S2) \<or> l \<in> (L1 - {n}) \<union> L2" if "known p3 l" for l
    using R2(6)[OF that] s(6) R1(6)[of l] by blast
  show "closed p3 (len b) ((L1 - {n}) \<union> L2) (R1 \<union> R2)" unfolding closed_def
  proof (intro allI impI)
    fix i assume i: "len b \<le> i \<and> i < len p3"
    show "leaves_ok p3 ((L1 - {n}) \<union> L2) (R1 \<union> R2) i"
    proof (cases "i < len p1")
      case True
      then have o: "leaves_ok p1 L1 R1 i" using closedD[OF R1(4)] i by simp
      show ?thesis
      proof (rule leaves_ext[OF x13 True o])
        fix l assume l: "l \<in> L1" "src_at p1 i = Some l" "target p1 l = None"
        show "case target p3 l of None \<Rightarrow> l \<in> (L1 - {n}) \<union> L2 | Some t \<Rightarrow> len p1 \<le> t \<and> t < len p3"
        proof (cases "l = n")
          case True
          then have "target p2 n = Some (len p1)" using direct_src_label(2)[OF R1(1) l(2)] s(7)[of n] by simp
          then have "target p3 n = Some (len p1)" using R2(2) unfolding ext_def by blast
          then show ?thesis using True R2(3) s(2) by simp
        next
          case False
          have "target p3 l = None"
          proof (rule ccontr)
            assume "target p3 l \<noteq> None"
            then have "placed p3 l" by (simp add: placed_def)
            with R2(5)[of l] dj l(1) False s(5) have "placed p1 l" by blast
            with l(3) direct_src_label(3)[OF R1(1) l(2)] show False by (simp add: placed_def)
          qed
          with l(1) False show ?thesis by simp
        qed
      qed simp
    next
      case False
      then have o: "leaves_ok p3 L2 R2 i" using closedD[OF R2(4)] i s(2) by simp
      show ?thesis by (rule leaves_ext[OF ext_refl _ o]) (use i in auto)
    qed
  qed
  show "computes p3 (len b) K (\<lambda>w a. if out1 w a = Inl n then out2 w a else out1 w a)" unfolding computes_def
  proof (intro allI impI)
    fix e inp w I T m assume a: "readable e inp w" "agrees p3 I T"
    from agrees_Label[OF R1(1) np1 Lb agrees_ext[OF R2(2) a(2)]] obtain T' where
      T': "agrees p1 I T'" "T' n = len p1" "\<And>x. x \<noteq> n \<Longrightarrow> T' x = T x" by blast
    have l1: "leads e inp I T' (len b) m K1 (out1 w (regA m))" by (rule computesD[OF R1(7) a(1) T'(1)])
    show "leads e inp I T (len b) m K (if out1 w (regA m) = Inl n then out2 w (regA m) else out1 w (regA m))"
    proof (cases "out1 w (regA m) = Inl n")
      case True
      with l1 T'(2) obtain m' where m': "n \<in> K1 \<longrightarrow> regA m' = regA m"
        "exec_from e inp I (len b) m = exec_from e inp I (len p1) m'" by (auto simp: leads_def)
      have l2: "leads e inp I T (len p1) m' K2 (out2 w (regA m'))"
        using computesD[OF R2(7) a] s(2) by simp
      have o: "out2 w (regA m') = out2 w (regA m)" using A m'(1) by metis
      show ?thesis
      proof (cases "out2 w (regA m)")
        case (Inl l)
        with l2 o obtain m'' where m'': "l \<in> K2 \<longrightarrow> regA m'' = regA m'"
          "exec_from e inp I (len p1) m' = exec_from e inp I (T l) m''" by (auto simp: leads_def)
        have "l \<in> K \<longrightarrow> regA m'' = regA m" using K m''(1) m'(1) by auto
        with m' m'' True Inl show ?thesis by (auto simp: leads_def)
      qed (use l2 o m' True in \<open>simp add: leads_def\<close>)
    next
      case False
      with l1 K(1) T'(3) show ?thesis unfolding leads_def by (auto split: sum.splits)
    qed
  qed
qed

lemma renders_weaken:
  assumes r: "renders b b' S L R K out" and "S \<subseteq> S'" "L \<subseteq> L'" "R \<subseteq> R'" "K' \<subseteq> K" and o: "\<And>w a. out' w a = out w a"
  shows "renders b b' S' L' R' K' out'"
  unfolding renders_def
proof (intro conjI allI impI)
  note R = rendersD[OF r]
  show "direct b'" "ext b b'" "len b < len b'" using R by blast+
  show "closed b' (len b) L' R'" unfolding closed_def
  proof (intro allI impI)
    fix i assume i: "len b \<le> i \<and> i < len b'"
    have l: "leaves_ok b' L R i" using closedD[OF R(4)] i by simp
    show "leaves_ok b' L' R' i" by (rule leaves_ext[OF ext_refl _ l]) (use i assms in auto)
  qed
  show "computes b' (len b) K' out'" unfolding computes_def
  proof (intro allI impI)
    fix e inp w I T m assume "readable e inp w" "agrees b' I T"
    from computesD[OF R(7) this, of m] show "leads e inp I T (len b) m K' (out' w (regA m))"
      using assms(5) unfolding o leads_def by (auto split: sum.splits)
  qed
  show "placed b l \<or> l \<in> S'" if "placed b' l" for l using R(5)[OF that] assms(2) by blast
  show "known b l \<or> l \<in> S' \<or> l \<in> L'" if "known b' l" for l using R(6)[OF that] assms(2,3) by blast
qed

section \<open>The assertions on fragments\<close>

lemma outcome_jump_known:
  assumes "direct b" "t \<noteq> JumpDirect" "pc + unat off + 1 < to"
  shows "outcome_jump b to pc \<lparr>joType = t, joOffset = off\<rparr> out = Some out"
proof -
  have "map_of (jumpSourceToLabel b) \<lparr>src_line = pc, src_jt = t\<rparr> = None"
    using assms(1,2) by (cases "map_of (jumpSourceToLabel b) \<lparr>src_line = pc, src_jt = t\<rparr>") (auto simp: direct_def)
  then show ?thesis using assms(3) by (simp add: outcome_jump_def)
qed

lemma outcome_jump_label:
  assumes d: "direct b" and s: "src_at b pc = Some l" and o: "outcomes_in L R out"
    and t: "case target b l of None \<Rightarrow> l \<in> L | Some t \<Rightarrow> pc < t \<and> t < to"
  shows "\<exists>out'. outcome_jump b to pc \<lparr>joType = JumpDirect, joOffset = off\<rparr> out = Some out' \<and> outcomes_in L R out'"
proof -
  obtain lab where lab: "map_of (labels b) l = Some lab" using direct_src_label(2)[OF d s] by auto
  then have "target b l = lbl_target lab" by (simp add: target_def)
  with s t o lab show ?thesis
    by (cases "lbl_target lab") (auto simp: outcome_jump_def src_at_def outcomes_in_def)
qed

lemma class_used:
  "(0x05 :: u16) AND 7 = 5" "(0x06 :: u16) AND 7 = 6" "(0x15 :: u16) AND 7 = 5" "(0x25 :: u16) AND 7 = 5"
  "(0x35 :: u16) AND 7 = 5" "(0x45 :: u16) AND 7 = 5" "(0x20 :: u16) AND 7 = 0" "(0x54 :: u16) AND 7 = 4"
  "(0x05 :: u16) AND 0xf0 = 0" "(0x15 :: u16) AND 0xf0 = 0x10" "(0x25 :: u16) AND 0xf0 = 0x20"
  "(0x35 :: u16) AND 0xf0 = 0x30" "(0x45 :: u16) AND 0xf0 = 0x40"
  by simp_all

lemma outcome_at_ok:
  assumes d: "direct b" and i: "i < len b" and lv: "leaves_ok b L R i" and o: "outcomes_in L R out"
  shows "\<exists>out'. outcome_at b (len b) i out = Some out' \<and> outcomes_in L R out'"
proof -
  let ?ins = "pb_insns b ! i"
  have g: "slice_get (pb_insns b) i = Some ?ins" using i by simp
  consider (ret) "OpCode ?ins = 0x06" "ImmK ?ins \<in> R" | (ja) "OpCode ?ins = 0x05"
    | (cond) "cond_op (OpCode ?ins)" "i + unat (JumpIfTrue ?ins) + 1 < len b" "i + unat (JumpIfFalse ?ins) + 1 < len b"
    | (plain) "OpCode ?ins = 0x20 \<or> OpCode ?ins = 0x54" "Suc i < len b"
    using lv by (auto simp: leaves_ok_def Let_def split: if_splits)
  then show ?thesis
  proof cases
    case ret
    then show ?thesis using g o by (auto simp: outcome_at_def op_class_def outcomes_in_def)
  next
    case ja
    with lv obtain l where l: "src_at b i = Some l" "case target b l of None \<Rightarrow> l \<in> L | Some t \<Rightarrow> i < t \<and> t < len b"
      by (auto simp: leaves_ok_def Let_def split: option.splits)
    have "JumpOffsets ?ins = [\<lparr>joType = JumpDirect, joOffset = ImmK ?ins\<rparr>]"
      using ja by (simp add: JumpOffsets_def IsJump_def IsConditionalJump_def op_class_def)
    then show ?thesis using outcome_jump_label[OF d l(1) o l(2)] ja g by (auto simp: outcome_at_def op_class_def)
  next
    case cond
    have "JumpOffsets ?ins = [\<lparr>joType = JumpTrue, joOffset = ucast (JumpIfTrue ?ins)\<rparr>,
         \<lparr>joType = JumpFalse, joOffset = ucast (JumpIfFalse ?ins)\<rparr>]"
      using cond(1) by (auto simp: JumpOffsets_def IsJump_def IsConditionalJump_def op_class_def)
    moreover have "unat (ucast x :: u32) = unat x" for x :: u8 by (simp add: unsigned_ucast_eq take_bit_nat_eq_self less_trans[OF unat_u8_less])
    ultimately show ?thesis using cond g o outcome_jump_known[OF d]
      by (auto simp: outcome_at_def op_class_def)
  next
    case plain
    then show ?thesis using g o by (auto simp: outcome_at_def op_class_def)
  qed
qed

lemma closed_assertion:
  assumes "direct b" "lo < len b" "closed b lo L R" "L \<subseteq> set labs" "R \<subseteq> set rets"
  shows "MustHaveJumpedToOrReturned lo labs rets b = Some b"
proof -
  have "\<exists>out. foldm (outcome_at b (len b)) [lo..<len b] no_outcomes = Some out \<and> outcomes_in L R out"
  proof (rule foldm_invariant)
    show "outcomes_in L R no_outcomes" by (simp add: outcomes_in_def no_outcomes_def)
    show "\<exists>t. outcome_at b (len b) x s = Some t \<and> outcomes_in L R t"
      if "x \<in> set [lo..<len b]" "outcomes_in L R s" for x s
      using that assms(1,3) by (intro outcome_at_ok) (auto simp: closed_def)
  qed
  then obtain out where out: "Outcomes b (getFragment lo b) = Some out" "outcomes_in L R out"
    using assms(2) by (auto simp: Outcomes_def getFragment_def)
  moreover have "MayReturnImmediate out = []" if "rets = []"
    using that out(2) assms(5) by (auto simp: outcomes_in_def)
  ultimately show ?thesis using assms(4,5)
    by (auto simp: MustHaveJumpedToOrReturned_def outcomes_in_def MayReturn_def list_all_iff)
qed

lemma renders_assertion:
  assumes "renders b b' S L R K out" "L \<subseteq> set labs" "R \<subseteq> set rets"
  shows "MustHaveJumpedToOrReturned (sp_Record b) labs rets b' = Some b'"
  unfolding sp_Record_def Record_def
  by (rule closed_assertion[OF rendersD(1,3,4)[OF assms(1)] assms(2,3)])

lemma renders_assertion':
  assumes "renders b b' S L {} K out" "L \<subseteq> set labs"
  shows "MustHaveJumpedTo (sp_Record b) labs b' = Some b'"
  unfolding MustHaveJumpedTo_def by (rule renders_assertion[OF assms]) simp

end
