(* ===== verification/Seccomp_Rules.thy ===== *)
theory Seccomp_Rules
  imports Seccomp_Program
begin

text \<open>
  The rules of \<^verbatim>\<open>pkg/seccomp/seccomp_rules.go\<close>: matchers of 32-bit halves and of 64-bit
  values, rules built from them, the rendering of both into BPF, their text forms and the
  operations on \<open>SyscallRules\<close>.

  The Go interfaces are datatypes with one constructor per implementation.  The two invalid
  matchers, which the rule optimiser uses as place holders, have only a representation; every
  other method of theirs panics.  \<open>PerArg\<close> is an array of seven matchers, modelled as a list, in
  which \<open>None\<close> is \<^verbatim>\<open>nil\<close>.  A rule is rendered with a label set that nobody else uses
  afterwards, so rendering does not return the label set.

  The last group of definitions is the meaning of matchers and rules: which values, and which
  system calls, they accept.
\<close>

section \<open>Definitions\<close>

subsection \<open>Offsets into the system call data\<close>

abbreviation seccompDataOffsetNR :: u32 where "seccompDataOffsetNR \<equiv> 0"
abbreviation seccompDataOffsetArch :: u32 where "seccompDataOffsetArch \<equiv> 4"
abbreviation seccompDataOffsetIPLow :: u32 where "seccompDataOffsetIPLow \<equiv> 8"
abbreviation seccompDataOffsetIPHigh :: u32 where "seccompDataOffsetIPHigh \<equiv> 12"
abbreviation seccompDataOffsetArgs :: nat where "seccompDataOffsetArgs \<equiv> 16"

definition seccompDataOffsetArgLow :: "nat \<Rightarrow> u32" where
  "seccompDataOffsetArgLow i = of_nat (seccompDataOffsetArgs + i * 8)"

definition seccompDataOffsetArgHigh :: "nat \<Rightarrow> u32" where
  "seccompDataOffsetArgHigh i = seccompDataOffsetArgLow i + 4"

subsection \<open>Matchers of 32-bit values\<close>

datatype halfValueMatcher =
    halfAnyValue
  | halfEqualTo u32
  | halfNotSet u32
  | halfMaskedEqual u32 u32
  | invalidHalfValueMatcher

fun half_String :: "halfValueMatcher \<Rightarrow> string option" where
  "half_String halfAnyValue = Some ''== *''"
| "half_String (halfEqualTo heq) = Some (if heq = 0 then ''== 0'' else ''== '' @ fmt_0x (unat heq))"
| "half_String (halfNotSet hns) = Some (''& '' @ fmt_0x (unat hns) @ '' == 0'')"
| "half_String (halfMaskedEqual msk v) =
     Some (if v = 0 then ''& '' @ fmt_0x (unat msk) @ '' == 0''
           else ''& '' @ fmt_0x (unat msk) @ '' == '' @ fmt_0x (unat v))"
| "half_String invalidHalfValueMatcher = None"

fun half_Repr :: "halfValueMatcher \<Rightarrow> string" where
  "half_Repr halfAnyValue = ''halfAnyValue''"
| "half_Repr (halfEqualTo heq) = ''halfEq('' @ fmt_0x (unat heq) @ '')''"
| "half_Repr (halfNotSet hns) = ''halfNotSet('' @ fmt_0x (unat hns) @ '')''"
| "half_Repr (halfMaskedEqual msk v) =
     ''halfMaskedEqual('' @ fmt_0x (unat msk) @ '', '' @ fmt_0x (unat v) @ '')''"
| "half_Repr invalidHalfValueMatcher = ''invalidHalfValueMatcher''"

fun HalfRender :: "halfValueMatcher \<Rightarrow> labelSet \<Rightarrow> syscallProgram \<Rightarrow> syscallProgram option" where
  "HalfRender halfAnyValue ls p = JumpTo (Matched ls) p"
| "HalfRender (halfEqualTo heq) ls p =
     do { p \<leftarrow> sp_If (bpf_Jmp OR bpf_Jeq OR bpf_K) heq (Matched ls) p; JumpTo (Mismatched ls) p }"
| "HalfRender (halfNotSet hns) ls p =
     do { p \<leftarrow> sp_If (bpf_Jmp OR bpf_Jset OR bpf_K) hns (Mismatched ls) p; JumpTo (Matched ls) p }"
| "HalfRender (halfMaskedEqual msk v) ls p =
     do {
       let p = sp_Stmt (bpf_Alu OR bpf_And OR bpf_K) msk p;
       p \<leftarrow> IfNot (bpf_Jmp OR bpf_Jeq OR bpf_K) v (Mismatched ls) p;
       JumpTo (Matched ls) p
     }"
| "HalfRender invalidHalfValueMatcher ls p = None"

subsection \<open>Split matchers\<close>

record splitMatcher =
  sm_repr :: string
  highMatcher :: halfValueMatcher
  lowMatcher :: halfValueMatcher

definition split_String :: "splitMatcher \<Rightarrow> string option" where
  "split_String sm =
     (if sm_repr sm = '''' then
        (if highMatcher sm = halfAnyValue \<and> lowMatcher sm = halfAnyValue then Some ''== *''
         else if highMatcher sm = halfAnyValue then
           map_option (\<lambda>l. ''VAL.low '' @ l) (half_String (lowMatcher sm))
         else if lowMatcher sm = halfAnyValue then
           map_option (\<lambda>h. ''VAL.high '' @ h) (half_String (highMatcher sm))
         else do {
           h \<leftarrow> half_String (highMatcher sm);
           l \<leftarrow> half_String (lowMatcher sm);
           Some (''(VAL.high '' @ h @ '' && VAL.low '' @ l @ '')'')
         })
      else Some (sm_repr sm))"

definition split_Repr :: "splitMatcher \<Rightarrow> string" where
  "split_Repr sm =
     (if sm_repr sm = '''' then
        (if highMatcher sm = halfAnyValue \<and> lowMatcher sm = halfAnyValue then ''split(*)''
         else if highMatcher sm = halfAnyValue then ''low='' @ half_Repr (lowMatcher sm)
         else if lowMatcher sm = halfAnyValue then ''high='' @ half_Repr (highMatcher sm)
         else ''(high='' @ half_Repr (highMatcher sm) @ '' && low='' @ half_Repr (lowMatcher sm) @ '')'')
      else sm_repr sm)"

definition split_Render ::
  "splitMatcher \<Rightarrow> labelSet \<Rightarrow> matchedValue \<Rightarrow> syscallProgram \<Rightarrow> syscallProgram option" where
  "split_Render sm ls value p =
     (if highMatcher sm = halfAnyValue \<and> lowMatcher sm = halfAnyValue then JumpTo (Matched ls) p
      else if highMatcher sm = halfAnyValue then HalfRender (lowMatcher sm) ls (LoadLow32Bits value p)
      else if lowMatcher sm = halfAnyValue then HalfRender (highMatcher sm) ls (LoadHigh32Bits value p)
      else do {
        let (newLabel, ls) = NewLabel ls;
        let lowLabels = Push ''low'' newLabel (Mismatched ls) ls;
        let lowFrag = sp_Record p;
        let p = LoadLow32Bits value p;
        p \<leftarrow> HalfRender (lowMatcher sm) lowLabels p;
        p \<leftarrow> MustHaveJumpedTo lowFrag [Matched lowLabels, Mismatched ls] p;
        p \<leftarrow> sp_Label (Matched lowLabels) p;
        let highFrag = sp_Record p;
        let p = LoadHigh32Bits value p;
        p \<leftarrow> HalfRender (highMatcher sm) (Push ''high'' (Matched ls) (Mismatched ls) ls) p;
        MustHaveJumpedTo highFrag [Matched ls, Mismatched ls] p
      })"

definition high32BitsMatch :: "halfValueMatcher \<Rightarrow> splitMatcher" where
  "high32BitsMatch hvm = \<lparr>sm_repr = '''', highMatcher = hvm, lowMatcher = halfAnyValue\<rparr>"

definition low32BitsMatch :: "halfValueMatcher \<Rightarrow> splitMatcher" where
  "low32BitsMatch hvm = \<lparr>sm_repr = '''', highMatcher = halfAnyValue, lowMatcher = hvm\<rparr>"

definition high32Bits :: "u64 \<Rightarrow> u32" where
  "high32Bits val = ucast (drop_bit 32 val)"

definition low32Bits :: "u64 \<Rightarrow> u32" where
  "low32Bits val = ucast val"

subsection \<open>Matchers of 64-bit values\<close>

datatype ValueMatcher =
    AnyValue
  | EqualTo u64
  | NotEqual u64
  | GreaterThan u64
  | GreaterThanOrEqual u64
  | LessThan u64
  | LessThanOrEqual u64
  | NonNegativeFD
  | maskedEqual u64 u64
  | SplitMatcher splitMatcher
  | invalidValueMatcher

definition MaskedEqual :: "u64 \<Rightarrow> u64 \<Rightarrow> ValueMatcher" where
  "MaskedEqual msk value = maskedEqual msk value"

definition BitsAllowlist :: "u64 \<Rightarrow> ValueMatcher" where
  "BitsAllowlist allowlist = MaskedEqual (NOT allowlist) 0"

fun vm_String :: "ValueMatcher \<Rightarrow> string option" where
  "vm_String AnyValue = Some ''== *''"
| "vm_String (EqualTo eq) = Some (if eq = 0 then ''== 0'' else ''== '' @ fmt_0x (unat eq))"
| "vm_String (NotEqual ne) = Some (''!= '' @ fmt_0x (unat ne))"
| "vm_String (GreaterThan gt) = Some (''> '' @ fmt_0x (unat gt))"
| "vm_String (GreaterThanOrEqual ge) = Some (''>= '' @ fmt_0x (unat ge))"
| "vm_String (LessThan lt) = Some (''< '' @ fmt_0x (unat lt))"
| "vm_String (LessThanOrEqual le) = Some (''<= '' @ fmt_0x (unat le))"
| "vm_String NonNegativeFD = Some ''is non-negative FD''"
| "vm_String (maskedEqual msk v) = Some (''& '' @ fmt_0x (unat msk) @ '' == '' @ fmt_0x (unat v))"
| "vm_String (SplitMatcher sm) = split_String sm"
| "vm_String invalidValueMatcher = None"

fun vm_Repr :: "ValueMatcher \<Rightarrow> string" where
  "vm_Repr AnyValue = ''== *''"
| "vm_Repr (EqualTo eq) = (if eq = 0 then ''== 0'' else ''== '' @ fmt_0x (unat eq))"
| "vm_Repr (NotEqual ne) = ''!= '' @ fmt_0x (unat ne)"
| "vm_Repr (GreaterThan gt) = ''> '' @ fmt_0x (unat gt)"
| "vm_Repr (GreaterThanOrEqual ge) = ''>= '' @ fmt_0x (unat ge)"
| "vm_Repr (LessThan lt) = ''< '' @ fmt_0x (unat lt)"
| "vm_Repr (LessThanOrEqual le) = ''<= '' @ fmt_0x (unat le)"
| "vm_Repr NonNegativeFD = ''NonNegativeFD''"
| "vm_Repr (maskedEqual msk v) = ''& '' @ fmt_0x (unat msk) @ '' == '' @ fmt_0x (unat v)"
| "vm_Repr (SplitMatcher sm) = split_Repr sm"
| "vm_Repr invalidValueMatcher = ''invalidValueMatcher''"

text \<open>\<open>None\<close> for the matchers that do not implement \<^verbatim>\<open>splittableValueMatcher\<close>.\<close>

fun split_vm :: "ValueMatcher \<Rightarrow> splitMatcher option" where
  "split_vm (EqualTo eq) = Some \<lparr>sm_repr = vm_Repr (EqualTo eq),
     highMatcher = halfEqualTo (high32Bits eq), lowMatcher = halfEqualTo (low32Bits eq)\<rparr>"
| "split_vm NonNegativeFD = Some \<lparr>sm_repr = vm_Repr NonNegativeFD,
     highMatcher = halfEqualTo 0, lowMatcher = halfNotSet (push_bit 31 1)\<rparr>"
| "split_vm (maskedEqual msk v) = Some \<lparr>sm_repr = vm_Repr (maskedEqual msk v),
     highMatcher = halfMaskedEqual (high32Bits msk) (high32Bits v),
     lowMatcher = halfMaskedEqual (low32Bits msk) (low32Bits v)\<rparr>"
| "split_vm _ = None"

definition renderSplittable ::
  "ValueMatcher \<Rightarrow> labelSet \<Rightarrow> matchedValue \<Rightarrow> syscallProgram \<Rightarrow> syscallProgram option" where
  "renderSplittable sm ls value p = do { sp \<leftarrow> split_vm sm; split_Render sp ls value p }"

fun vm_Render ::
  "ValueMatcher \<Rightarrow> labelSet \<Rightarrow> matchedValue \<Rightarrow> syscallProgram \<Rightarrow> syscallProgram option" where
  "vm_Render AnyValue ls value p = JumpTo (Matched ls) p"
| "vm_Render (EqualTo eq) ls value p = renderSplittable (EqualTo eq) ls value p"
| "vm_Render (NotEqual ne) ls value p =
     renderSplittable (EqualTo ne) (Push ''inverted'' (Mismatched ls) (Matched ls) ls) value p"
| "vm_Render (GreaterThan gt) ls value p =
     do {
       let high = high32Bits gt;
       let p = LoadHigh32Bits value p;
       p \<leftarrow> IfNot (bpf_Jmp OR bpf_Jge OR bpf_K) high (Mismatched ls) p;
       p \<leftarrow> IfNot (bpf_Jmp OR bpf_Jeq OR bpf_K) high (Matched ls) p;
       let p = LoadLow32Bits value p;
       p \<leftarrow> IfNot (bpf_Jmp OR bpf_Jgt OR bpf_K) (low32Bits gt) (Mismatched ls) p;
       JumpTo (Matched ls) p
     }"
| "vm_Render (GreaterThanOrEqual ge) ls value p =
     do {
       let high = high32Bits ge;
       let p = LoadHigh32Bits value p;
       p \<leftarrow> IfNot (bpf_Jmp OR bpf_Jge OR bpf_K) high (Mismatched ls) p;
       p \<leftarrow> IfNot (bpf_Jmp OR bpf_Jeq OR bpf_K) high (Matched ls) p;
       let p = LoadLow32Bits value p;
       p \<leftarrow> IfNot (bpf_Jmp OR bpf_Jge OR bpf_K) (low32Bits ge) (Mismatched ls) p;
       JumpTo (Matched ls) p
     }"
| "vm_Render (LessThan lt) ls value p =
     do {
       let high = high32Bits lt;
       let p = LoadHigh32Bits value p;
       p \<leftarrow> sp_If (bpf_Jmp OR bpf_Jgt OR bpf_K) high (Mismatched ls) p;
       p \<leftarrow> IfNot (bpf_Jmp OR bpf_Jeq OR bpf_K) high (Matched ls) p;
       let p = LoadLow32Bits value p;
       p \<leftarrow> sp_If (bpf_Jmp OR bpf_Jge OR bpf_K) (low32Bits lt) (Mismatched ls) p;
       JumpTo (Matched ls) p
     }"
| "vm_Render (LessThanOrEqual le) ls value p =
     do {
       let high = high32Bits le;
       let p = LoadHigh32Bits value p;
       p \<leftarrow> sp_If (bpf_Jmp OR bpf_Jgt OR bpf_K) high (Mismatched ls) p;
       p \<leftarrow> IfNot (bpf_Jmp OR bpf_Jeq OR bpf_K) high (Matched ls) p;
       let p = LoadLow32Bits value p;
       p \<leftarrow> sp_If (bpf_Jmp OR bpf_Jgt OR bpf_K) (low32Bits le) (Mismatched ls) p;
       JumpTo (Matched ls) p
     }"
| "vm_Render NonNegativeFD ls value p = renderSplittable NonNegativeFD ls value p"
| "vm_Render (maskedEqual msk v) ls value p = renderSplittable (maskedEqual msk v) ls value p"
| "vm_Render (SplitMatcher sm) ls value p = split_Render sm ls value p"
| "vm_Render invalidValueMatcher ls value p = None"

subsection \<open>Rules\<close>

datatype SyscallRule =
    MatchAll
  | Or "SyscallRule list"
  | And "SyscallRule list"
  | PerArg "ValueMatcher option list"

abbreviation RuleIP :: nat where "RuleIP \<equiv> 6"

text \<open>The loop of \<open>PerArg.Render\<close>, from argument \<open>i\<close> on.\<close>

fun render_args ::
  "nat \<Rightarrow> ValueMatcher option list \<Rightarrow> labelSet \<Rightarrow> syscallProgram \<Rightarrow> syscallProgram option" where
  "render_args i [] ls p = JumpTo (Matched ls) p"
| "render_args i (None # pa) ls p = render_args (Suc i) pa ls p"
| "render_args i (Some arg # pa) ls p =
     do {
       let frag = sp_Record p;
       let (nextArgLabel, ls) = NewLabel ls;
       let (low, high, labelSuffix) =
         (if i = RuleIP then (seccompDataOffsetIPLow, seccompDataOffsetIPHigh, ''rip'')
          else (seccompDataOffsetArgLow i, seccompDataOffsetArgHigh i, ''arg['' @ fmt_d i @ '']''));
       let als = Push labelSuffix nextArgLabel (Mismatched ls) ls;
       p \<leftarrow> vm_Render arg als \<lparr>dataOffsetHigh = high, dataOffsetLow = low\<rparr> p;
       p \<leftarrow> MustHaveJumpedTo frag [Matched als, Mismatched als] p;
       p \<leftarrow> sp_Label nextArgLabel p;
       render_args (Suc i) pa ls p
     }"

fun rule_Render :: "SyscallRule \<Rightarrow> labelSet \<Rightarrow> syscallProgram \<Rightarrow> syscallProgram option"
  and render_or :: "nat \<Rightarrow> SyscallRule list \<Rightarrow> labelSet \<Rightarrow> syscallProgram \<Rightarrow> syscallProgram option"
  and render_and :: "nat \<Rightarrow> SyscallRule list \<Rightarrow> labelSet \<Rightarrow> syscallProgram \<Rightarrow> syscallProgram option" where
  "rule_Render MatchAll ls p = JumpTo (Matched ls) p"
| "rule_Render (Or rs) ls p = (if rs = [] then None else render_or 0 rs ls p)"
| "rule_Render (And rs) ls p = (if rs = [] then None else render_and 0 rs ls p)"
| "rule_Render (PerArg pa) ls p = render_args 0 pa ls p"
| "render_or i [] ls p = JumpTo (Mismatched ls) p"
| "render_or i (rule # rs) ls p =
     do {
       let frag = sp_Record p;
       let (nextRuleLabel, ls) = NewLabel ls;
       p \<leftarrow> rule_Render rule (Push (''or['' @ fmt_d i @ '']'') (Matched ls) nextRuleLabel ls) p;
       p \<leftarrow> MustHaveJumpedTo frag [Matched ls, nextRuleLabel] p;
       p \<leftarrow> sp_Label nextRuleLabel p;
       render_or (Suc i) rs ls p
     }"
| "render_and i [] ls p = JumpTo (Matched ls) p"
| "render_and i (rule # rs) ls p =
     do {
       let frag = sp_Record p;
       let (nextRuleLabel, ls) = NewLabel ls;
       p \<leftarrow> rule_Render rule (Push (''and['' @ fmt_d i @ '']'') nextRuleLabel (Mismatched ls) ls) p;
       p \<leftarrow> MustHaveJumpedTo frag [nextRuleLabel, Mismatched ls] p;
       p \<leftarrow> sp_Label nextRuleLabel p;
       render_and (Suc i) rs ls p
     }"

fun rule_Copy :: "SyscallRule \<Rightarrow> SyscallRule" where
  "rule_Copy MatchAll = MatchAll"
| "rule_Copy (Or rs) = Or (map rule_Copy rs)"
| "rule_Copy (And rs) = And (map rule_Copy rs)"
| "rule_Copy (PerArg pa) = PerArg [pa ! 0, pa ! 1, pa ! 2, pa ! 3, pa ! 4, pa ! 5, pa ! 6]"

text \<open>The text form of a rule.  \<open>perarg_String\<close> is the loop over the arguments, with the text so far.\<close>

definition arg_name :: "nat \<Rightarrow> string" where
  "arg_name i = (if i = RuleIP then ''rip'' else ''arg['' @ fmt_d i @ '']'')"

fun perarg_String :: "nat \<Rightarrow> ValueMatcher option list \<Rightarrow> nat \<Rightarrow> string \<Rightarrow> string option" where
  "perarg_String i [] writtenArgs sb =
     Some (if writtenArgs = 0 then ''true'' else if writtenArgs = 1 then sb else ''('' @ sb @ '')'')"
| "perarg_String i (None # pa) writtenArgs sb = perarg_String (Suc i) pa writtenArgs sb"
| "perarg_String i (Some arg # pa) writtenArgs sb =
     (if arg = AnyValue then perarg_String (Suc i) pa writtenArgs sb
      else do {
        let sb = (if writtenArgs \<noteq> 0 then sb @ '' && '' else sb);
        str \<leftarrow> vm_String arg;
        let sb = (if strings_Contains str ''VAL'' then sb @ strings_ReplaceAll str ''VAL'' (arg_name i)
                  else sb @ arg_name i @ '' '' @ str);
        perarg_String (Suc i) pa (Suc writtenArgs) sb
      })"

fun rule_String :: "SyscallRule \<Rightarrow> string option"
  and strings_of :: "SyscallRule list \<Rightarrow> string list option" where
  "rule_String MatchAll = Some ''true''"
| "rule_String (Or rs) =
     (case rs of
        [] \<Rightarrow> Some ''invalid''
      | [r] \<Rightarrow> rule_String r
      | _ \<Rightarrow> map_option (\<lambda>ss. ''('' @ strings_Join ss '' || '' @ '')'') (strings_of rs))"
| "rule_String (And rs) =
     (case rs of
        [] \<Rightarrow> Some ''invalid''
      | [r] \<Rightarrow> rule_String r
      | _ \<Rightarrow> map_option (\<lambda>ss. ''('' @ strings_Join ss '' && '' @ '')'') (strings_of rs))"
| "rule_String (PerArg pa) = perarg_String 0 pa 0 []"
| "strings_of [] = Some []"
| "strings_of (r # rs) = do { s \<leftarrow> rule_String r; ss \<leftarrow> strings_of rs; Some (s # ss) }"

subsection \<open>Meaning\<close>

text \<open>
  The data of a system call, \<^verbatim>\<open>linux.SeccompData\<close>.  The number is a signed 32-bit integer
  in Go; filters read its bits.
\<close>

record SeccompData =
  Nr :: u32
  Arch :: u32
  InstructionPointer :: u64
  Args :: "u64 list"

fun half_matches :: "halfValueMatcher \<Rightarrow> u32 \<Rightarrow> bool" where
  "half_matches halfAnyValue v \<longleftrightarrow> True"
| "half_matches (halfEqualTo x) v \<longleftrightarrow> v = x"
| "half_matches (halfNotSet x) v \<longleftrightarrow> v AND x = 0"
| "half_matches (halfMaskedEqual msk x) v \<longleftrightarrow> v AND msk = x"
| "half_matches invalidHalfValueMatcher v \<longleftrightarrow> False"

definition split_matches :: "splitMatcher \<Rightarrow> u64 \<Rightarrow> bool" where
  "split_matches sm v \<longleftrightarrow>
     half_matches (highMatcher sm) (high32Bits v) \<and> half_matches (lowMatcher sm) (low32Bits v)"

fun vm_matches :: "ValueMatcher \<Rightarrow> u64 \<Rightarrow> bool" where
  "vm_matches AnyValue v \<longleftrightarrow> True"
| "vm_matches (EqualTo x) v \<longleftrightarrow> v = x"
| "vm_matches (NotEqual x) v \<longleftrightarrow> v \<noteq> x"
| "vm_matches (GreaterThan x) v \<longleftrightarrow> v > x"
| "vm_matches (GreaterThanOrEqual x) v \<longleftrightarrow> v \<ge> x"
| "vm_matches (LessThan x) v \<longleftrightarrow> v < x"
| "vm_matches (LessThanOrEqual x) v \<longleftrightarrow> v \<le> x"
| "vm_matches NonNegativeFD v \<longleftrightarrow> v < 2 ^ 31"
| "vm_matches (maskedEqual msk x) v \<longleftrightarrow> v AND msk = x"
| "vm_matches (SplitMatcher sm) v \<longleftrightarrow> split_matches sm v"
| "vm_matches invalidValueMatcher v \<longleftrightarrow> False"

definition arg_value :: "SeccompData \<Rightarrow> nat \<Rightarrow> u64" where
  "arg_value d i = (if i = RuleIP then InstructionPointer d else Args d ! i)"

fun args_match :: "SeccompData \<Rightarrow> nat \<Rightarrow> ValueMatcher option list \<Rightarrow> bool" where
  "args_match d i [] \<longleftrightarrow> True"
| "args_match d i (None # pa) \<longleftrightarrow> args_match d (Suc i) pa"
| "args_match d i (Some arg # pa) \<longleftrightarrow> vm_matches arg (arg_value d i) \<and> args_match d (Suc i) pa"

fun rule_matches :: "SeccompData \<Rightarrow> SyscallRule \<Rightarrow> bool" where
  "rule_matches d MatchAll \<longleftrightarrow> True"
| "rule_matches d (Or rs) \<longleftrightarrow> list_ex (rule_matches d) rs"
| "rule_matches d (And rs) \<longleftrightarrow> list_all (rule_matches d) rs"
| "rule_matches d (PerArg pa) \<longleftrightarrow> args_match d 0 pa"

text \<open>
  The rules that can be rendered: no empty disjunction or conjunction, seven arguments, and no
  place holder of the optimiser.
\<close>

fun vm_valid :: "ValueMatcher \<Rightarrow> bool" where
  "vm_valid (SplitMatcher sm) \<longleftrightarrow>
     highMatcher sm \<noteq> invalidHalfValueMatcher \<and> lowMatcher sm \<noteq> invalidHalfValueMatcher"
| "vm_valid m \<longleftrightarrow> m \<noteq> invalidValueMatcher"

fun rule_valid :: "SyscallRule \<Rightarrow> bool" where
  "rule_valid MatchAll \<longleftrightarrow> True"
| "rule_valid (Or rs) \<longleftrightarrow> rs \<noteq> [] \<and> list_all rule_valid rs"
| "rule_valid (And rs) \<longleftrightarrow> rs \<noteq> [] \<and> list_all rule_valid rs"
| "rule_valid (PerArg pa) \<longleftrightarrow> length pa = 7 \<and> list_all (\<lambda>m. pred_option vm_valid m) pa"

end
