(* ===== verification/Seccomp_Matchers.thy ===== *)
theory Seccomp_Matchers
  imports Seccomp_Fragment Seccomp_Rules
begin

text \<open>
  Rendering of value matchers: the code that a matcher adds to the program leads to the label for
  a match exactly when the matcher accepts the value, for all matchers of
  \<^verbatim>\<open>pkg/seccomp/seccomp_rules.go\<close>.  BPF compares 32-bit words, so the first part relates
  comparisons of 64-bit values to comparisons of their halves.
\<close>

section \<open>Definitions\<close>

definition join32 :: "u32 \<Rightarrow> u32 \<Rightarrow> u64" where
  "join32 hi lo = push_bit 32 (ucast hi) OR ucast lo"

abbreviation either :: "string \<Rightarrow> string \<Rightarrow> ((u32 \<Rightarrow> u32) \<Rightarrow> u32 \<Rightarrow> bool) \<Rightarrow> (u32 \<Rightarrow> u32) \<Rightarrow> u32 \<Rightarrow> string + u32" where
  "either M N P \<equiv> \<lambda>w a. if P w a then Inl M else Inl N"

definition beneath :: "string \<Rightarrow> string \<Rightarrow> bool" where
  "beneath P l \<longleftrightarrow> (\<exists>s. l = P @ ''#'' @ s \<or> l = P @ ''_'' @ s)"

lemma unat_high32Bits: "unat (high32Bits v) = unat v div 2 ^ 32"
proof -
  have "unat v div 2 ^ 32 < 2 ^ 32" using unsigned_less[of v] by (intro less_mult_imp_div_less) simp
  then show ?thesis
    by (simp only: high32Bits_def unsigned_ucast_eq unsigned_drop_bit_eq drop_bit_take_bit)
      (simp add: drop_bit_eq_div take_bit_nat_eq_self_iff)
qed

lemma unat_low32Bits: "unat (low32Bits v) = unat v mod 2 ^ 32"
  by (simp add: low32Bits_def unsigned_ucast_eq take_bit_eq_mod)

lemma unat_halves: "unat v = unat (high32Bits v) * 2 ^ 32 + unat (low32Bits v)"
  by (simp add: unat_high32Bits unat_low32Bits)

lemma u64_eq_halves: "v = x \<longleftrightarrow> high32Bits v = high32Bits x \<and> low32Bits v = low32Bits x"
  by (metis unat_halves unsigned_word_eqI)

lemma u64_less_halves:
  "v < x \<longleftrightarrow> high32Bits v < high32Bits x \<or> high32Bits v = high32Bits x \<and> low32Bits v < low32Bits x"
proof -
  have b: "unat (low32Bits y) < 2 ^ 32" for y using unsigned_less[of "low32Bits y"] by simp
  have e: "high32Bits v = high32Bits x \<longleftrightarrow> unat (high32Bits v) = unat (high32Bits x)"
    by (rule word_unat_eq_iff)
  have "h * 2 ^ 32 + l < h' * 2 ^ 32 + l' \<longleftrightarrow> h < h' \<or> h = h' \<and> l < l'"
    if "l < 2 ^ 32" "l' < 2 ^ 32" for h l h' l' :: nat using that by (cases h h' rule: linorder_cases) auto
  from this[OF b[of v] b[of x]] show ?thesis unfolding word_less_nat_alt e unat_halves[of v] unat_halves[of x] .
qed

lemma u64_le_halves:
  "v \<le> x \<longleftrightarrow> high32Bits v < high32Bits x \<or> high32Bits v = high32Bits x \<and> low32Bits v \<le> low32Bits x"
  using u64_less_halves[of v x] u64_eq_halves[of v x] by (auto simp: order_le_less)

lemma high32Bits_and: "high32Bits (v AND x) = high32Bits v AND high32Bits x"
  by (simp add: high32Bits_def unsigned_and_eq)

lemma low32Bits_and: "low32Bits (v AND x) = low32Bits v AND low32Bits x"
  by (simp add: low32Bits_def unsigned_and_eq)

lemma high32Bits_join32 [simp]: "high32Bits (join32 h l) = h"
  by (rule bit_eqI) (auto simp: high32Bits_def join32_def bit_simps dest: bit_imp_le_length)

lemma low32Bits_join32 [simp]: "low32Bits (join32 h l) = l"
  by (rule bit_eqI) (auto simp: low32Bits_def join32_def bit_simps)

lemma join32_halves [simp]: "join32 (high32Bits v) (low32Bits v) = v"
  by (simp add: u64_eq_halves)

lemma top_bit_clear: "(x :: u32) AND push_bit 31 1 = 0 \<longleftrightarrow> unat x < 2 ^ 31"
proof -
  have "x AND push_bit 31 1 = 0 \<longleftrightarrow> \<not> bit x 31"
  proof -
    have "x AND push_bit 31 1 = 0 \<longleftrightarrow> (\<forall>n < 32. bit x n \<longrightarrow> \<not> 31 \<le> n)"
      by (auto simp: bit_eq_iff bit_simps simp del: push_bit_of_1)
    also have "\<dots> \<longleftrightarrow> \<not> bit x 31"
    proof
      show "\<not> bit x 31" if "\<forall>n < 32. bit x n \<longrightarrow> \<not> 31 \<le> n" using that[rule_format, of 31] by auto
      show "\<forall>n < 32. bit x n \<longrightarrow> \<not> 31 \<le> n" if b: "\<not> bit x 31"
      proof (intro allI impI notI)
        fix n :: nat assume "n < 32" "bit x n" "31 \<le> n"
        moreover from this have "n = 31" by linarith
        ultimately show False using b by blast
      qed
    qed
    finally show ?thesis .
  qed
  also have "\<dots> \<longleftrightarrow> \<not> odd (unat x div 2147483648)"
  proof -
    have "bit x 31 = bit (unat x) 31" by (simp add: bit_unsigned_iff)
    also have "\<dots> = odd (unat x div 2 ^ 31)" by (rule bit_iff_odd)
    finally show ?thesis by (simp only: power_numeral_reduce Num.pow.simps) simp
  qed
  also have "\<dots> \<longleftrightarrow> unat x < 2147483648"
  proof -
    have "unat x < 4294967296" by (rule unat_u32_less)
    then have "unat x div 2147483648 = (if unat x < 2147483648 then 0 else 1)" by (auto intro: div_nat_eqI)
    then show ?thesis by (cases "unat x < 2147483648") (simp_all only: if_True if_False, simp_all)
  qed
  finally show ?thesis by simp
qed

lemma less_2_31: "v < 2 ^ 31 \<longleftrightarrow> unat (high32Bits v) = 0 \<and> unat (low32Bits v) < 2 ^ 31"
proof -
  have p: "unat (2 ^ 31 :: u64) = 2147483648" "(2 ^ 31 :: nat) = 2147483648" "(2 ^ 32 :: nat) = 4294967296" by simp_all
  have "n < 2147483648 \<longleftrightarrow> n div 4294967296 = 0 \<and> n mod 4294967296 < 2147483648" for n :: nat
  proof
    assume n: "n < 2147483648"
    then have "n < 4294967296" by linarith
    then have "n div 4294967296 = 0" "n mod 4294967296 = n" by (rule div_less, rule mod_less)
    with n show "n div 4294967296 = 0 \<and> n mod 4294967296 < 2147483648" by (simp only: simp_thms)
  next
    assume "n div 4294967296 = 0 \<and> n mod 4294967296 < 2147483648"
    then have z: "n div 4294967296 = 0" and n: "n mod 4294967296 < 2147483648" by (rule conjunct1, rule conjunct2)
    from z have "n < 4294967296" by (simp add: div_eq_0_iff)
    then have "n mod 4294967296 = n" by (rule mod_less)
    with n show "n < 2147483648" by (simp only:)
  qed
  from this[of "unat v"] show ?thesis by (simp only: word_less_nat_alt unat_low32Bits unat_high32Bits p)
qed

lemma split_vm_matches:
  assumes "split_vm m = Some sm" shows "split_matches sm v = vm_matches m v"
proof -
  consider x where "m = EqualTo x" | "m = NonNegativeFD" | msk x where "m = maskedEqual msk x"
    using assms by (cases m) simp_all
  then show ?thesis
  proof cases
    case 1
    have "split_matches sm v \<longleftrightarrow> high32Bits v = high32Bits x \<and> low32Bits v = low32Bits x"
      using assms 1 by (auto simp: split_matches_def)
    then show ?thesis unfolding 1 vm_matches.simps by (simp only: u64_eq_halves[of v x])
  next
    case 2
    have "split_matches sm v \<longleftrightarrow> high32Bits v = 0 \<and> low32Bits v AND push_bit 31 1 = 0"
      using assms 2 by (auto simp: split_matches_def simp del: push_bit_of_1)
    also have "\<dots> \<longleftrightarrow> v < 2 ^ 31" unfolding top_bit_clear less_2_31 unat_eq_0 ..
    finally show ?thesis using 2 by simp
  next
    case 3
    have "split_matches sm v \<longleftrightarrow> high32Bits v AND high32Bits msk = high32Bits x \<and> low32Bits v AND low32Bits msk = low32Bits x"
      using assms 3 by (auto simp: split_matches_def)
    then show ?thesis unfolding 3 vm_matches.simps
      by (simp only: u64_eq_halves[of "v AND msk" x] high32Bits_and low32Bits_and)
  qed
qed

section \<open>Conditional jumps and loads of the seccomp layer\<close>

lemma cond_then:
  assumes d: "direct b" and np: "\<not> placed b l" and c: "cond_op c"
    and jj: "jt = 1 \<and> jf = 0 \<and> \<not> pol \<or> jt = 0 \<and> jf = 1 \<and> pol"
  shows "\<exists>b1. JumpTo l (AddJump c k jt jf b) = Some b1 \<and> direct b1 \<and> placed b1 = placed b \<and>
    (\<forall>x. known b1 x \<longleftrightarrow> known b x \<or> x = l) \<and>
    (\<forall>b' S L R K out. renders b1 b' S L R K out \<longrightarrow> l \<notin> S \<longrightarrow>
       renders b b' S (insert l L) R {x. (x = l \<or> x \<in> K) \<and> (x = l \<longrightarrow> x \<in> K \<or> (\<forall>w a. out w a \<noteq> Inl l))}
         (\<lambda>w a. if jump_holds c k a = pol then Inl l else out w a))"
proof -
  note s = AddJump_spec[OF d, of c k jt jf]
  from JumpTo_spec[OF s(1), of l] np obtain b1 where
    b1: "JumpTo l (AddJump c k jt jf b) = Some b1" "direct b1" "placed b1 = placed b"
      "\<forall>x. known b1 x \<longleftrightarrow> known b x \<or> x = l" by (auto simp: s placed_def)
  with renders_cond[OF d np c b1(1) jj] show ?thesis by blast
qed

lemma If_then:
  assumes "direct b" "\<not> placed b l" "cond_op c"
  shows "\<exists>b1. sp_If c k l b = Some b1 \<and> direct b1 \<and> placed b1 = placed b \<and>
    (\<forall>x. known b1 x \<longleftrightarrow> known b x \<or> x = l) \<and>
    (\<forall>b' S L R K out. renders b1 b' S L R K out \<longrightarrow> l \<notin> S \<longrightarrow>
       renders b b' S (insert l L) R {x. (x = l \<or> x \<in> K) \<and> (x = l \<longrightarrow> x \<in> K \<or> (\<forall>w a. out w a \<noteq> Inl l))}
         (\<lambda>w a. if jump_holds c k a then Inl l else out w a))"
  using cond_then[OF assms, of 0 1 True k] by (simp add: sp_If_def)

lemma IfNot_then:
  assumes "direct b" "\<not> placed b l" "cond_op c"
  shows "\<exists>b1. IfNot c k l b = Some b1 \<and> direct b1 \<and> placed b1 = placed b \<and>
    (\<forall>x. known b1 x \<longleftrightarrow> known b x \<or> x = l) \<and>
    (\<forall>b' S L R K out. renders b1 b' S L R K out \<longrightarrow> l \<notin> S \<longrightarrow>
       renders b b' S (insert l L) R {x. (x = l \<or> x \<in> K) \<and> (x = l \<longrightarrow> x \<in> K \<or> (\<forall>w a. out w a \<noteq> Inl l))}
         (\<lambda>w a. if \<not> jump_holds c k a then Inl l else out w a))"
  using cond_then[OF assms, of 1 0 False k] by (simp add: IfNot_def)

lemma load_spec:
  assumes "direct b"
  shows "direct (AddStmt c k b)" "placed (AddStmt c k b) = placed b" "known (AddStmt c k b) = known b"
  using Stmt_spec[OF assms] by auto

section \<open>Matchers\<close>

text \<open>A test followed by a jump: the three shapes of the half matchers.\<close>

lemma If_jump:
  assumes d: "direct b" and np: "\<not> placed b x" "\<not> placed b y" and c: "cond_op c"
  shows "\<exists>b1 b'. sp_If c k x b = Some b1 \<and> JumpTo y b1 = Some b' \<and>
    renders b b' {} {x, y} {} {} (either x y (\<lambda>w a. jump_holds c k a))"
proof -
  from If_then[OF d np(1) c, of k] obtain b1 where b1: "sp_If c k x b = Some b1" "direct b1" "placed b1 = placed b"
    "\<And>b' S L R K out. renders b1 b' S L R K out \<Longrightarrow> x \<notin> S \<Longrightarrow>
       renders b b' S (insert x L) R {z. (z = x \<or> z \<in> K) \<and> (z = x \<longrightarrow> z \<in> K \<or> (\<forall>w a. out w a \<noteq> Inl x))}
         (\<lambda>w a. if jump_holds c k a then Inl x else out w a)" by blast
  from renders_jump[OF b1(2), of y] np(2) b1(3) obtain b' where
    b': "JumpTo y b1 = Some b'" "renders b1 b' {} {y} {} UNIV (\<lambda>_ _. Inl y)" by auto
  have "renders b b' {} {x, y} {} {} (either x y (\<lambda>w a. jump_holds c k a))"
    by (rule renders_weaken[OF b1(4)[OF b'(2)]]) auto
  with b1 b' show ?thesis by blast
qed

lemma IfNot_jump:
  assumes d: "direct b" and np: "\<not> placed b x" "\<not> placed b y" and c: "cond_op c"
  shows "\<exists>b1 b'. IfNot c k y b = Some b1 \<and> JumpTo x b1 = Some b' \<and>
    renders b b' {} {x, y} {} {} (either x y (\<lambda>w a. jump_holds c k a))"
proof -
  from IfNot_then[OF d np(2) c, of k] obtain b1 where b1: "IfNot c k y b = Some b1" "direct b1" "placed b1 = placed b"
    "\<And>b' S L R K out. renders b1 b' S L R K out \<Longrightarrow> y \<notin> S \<Longrightarrow>
       renders b b' S (insert y L) R {z. (z = y \<or> z \<in> K) \<and> (z = y \<longrightarrow> z \<in> K \<or> (\<forall>w a. out w a \<noteq> Inl y))}
         (\<lambda>w a. if \<not> jump_holds c k a then Inl y else out w a)" by blast
  from renders_jump[OF b1(2), of x] np(1) b1(3) obtain b' where
    b': "JumpTo x b1 = Some b'" "renders b1 b' {} {x} {} UNIV (\<lambda>_ _. Inl x)" by auto
  have "renders b b' {} {x, y} {} {} (either x y (\<lambda>w a. jump_holds c k a))"
    by (rule renders_weaken[OF b1(4)[OF b'(2)]]) auto
  with b1 b' show ?thesis by blast
qed

lemma HalfRender_renders:
  assumes d: "direct b" and np: "\<not> placed b (Matched ls)" "\<not> placed b (Mismatched ls)" and v: "h \<noteq> invalidHalfValueMatcher"
  shows "\<exists>b'. HalfRender h ls b = Some b' \<and>
    renders b b' {} {Matched ls, Mismatched ls} {} {} (either (Matched ls) (Mismatched ls) (\<lambda>w a. half_matches h a))"
proof (cases h)
  case halfAnyValue
  from renders_jump[OF d np(1)] obtain b' where b': "JumpTo (Matched ls) b = Some b'"
    "renders b b' {} {Matched ls} {} UNIV (\<lambda>_ _. Inl (Matched ls))" by blast
  have "renders b b' {} {Matched ls, Mismatched ls} {} {} (either (Matched ls) (Mismatched ls) (\<lambda>w a. half_matches h a))"
    by (rule renders_weaken[OF b'(2)]) (simp_all add: halfAnyValue)
  with b'(1) halfAnyValue show ?thesis by simp
next
  case (halfEqualTo x)
  from If_jump[OF d np, of "bpf_Jmp OR bpf_Jeq OR bpf_K" x] halfEqualTo show ?thesis
    by (auto simp: jump_holds_def cong: if_cong)
next
  case (halfNotSet x)
  from If_jump[OF d np(2,1), of "bpf_Jmp OR bpf_Jset OR bpf_K" x] obtain b1 b' where
    b': "sp_If (bpf_Jmp OR bpf_Jset OR bpf_K) x (Mismatched ls) b = Some b1" "JumpTo (Matched ls) b1 = Some b'"
    "renders b b' {} {Mismatched ls, Matched ls} {} {}
      (either (Mismatched ls) (Matched ls) (\<lambda>w a. jump_holds (bpf_Jmp OR bpf_Jset OR bpf_K) x a))" by auto
  have "renders b b' {} {Matched ls, Mismatched ls} {} {} (either (Matched ls) (Mismatched ls) (\<lambda>w a. half_matches h a))"
    by (rule renders_weaken[OF b'(3)]) (auto simp: halfNotSet jump_holds_def)
  with b' halfNotSet show ?thesis by simp
next
  case (halfMaskedEqual msk x)
  let ?b = "AddStmt 0x54 msk b"
  from IfNot_jump[of ?b "Matched ls" "Mismatched ls" "bpf_Jmp OR bpf_Jeq OR bpf_K" x] np load_spec[OF d, of "0x54" msk]
  obtain b1 b' where
    b': "IfNot (bpf_Jmp OR bpf_Jeq OR bpf_K) x (Mismatched ls) ?b = Some b1" "JumpTo (Matched ls) b1 = Some b'"
    "renders ?b b' {} {Matched ls, Mismatched ls} {} {}
      (either (Matched ls) (Mismatched ls) (\<lambda>w a. jump_holds (bpf_Jmp OR bpf_Jeq OR bpf_K) x a))" by auto
  have "renders b b' {} {Matched ls, Mismatched ls} {} {} (either (Matched ls) (Mismatched ls) (\<lambda>w a. half_matches h a))"
    by (rule renders_weaken[OF renders_and[OF d b'(3)]]) (auto simp: halfMaskedEqual jump_holds_def)
  with b' halfMaskedEqual show ?thesis by (simp add: sp_Stmt_def)
qed (use v in simp)

text \<open>The same after loading one half of a value.\<close>

lemma load_HalfRender:
  assumes d: "direct b" and np: "\<not> placed b (Matched ls)" "\<not> placed b (Mismatched ls)" and v: "h \<noteq> invalidHalfValueMatcher"
    and off: "word_offset off"
  shows "\<exists>b'. HalfRender h ls (AddStmt 0x20 off b) = Some b' \<and>
    renders b b' {} {Matched ls, Mismatched ls} {} {} (either (Matched ls) (Mismatched ls) (\<lambda>w a. half_matches h (w off)))"
proof -
  let ?b = "AddStmt 0x20 off b"
  note s = load_spec[OF d, of "0x20" off]
  from HalfRender_renders[OF s(1), of ls h] np v s(2) obtain b' where b': "HalfRender h ls ?b = Some b'"
    "renders ?b b' {} {Matched ls, Mismatched ls} {} {} (either (Matched ls) (Mismatched ls) (\<lambda>w a. half_matches h a))" by auto
  from renders_load[OF d b'(2) off] b'(1) show ?thesis by blast
qed

lemma beneath_NewLabel: "beneath (ls_prefix ls) (fst (NewLabel ls))"
  by (auto simp: beneath_def NewLabel_def)

lemma beneath_Push: "ls_prefix ls \<noteq> [] \<Longrightarrow> beneath (ls_prefix (Push x M N ls)) l \<Longrightarrow> beneath (ls_prefix ls) l"
  by (auto simp: beneath_def Push_def)

lemma Push_sel [simp]:
  "Matched (Push x M N ls) = M" "Mismatched (Push x M N ls) = N" "labelCounter (Push x M N ls) = 0"
  by (simp_all add: Push_def)

lemma NewLabel_sel [simp]:
  "Matched (snd (NewLabel ls)) = Matched ls" "Mismatched (snd (NewLabel ls)) = Mismatched ls"
  "ls_prefix (snd (NewLabel ls)) = ls_prefix ls" "labelCounter (snd (NewLabel ls)) = Suc (labelCounter ls)"
  by (simp_all add: NewLabel_def)

lemma Label_then:
  assumes "direct b" "\<not> placed b n"
  shows "\<exists>b'. sp_Label n b = Some b' \<and> direct b' \<and> (\<forall>x. placed b' x \<longleftrightarrow> placed b x \<or> x = n) \<and>
    (\<forall>x. known b' x \<longleftrightarrow> known b x \<or> x = n)"
  using Label_spec[OF assms] by blast

lemma split_Render_renders:
  assumes d: "direct b" and np: "\<not> placed b (Matched ls)" "\<not> placed b (Mismatched ls)"
    and v: "highMatcher sm \<noteq> invalidHalfValueMatcher" "lowMatcher sm \<noteq> invalidHalfValueMatcher"
    and off: "word_offset (dataOffsetHigh val)" "word_offset (dataOffsetLow val)"
    and n: "\<not> known b (fst (NewLabel ls))" "fst (NewLabel ls) \<noteq> Matched ls" "fst (NewLabel ls) \<noteq> Mismatched ls"
  shows "\<exists>b'. split_Render sm ls val b = Some b' \<and>
    renders b b' {fst (NewLabel ls)} {Matched ls, Mismatched ls} {} {}
      (either (Matched ls) (Mismatched ls) (\<lambda>w a. half_matches (highMatcher sm) (w (dataOffsetHigh val)) \<and>
         half_matches (lowMatcher sm) (w (dataOffsetLow val))))"
proof -
  let ?M = "Matched ls" and ?N = "Mismatched ls" and ?h = "highMatcher sm" and ?l = "lowMatcher sm"
  let ?n = "fst (NewLabel ls)"
  have L: "LoadLow32Bits val p = AddStmt 0x20 (dataOffsetLow val) p"
    "LoadHigh32Bits val p = AddStmt 0x20 (dataOffsetHigh val) p" for p
    by (simp_all add: LoadLow32Bits_def LoadHigh32Bits_def sp_Stmt_def)
  let ?out = "either ?M ?N (\<lambda>w a. half_matches ?h (w (dataOffsetHigh val)) \<and> half_matches ?l (w (dataOffsetLow val)))"
  consider (both) "?h = halfAnyValue" "?l = halfAnyValue" | (low) "?h = halfAnyValue" "?l \<noteq> halfAnyValue"
    | (high) "?h \<noteq> halfAnyValue" "?l = halfAnyValue" | (none) "?h \<noteq> halfAnyValue" "?l \<noteq> halfAnyValue" by blast
  then show ?thesis
  proof cases
    case both
    from renders_jump[OF d np(1)] obtain b' where b': "JumpTo ?M b = Some b'" "renders b b' {} {?M} {} UNIV (\<lambda>_ _. Inl ?M)"
      by blast
    have "renders b b' {?n} {?M, ?N} {} {} ?out" by (rule renders_weaken[OF b'(2)]) (use both in simp_all)
    with b'(1) both show ?thesis by (auto simp: split_Render_def)
  next
    case low
    from load_HalfRender[OF d np v(2) off(2)] obtain b' where
      b': "HalfRender ?l ls (AddStmt 0x20 (dataOffsetLow val) b) = Some b'"
      "renders b b' {} {?M, ?N} {} {} (either ?M ?N (\<lambda>w a. half_matches ?l (w (dataOffsetLow val))))" by blast
    have "renders b b' {?n} {?M, ?N} {} {} ?out" by (rule renders_weaken[OF b'(2)]) (use low in simp_all)
    with b'(1) low show ?thesis by (auto simp: split_Render_def L)
  next
    case high
    from load_HalfRender[OF d np v(1) off(1)] obtain b' where
      b': "HalfRender ?h ls (AddStmt 0x20 (dataOffsetHigh val) b) = Some b'"
      "renders b b' {} {?M, ?N} {} {} (either ?M ?N (\<lambda>w a. half_matches ?h (w (dataOffsetHigh val))))" by blast
    have "renders b b' {?n} {?M, ?N} {} {} ?out" by (rule renders_weaken[OF b'(2)]) (use high in simp_all)
    with b'(1) high show ?thesis by (auto simp: split_Render_def L)
  next
    case none
    define ls' where "ls' = snd (NewLabel ls)"
    define lo where "lo = Push ''low'' ?n ?N ls'"
    have npn: "\<not> placed b ?n" using n(1) placed_known by blast
    from load_HalfRender[OF d, of lo ?l "dataOffsetLow val"] npn np v off obtain p1 where
      p1: "HalfRender ?l lo (AddStmt 0x20 (dataOffsetLow val) b) = Some p1"
      "renders b p1 {} {?n, ?N} {} {} (either ?n ?N (\<lambda>w a. half_matches ?l (w (dataOffsetLow val))))"
      by (auto simp: lo_def cong: if_cong)
    have a1: "MustHaveJumpedTo (sp_Record b) [?n, ?N] p1 = Some p1" by (rule renders_assertion'[OF p1(2)]) simp
    have np1: "\<not> placed p1 x" if "\<not> placed b x" for x using rendersD(5)[OF p1(2)] that by blast
    from Label_then[OF rendersD(1)[OF p1(2)] np1[OF npn]] obtain p2 where
      p2: "sp_Label ?n p1 = Some p2" "direct p2" "\<And>x. placed p2 x \<longleftrightarrow> placed p1 x \<or> x = ?n" by blast
    define hi where "hi = Push ''high'' ?M ?N ls'"
    from load_HalfRender[OF p2(2), of hi ?h "dataOffsetHigh val"] np1 np p2(3) n v off obtain p3 where
      p3: "HalfRender ?h hi (AddStmt 0x20 (dataOffsetHigh val) p2) = Some p3"
      "renders p2 p3 {} {?M, ?N} {} {} (either ?M ?N (\<lambda>w a. half_matches ?h (w (dataOffsetHigh val))))"
      by (auto simp: hi_def cong: if_cong)
    have a3: "MustHaveJumpedTo (sp_Record p2) [?M, ?N] p3 = Some p3" by (rule renders_assertion'[OF p3(2)]) simp
    have "renders b p3 {?n} {?M, ?N} {} {} ?out"
      by (rule renders_weaken[OF renders_seq[OF p1(2) npn _ p2(1) p3(2), where K = "{}"]]) (use n in auto)
    moreover have "split_Render sm ls val b = Some p3"
      using none p1(1) a1 p2(1) p3(1) a3
      by (simp add: split_Render_def L lo_def hi_def ls'_def split_beta)
    ultimately show ?thesis by blast
  qed
qed

text \<open>The comparisons of 64-bit values.\<close>

lemma compare_renders:
  assumes d: "direct b" and np: "\<not> placed b M" "\<not> placed b N" and c: "cond_op c1" "cond_op c3"
    and off: "word_offset hi" "word_offset lo"
    and jj: "jt = 1 \<and> jf = 0 \<and> \<not> pol \<or> jt = 0 \<and> jf = 1 \<and> pol"
  shows "\<exists>b1 b2 b3 b'. JumpTo N (AddJump c1 xh jt jf (AddStmt 0x20 hi b)) = Some b1 \<and>
    IfNot 0x15 xh M b1 = Some b2 \<and> JumpTo N (AddJump c3 xl jt jf (AddStmt 0x20 lo b2)) = Some b3 \<and>
    JumpTo M b3 = Some b' \<and>
    renders b b' {} {M, N} {} {} (either M N (\<lambda>w a. jump_holds c1 xh (w hi) \<noteq> pol \<and>
      (w hi \<noteq> xh \<or> jump_holds c3 xl (w lo) \<noteq> pol)))"
proof -
  note s1 = load_spec[OF d, of "0x20" hi]
  from cond_then[OF s1(1) _ c(1) jj, of N xh] np s1(2) obtain b1 where
    b1: "JumpTo N (AddJump c1 xh jt jf (AddStmt 0x20 hi b)) = Some b1" "direct b1" "placed b1 = placed b"
    "\<And>b' S L R K out. renders b1 b' S L R K out \<Longrightarrow> N \<notin> S \<Longrightarrow>
       renders (AddStmt 0x20 hi b) b' S (insert N L) R {x. (x = N \<or> x \<in> K) \<and> (x = N \<longrightarrow> x \<in> K \<or> (\<forall>w a. out w a \<noteq> Inl N))}
         (\<lambda>w a. if jump_holds c1 xh a = pol then Inl N else out w a)" by auto
  from IfNot_then[OF b1(2), of M "0x15" xh] np b1(3) obtain b2 where
    b2: "IfNot 0x15 xh M b1 = Some b2" "direct b2" "placed b2 = placed b"
    "\<And>b' S L R K out. renders b2 b' S L R K out \<Longrightarrow> M \<notin> S \<Longrightarrow>
       renders b1 b' S (insert M L) R {x. (x = M \<or> x \<in> K) \<and> (x = M \<longrightarrow> x \<in> K \<or> (\<forall>w a. out w a \<noteq> Inl M))}
         (\<lambda>w a. if \<not> jump_holds 0x15 xh a then Inl M else out w a)" by auto
  note s2 = load_spec[OF b2(2), of "0x20" lo]
  from cond_then[OF s2(1) _ c(2) jj, of N xl] np s2(2) b2(3) obtain b3 where
    b3: "JumpTo N (AddJump c3 xl jt jf (AddStmt 0x20 lo b2)) = Some b3" "direct b3" "placed b3 = placed b"
    "\<And>b' S L R K out. renders b3 b' S L R K out \<Longrightarrow> N \<notin> S \<Longrightarrow>
       renders (AddStmt 0x20 lo b2) b' S (insert N L) R {x. (x = N \<or> x \<in> K) \<and> (x = N \<longrightarrow> x \<in> K \<or> (\<forall>w a. out w a \<noteq> Inl N))}
         (\<lambda>w a. if jump_holds c3 xl a = pol then Inl N else out w a)" by auto
  from renders_jump[OF b3(2), of M] np b3(3) obtain b' where
    b': "JumpTo M b3 = Some b'" "renders b3 b' {} {M} {} UNIV (\<lambda>_ _. Inl M)" by auto
  have r2: "renders b2 b' {} (insert N {M}) {} {} (\<lambda>w a. if jump_holds c3 xl (w lo) = pol then Inl N else Inl M)"
    by (rule renders_load[OF b2(2) b3(4)[OF b'(2)] off(2)]) simp
  have "renders b b' {} {M, N} {} {} (either M N (\<lambda>w a. jump_holds c1 xh (w hi) \<noteq> pol \<and>
      (w hi \<noteq> xh \<or> jump_holds c3 xl (w lo) \<noteq> pol)))"
    by (rule renders_weaken[OF renders_load[OF d b1(4)[OF b2(4)[OF r2]] off(1)]]) (auto simp: jump_holds_def)
  with b1 b2 b3 b' show ?thesis by blast
qed

lemma vm_Render_renders:
  assumes d: "direct b" and np: "\<not> placed b (Matched ls)" "\<not> placed b (Mismatched ls)" and v: "vm_valid m"
    and off: "word_offset (dataOffsetHigh val)" "word_offset (dataOffsetLow val)" and P: "ls_prefix ls \<noteq> []"
    and fr: "\<And>l. beneath (ls_prefix ls) l \<Longrightarrow> \<not> known b l \<and> l \<noteq> Matched ls \<and> l \<noteq> Mismatched ls"
  shows "\<exists>b'. vm_Render m ls val b = Some b' \<and>
    renders b b' {l. beneath (ls_prefix ls) l} {Matched ls, Mismatched ls} {} {}
      (either (Matched ls) (Mismatched ls) (\<lambda>w a. vm_matches m (join32 (w (dataOffsetHigh val)) (w (dataOffsetLow val)))))"
proof -
  let ?M = "Matched ls" and ?N = "Mismatched ls" and ?hi = "dataOffsetHigh val" and ?lo = "dataOffsetLow val"
  have L: "LoadLow32Bits val p = AddStmt 0x20 ?lo p" "LoadHigh32Bits val p = AddStmt 0x20 ?hi p" for p
    by (simp_all add: LoadLow32Bits_def LoadHigh32Bits_def sp_Stmt_def)
  have split: "\<exists>b'. split_Render sm ls' val b = Some b' \<and>
      renders b b' {l. beneath (ls_prefix ls) l} {Matched ls', Mismatched ls'} {} {}
        (either (Matched ls') (Mismatched ls') (\<lambda>w a. split_matches sm (join32 (w ?hi) (w ?lo))))"
    if "highMatcher sm \<noteq> invalidHalfValueMatcher" "lowMatcher sm \<noteq> invalidHalfValueMatcher"
      "{Matched ls', Mismatched ls'} = {?M, ?N}" "\<And>l. beneath (ls_prefix ls') l \<Longrightarrow> beneath (ls_prefix ls) l" for sm ls'
  proof -
    have u: "beneath (ls_prefix ls) (fst (NewLabel ls'))" using that(4) beneath_NewLabel by blast
    have np': "\<not> placed b (Matched ls')" "\<not> placed b (Mismatched ls')" using np that(3) by (metis insertE insertI1 insertI2 singletonD)+
    have "fst (NewLabel ls') \<noteq> Matched ls'" "fst (NewLabel ls') \<noteq> Mismatched ls'"
      using fr[OF u] that(3) by (metis insertE insertI1 insertI2 singletonD)+
    with split_Render_renders[OF d np' that(1,2) off] fr[OF u] obtain b' where
      b': "split_Render sm ls' val b = Some b'"
      "renders b b' {fst (NewLabel ls')} {Matched ls', Mismatched ls'} {} {}
        (either (Matched ls') (Mismatched ls') (\<lambda>w a. half_matches (highMatcher sm) (w ?hi) \<and>
           half_matches (lowMatcher sm) (w ?lo)))" by blast
    have "renders b b' {l. beneath (ls_prefix ls) l} {Matched ls', Mismatched ls'} {} {}
        (either (Matched ls') (Mismatched ls') (\<lambda>w a. split_matches sm (join32 (w ?hi) (w ?lo))))"
      by (rule renders_weaken[OF b'(2)]) (use u in \<open>auto simp: split_matches_def\<close>)
    with b'(1) show ?thesis by blast
  qed
  have splittable: "\<exists>b'. renderSplittable x ls' val b = Some b' \<and>
      renders b b' {l. beneath (ls_prefix ls) l} {Matched ls', Mismatched ls'} {} {}
        (either (Matched ls') (Mismatched ls') (\<lambda>w a. vm_matches x (join32 (w ?hi) (w ?lo))))"
    if "split_vm x = Some sm" "highMatcher sm \<noteq> invalidHalfValueMatcher" "lowMatcher sm \<noteq> invalidHalfValueMatcher"
      "{Matched ls', Mismatched ls'} = {?M, ?N}" "\<And>l. beneath (ls_prefix ls') l \<Longrightarrow> beneath (ls_prefix ls) l" for x sm ls'
    using split[OF that(2-5)] that(1) by (simp add: renderSplittable_def split_vm_matches[OF that(1)])
  have cmp: "\<exists>b'. vm_Render m ls val b = Some b' \<and> renders b b' {l. beneath (ls_prefix ls) l} {?M, ?N} {} {}
      (either ?M ?N (\<lambda>w a. vm_matches m (join32 (w ?hi) (w ?lo))))"
    if "\<And>b1 b2 b3 b'. JumpTo ?N (AddJump c1 xh jt jf (AddStmt 0x20 ?hi b)) = Some b1 \<Longrightarrow>
        IfNot 0x15 xh ?M b1 = Some b2 \<Longrightarrow> JumpTo ?N (AddJump c3 xl jt jf (AddStmt 0x20 ?lo b2)) = Some b3 \<Longrightarrow>
        JumpTo ?M b3 = Some b' \<Longrightarrow> vm_Render m ls val b = Some b'"
      "cond_op c1" "cond_op c3" "jt = 1 \<and> jf = 0 \<and> \<not> pol \<or> jt = 0 \<and> jf = 1 \<and> pol"
      "\<And>h l. vm_matches m (join32 h l) \<longleftrightarrow> jump_holds c1 xh h \<noteq> pol \<and> (h \<noteq> xh \<or> jump_holds c3 xl l \<noteq> pol)"
    for c1 xh jt jf c3 xl pol
  proof -
    from compare_renders[OF d np that(2,3) off that(4), of xh xl] that(1) obtain b' where
      b': "vm_Render m ls val b = Some b'"
      "renders b b' {} {?M, ?N} {} {} (either ?M ?N (\<lambda>w a. jump_holds c1 xh (w ?hi) \<noteq> pol \<and>
        (w ?hi \<noteq> xh \<or> jump_holds c3 xl (w ?lo) \<noteq> pol)))" by blast
    have "renders b b' {l. beneath (ls_prefix ls) l} {?M, ?N} {} {} (either ?M ?N (\<lambda>w a. vm_matches m (join32 (w ?hi) (w ?lo))))"
      by (rule renders_weaken[OF b'(2)]) (use that(5) in auto)
    with b'(1) show ?thesis by blast
  qed
  show ?thesis
  proof (cases m)
    case AnyValue
    from renders_jump[OF d np(1)] obtain b' where b': "JumpTo ?M b = Some b'" "renders b b' {} {?M} {} UNIV (\<lambda>_ _. Inl ?M)"
      by blast
    have "renders b b' {l. beneath (ls_prefix ls) l} {?M, ?N} {} {} (either ?M ?N (\<lambda>w a. vm_matches m (join32 (w ?hi) (w ?lo))))"
      by (rule renders_weaken[OF b'(2)]) (use AnyValue in auto)
    with b'(1) AnyValue show ?thesis by simp
  next
    case (EqualTo x)
    with splittable[of "EqualTo x" _ ls] show ?thesis by simp
  next
    case NonNegativeFD
    with splittable[of NonNegativeFD _ ls] show ?thesis by simp
  next
    case (maskedEqual x y)
    with splittable[of "maskedEqual x y" _ ls] show ?thesis by simp
  next
    case (SplitMatcher sm)
    with split[of sm ls] v show ?thesis by simp
  next
    case (NotEqual x)
    let ?ls = "Push ''inverted'' ?N ?M ls"
    from splittable[of "EqualTo x" _ ?ls] beneath_Push[OF P] obtain b' where
      b': "renderSplittable (EqualTo x) ?ls val b = Some b'"
      "renders b b' {l. beneath (ls_prefix ls) l} {?N, ?M} {} {} (either ?N ?M (\<lambda>w a. vm_matches (EqualTo x) (join32 (w ?hi) (w ?lo))))"
      by (auto simp: insert_commute cong: if_cong)
    have "renders b b' {l. beneath (ls_prefix ls) l} {?M, ?N} {} {} (either ?M ?N (\<lambda>w a. vm_matches m (join32 (w ?hi) (w ?lo))))"
      by (rule renders_weaken[OF b'(2)]) (use NotEqual in auto)
    with b'(1) NotEqual show ?thesis by simp
  next
    case (GreaterThan x)
    show ?thesis
      by (rule cmp[of "0x35" "high32Bits x" 1 0 "0x25" "low32Bits x" False])
        (auto simp: GreaterThan L IfNot_def jump_holds_def u64_less_halves[of x])
  next
    case (GreaterThanOrEqual x)
    show ?thesis
      by (rule cmp[of "0x35" "high32Bits x" 1 0 "0x35" "low32Bits x" False])
        (auto simp: GreaterThanOrEqual L IfNot_def jump_holds_def u64_le_halves[of x])
  next
    case (LessThan x)
    show ?thesis
      by (rule cmp[of "0x25" "high32Bits x" 0 1 "0x35" "low32Bits x" True])
        (auto simp: LessThan L IfNot_def sp_If_def jump_holds_def u64_less_halves[of _ x])
  next
    case (LessThanOrEqual x)
    show ?thesis
      by (rule cmp[of "0x25" "high32Bits x" 0 1 "0x25" "low32Bits x" True])
        (auto simp: LessThanOrEqual L IfNot_def sp_If_def jump_holds_def u64_le_halves[of _ x])
  qed (use v in simp)
qed

end
