(* ===== verification/Seccomp_Render.thy ===== *)
theory Seccomp_Render
  imports Seccomp_Matchers
begin

text \<open>
  Rendering of rules.  \<open>rule_Render_renders\<close> says that rendering a valid rule of
  \<^verbatim>\<open>pkg/seccomp/seccomp_rules.go\<close> never panics and that the code it adds leads to the label
  for a match exactly when the rule matches the system call, whatever the nesting of \<open>Or\<close>, \<open>And\<close> and
  \<open>PerArg\<close>.  The rest of the theory is about labels: every loop of the code generator draws its
  labels from a family of its own, so no label is ever placed twice.
\<close>

section \<open>Definitions\<close>

definition family :: "(nat \<Rightarrow> string) \<Rightarrow> bool" where
  "family sfx \<longleftrightarrow> inj sfx \<and> (\<forall>i. CHR ''#'' \<notin> set (sfx i) \<and> CHR ''_'' \<notin> set (sfx i))"

text \<open>The labels that a loop with counter \<open>c\<close> and sub-prefixes \<open>sfx i\<close>, \<open>sfx (i + 1)\<close> and so on may still use.\<close>

definition fresh_from :: "string \<Rightarrow> (nat \<Rightarrow> string) \<Rightarrow> nat \<Rightarrow> nat \<Rightarrow> string \<Rightarrow> bool" where
  "fresh_from P sfx i c l \<longleftrightarrow>
     (\<exists>k \<ge> c. l = P @ ''#'' @ fmt_d k) \<or> (\<exists>j \<ge> i. beneath (P @ ''_'' @ sfx j) l)"

definition data_of :: "(u32 \<Rightarrow> u32) \<Rightarrow> SeccompData" where
  "data_of w = \<lparr>Nr = w 0, Arch = w 4, InstructionPointer = join32 (w 12) (w 8),
     Args = map (\<lambda>i. join32 (w (seccompDataOffsetArgHigh i)) (w (seccompDataOffsetArgLow i))) [0..<6]\<rparr>"

definition arg_offsets :: "nat \<Rightarrow> matchedValue" where
  "arg_offsets i = (if i = RuleIP then \<lparr>dataOffsetHigh = seccompDataOffsetIPHigh, dataOffsetLow = seccompDataOffsetIPLow\<rparr>
     else \<lparr>dataOffsetHigh = seccompDataOffsetArgHigh i, dataOffsetLow = seccompDataOffsetArgLow i\<rparr>)"

text \<open>The contract of rendering a rule into a builder with a label set of its own.\<close>

definition ready :: "ProgramBuilder \<Rightarrow> labelSet \<Rightarrow> bool" where
  "ready b ls \<longleftrightarrow> direct b \<and> \<not> placed b (Matched ls) \<and> \<not> placed b (Mismatched ls) \<and> ls_prefix ls \<noteq> [] \<and>
     (\<forall>l. beneath (ls_prefix ls) l \<longrightarrow> \<not> known b l \<and> l \<noteq> Matched ls \<and> l \<noteq> Mismatched ls)"

definition rule_renders :: "SyscallRule \<Rightarrow> bool" where
  "rule_renders r \<longleftrightarrow> (\<forall>b ls. ready b ls \<longrightarrow> (\<exists>b'. rule_Render r ls b = Some b' \<and>
     renders b b' {l. beneath (ls_prefix ls) l} {Matched ls, Mismatched ls} {} {}
       (either (Matched ls) (Mismatched ls) (\<lambda>w a. rule_matches (data_of w) r))))"

section \<open>Label names\<close>

lemma beneath_disjoint:
  assumes "family sfx" "beneath (P @ ''_'' @ sfx i) l" "beneath (P @ ''_'' @ sfx j) l"
  shows "i = j"
proof -
  let ?sep = "\<lambda>ch. ch = CHR ''#'' \<or> ch = CHR ''_''"
  have tw: "takeWhile (\<lambda>ch. \<not> ?sep ch) (sfx k @ ch # s) = sfx k" if "?sep ch" for k ch s
    using assms(1) that by (subst takeWhile_append2) (auto simp: family_def)
  have B: "\<exists>ch s. l = Q @ ch # s \<and> ?sep ch" if "beneath Q l" for Q
  proof -
    from that obtain s where "l = Q @ CHR ''#'' # s \<or> l = Q @ CHR ''_'' # s" unfolding beneath_def by auto
    then show ?thesis by blast
  qed
  from B[OF assms(2)] B[OF assms(3)] obtain ch s ch' s' where
    l: "l = (P @ ''_'' @ sfx i) @ ch # s" and c: "?sep ch" and l': "l = (P @ ''_'' @ sfx j) @ ch' # s'" and c': "?sep ch'"
    by blast
  have "sfx i @ ch # s = sfx j @ ch' # s'" using l unfolding l' by simp
  then have "takeWhile (\<lambda>ch. \<not> ?sep ch) (sfx i @ ch # s) = takeWhile (\<lambda>ch. \<not> ?sep ch) (sfx j @ ch' # s')" by (rule arg_cong)
  then have "sfx i = sfx j" unfolding tw[OF c] tw[OF c'] .
  with assms(1) show ?thesis by (auto simp: family_def dest: injD)
qed

lemma beneath_not_counter: "\<not> beneath (P @ ''_'' @ x) (P @ ''#'' @ y)"
  by (simp add: beneath_def)

lemma fresh_from_step:
  assumes "family sfx" "fresh_from P sfx (Suc i) (Suc c) l"
  shows "fresh_from P sfx i c l" "l \<noteq> P @ ''#'' @ fmt_d c" "\<not> beneath (P @ ''_'' @ sfx i) l"
proof -
  from assms(2) consider k where "k \<ge> Suc c" "l = P @ ''#'' @ fmt_d k" | j where "j \<ge> Suc i" "beneath (P @ ''_'' @ sfx j) l"
    by (auto simp: fresh_from_def)
  then show "l \<noteq> P @ ''#'' @ fmt_d c" "\<not> beneath (P @ ''_'' @ sfx i) l"
    using beneath_not_counter[of P] beneath_disjoint[OF assms(1), of P i l] by (cases; fastforce)+
  show "fresh_from P sfx i c l" using assms(2) by (auto simp: fresh_from_def dest: Suc_leD)
qed

lemma fresh_from_Suc: "fresh_from P sfx (Suc i) c l \<Longrightarrow> fresh_from P sfx i c l"
  unfolding fresh_from_def by (blast dest: Suc_leD)

lemma fresh_from_first: "fresh_from P sfx i c (P @ ''#'' @ fmt_d c)" "beneath (P @ ''_'' @ sfx i) l \<Longrightarrow> fresh_from P sfx i c l"
  by (auto simp: fresh_from_def)

lemma fresh_from_beneath: "fresh_from P sfx i c l \<Longrightarrow> beneath P l"
  by (auto simp: fresh_from_def beneath_def)

lemma digit_not_sep: "digit_val (CHR ''#'') = None" "digit_val (CHR ''_'') = None" "digit_val (CHR '';'') = None"
  "digit_val (CHR '' '') = None" "digit_val (CHR '']'') = None" "digit_val (CHR '','') = None" "digit_val (CHR '')'') = None"
  by code_simp+

lemma fmt_d_no_sep: "CHR ''#'' \<notin> set (fmt_d n)" "CHR ''_'' \<notin> set (fmt_d n)"
  using fmt_d_digits digit_not_sep by blast+

lemma family_or: "family (\<lambda>i. ''or['' @ fmt_d i @ '']'')"
  and family_and: "family (\<lambda>i. ''and['' @ fmt_d i @ '']'')"
  by (auto simp: family_def fmt_d_no_sep intro!: injI)

lemma family_args: "family arg_name"
  by (auto simp: family_def arg_name_def fmt_d_no_sep intro!: injI split: if_splits)

section \<open>Loops\<close>

lemma chain_link:
  assumes fam: "family sfx" and np: "\<not> placed b M" "\<not> placed b N"
    and fr: "\<And>l. fresh_from P sfx i c l \<Longrightarrow> \<not> known b l \<and> l \<noteq> M \<and> l \<noteq> N"
    and n: "n = P @ ''#'' @ fmt_d c" and Y: "Y = M \<or> Y = N"
    and r1: "renders b p1 {l. beneath (P @ ''_'' @ sfx i) l} {Y, n} {} {} out1"
  shows "\<exists>p2. sp_Label n p1 = Some p2 \<and> direct p2 \<and> \<not> placed p2 M \<and> \<not> placed p2 N \<and>
    (\<forall>l. fresh_from P sfx (Suc i) (Suc c) l \<longrightarrow> \<not> known p2 l \<and> l \<noteq> M \<and> l \<noteq> N) \<and>
    (\<forall>p3 out2. renders p2 p3 {l. fresh_from P sfx (Suc i) (Suc c) l} {M, N} {} {} out2 \<longrightarrow>
       (\<forall>w a a'. out2 w a = out2 w a') \<longrightarrow>
       renders b p3 {l. fresh_from P sfx i c l} {M, N} {} {} (\<lambda>w a. if out1 w a = Inl n then out2 w a else out1 w a))"
proof -
  note R1 = rendersD[OF r1]
  have fn: "fresh_from P sfx i c n" unfolding n by (rule fresh_from_first)
  have npn: "\<not> placed b n" using fr[OF fn] placed_known by blast
  have nb: "\<not> beneath (P @ ''_'' @ sfx i) n" unfolding n by (rule beneath_not_counter)
  have MN: "\<not> beneath (P @ ''_'' @ sfx i) M" "\<not> beneath (P @ ''_'' @ sfx i) N"
    using fr fresh_from_first(2)[of P sfx i _ c] by blast+
  have np1: "\<not> placed p1 n" "\<not> placed p1 M" "\<not> placed p1 N" using R1(5) npn np nb MN by blast+
  from Label_then[OF R1(1) np1(1)] obtain p2 where
    p2: "sp_Label n p1 = Some p2" "direct p2" "\<And>x. placed p2 x \<longleftrightarrow> placed p1 x \<or> x = n"
      "\<And>x. known p2 x \<longleftrightarrow> known p1 x \<or> x = n" by blast
  have "\<not> known p2 l \<and> l \<noteq> M \<and> l \<noteq> N" if l: "fresh_from P sfx (Suc i) (Suc c) l" for l
  proof -
    note f = fresh_from_step[OF fam l]
    have "\<not> known p1 l" using R1(6)[of l] f fr[OF f(1)] Y n by blast
    with p2(4) f(2) fr[OF f(1)] n show ?thesis by blast
  qed
  moreover have "\<not> placed p2 M" "\<not> placed p2 N" using p2(3) np1 fr[OF fn] by blast+
  moreover have "renders b p3 {l. fresh_from P sfx i c l} {M, N} {} {} (\<lambda>w a. if out1 w a = Inl n then out2 w a else out1 w a)"
    if r2: "renders p2 p3 {l. fresh_from P sfx (Suc i) (Suc c) l} {M, N} {} {} out2" and o: "\<forall>w a a'. out2 w a = out2 w a'" for p3 out2
  proof -
    have dj: "({Y, n} - {n}) \<inter> {l. fresh_from P sfx (Suc i) (Suc c) l} = {}"
      using Y fr fresh_from_step(1)[OF fam] by blast
    show ?thesis
      by (rule renders_weaken[OF renders_seq[OF r1 npn _ p2(1) r2 dj, where K = "{}"]])
        (use nb o Y fn fresh_from_step(1)[OF fam] fresh_from_first(2)[of P sfx i _ c] in auto)
  qed
  ultimately show ?thesis using p2(1,2) by blast
qed

lemma arg_offsets_word: "i < 7 \<Longrightarrow> word_offset (dataOffsetHigh (arg_offsets i)) \<and> word_offset (dataOffsetLow (arg_offsets i))"
proof -
  assume i: "i < 7"
  have "word_offset (seccompDataOffsetArgHigh i)" "word_offset (seccompDataOffsetArgLow i)" if "i < 6"
  proof -
    have "seccompDataOffsetArgLow i = of_nat (4 * (4 + 2 * i))"
      unfolding seccompDataOffsetArgLow_def by (rule arg_cong[of _ _ of_nat]) simp
    moreover have "seccompDataOffsetArgHigh i = of_nat (4 * (5 + 2 * i))"
      by (simp add: seccompDataOffsetArgHigh_def seccompDataOffsetArgLow_def algebra_simps)
    moreover have "4 + 2 * i < 16" "5 + 2 * i < 16" using that by auto
    ultimately show "word_offset (seccompDataOffsetArgHigh i)" "word_offset (seccompDataOffsetArgLow i)"
      unfolding word_offset_def by blast+
  qed
  moreover have "word_offset 12" "word_offset 8"
    unfolding word_offset_def by (rule exI[of _ 3], simp, rule exI[of _ 2], simp)
  ultimately show ?thesis using i by (auto simp: arg_offsets_def)
qed

lemma arg_value_data_of:
  "i < 7 \<Longrightarrow> arg_value (data_of w) i = join32 (w (dataOffsetHigh (arg_offsets i))) (w (dataOffsetLow (arg_offsets i)))"
  by (auto simp: arg_value_def data_of_def arg_offsets_def)

lemma render_args_renders:
  assumes "direct b" "\<not> placed b (Matched ls)" "\<not> placed b (Mismatched ls)" "ls_prefix ls \<noteq> []"
    and "i + length pa = 7" "list_all (pred_option vm_valid) pa"
    and "\<And>l. fresh_from (ls_prefix ls) arg_name i (labelCounter ls) l \<Longrightarrow>
      \<not> known b l \<and> l \<noteq> Matched ls \<and> l \<noteq> Mismatched ls"
  shows "\<exists>b'. render_args i pa ls b = Some b' \<and>
    renders b b' {l. fresh_from (ls_prefix ls) arg_name i (labelCounter ls) l}
      {Matched ls, Mismatched ls} {} {} (either (Matched ls) (Mismatched ls) (\<lambda>w a. args_match (data_of w) i pa))"
  using assms
proof (induction pa arbitrary: i ls b)
  case Nil
  from renders_jump[OF Nil(1,2)] obtain b' where b': "JumpTo (Matched ls) b = Some b'"
    "renders b b' {} {Matched ls} {} UNIV (\<lambda>_ _. Inl (Matched ls))" by blast
  show ?case using b'(1) by (intro exI[of _ b']) (auto intro!: renders_weaken[OF b'(2)])
next
  case (Cons m pa)
  let ?sfx = arg_name
  let ?P = "ls_prefix ls" and ?c = "labelCounter ls" and ?M = "Matched ls" and ?N = "Mismatched ls"
  show ?case
  proof (cases m)
    case None
    note sub = fresh_from_Suc[of ?P ?sfx i ?c]
    from Cons.IH[of b ls "Suc i"] Cons.prems sub obtain b' where b': "render_args (Suc i) pa ls b = Some b'"
      "renders b b' {l. fresh_from ?P ?sfx (Suc i) ?c l} {?M, ?N} {} {} (either ?M ?N (\<lambda>w a. args_match (data_of w) (Suc i) pa))"
      by auto
    show ?thesis using b'(1) None sub by (intro exI[of _ b']) (auto intro!: renders_weaken[OF b'(2)])
  next
    case (Some arg)
    define n where "n = ?P @ ''#'' @ fmt_d ?c"
    define ls1 where "ls1 = ls\<lparr>labelCounter := ?c + 1\<rparr>"
    define als where "als = Push (?sfx i) n ?N ls1"
    have NL: "NewLabel ls = (n, ls1)" by (simp add: NewLabel_def n_def ls1_def)
    have pre: "ls_prefix als = ?P @ ''_'' @ ?sfx i" using Cons.prems(4) by (simp add: als_def Push_def ls1_def)
    have i: "i < 7" using Cons.prems(5) by simp
    have fr: "\<And>l. fresh_from ?P ?sfx i ?c l \<Longrightarrow> \<not> known b l \<and> l \<noteq> ?M \<and> l \<noteq> ?N" using Cons.prems(7) by blast
    have fn: "fresh_from ?P ?sfx i ?c n" unfolding n_def by (rule fresh_from_first)
    have "\<exists>p1. vm_Render arg als (arg_offsets i) b = Some p1 \<and>
        renders b p1 {l. beneath (ls_prefix als) l} {Matched als, Mismatched als} {} {}
          (either (Matched als) (Mismatched als) (\<lambda>w a. vm_matches arg (join32 (w (dataOffsetHigh (arg_offsets i))) (w (dataOffsetLow (arg_offsets i))))))"
    proof (rule vm_Render_renders[OF Cons.prems(1)])
      show "\<not> placed b (Matched als)" using fr[OF fn] placed_known by (auto simp: als_def)
      show "\<not> placed b (Mismatched als)" using Cons.prems(3) by (simp add: als_def)
      show "vm_valid arg" using Cons.prems(6) Some by simp
      show "word_offset (dataOffsetHigh (arg_offsets i))" "word_offset (dataOffsetLow (arg_offsets i))"
        using arg_offsets_word[OF i] by auto
      show "ls_prefix als \<noteq> []" unfolding pre by simp
      show "\<not> known b l \<and> l \<noteq> Matched als \<and> l \<noteq> Mismatched als" if "beneath (ls_prefix als) l" for l
      proof -
        have bl: "beneath (?P @ ''_'' @ ?sfx i) l" using that unfolding pre .
        have "fresh_from ?P ?sfx i ?c l" by (rule fresh_from_first(2)) (rule bl)
        moreover have "l \<noteq> n" using bl beneath_not_counter[of ?P "?sfx i"] unfolding n_def by blast
        ultimately show ?thesis using fr by (simp add: als_def)
      qed
    qed
    then obtain p1 where p1: "vm_Render arg als (arg_offsets i) b = Some p1"
      "renders b p1 {l. beneath (?P @ ''_'' @ ?sfx i) l} {?N, n} {} {} (either n ?N (\<lambda>w a. vm_matches arg (arg_value (data_of w) i)))"
      unfolding pre arg_value_data_of[OF i, symmetric] by (auto simp: als_def insert_commute cong: if_cong)
    have a1: "MustHaveJumpedTo (sp_Record b) [n, ?N] p1 = Some p1" by (rule renders_assertion'[OF p1(2)]) simp
    from chain_link[OF family_args Cons.prems(2,3) fr n_def _ p1(2)] obtain p2 where
      p2: "sp_Label n p1 = Some p2" "direct p2" "\<not> placed p2 ?M" "\<not> placed p2 ?N"
      "\<forall>l. fresh_from ?P ?sfx (Suc i) (Suc ?c) l \<longrightarrow> \<not> known p2 l \<and> l \<noteq> ?M \<and> l \<noteq> ?N"
      "\<And>p3 out2. renders p2 p3 {l. fresh_from ?P ?sfx (Suc i) (Suc ?c) l} {?M, ?N} {} {} out2 \<Longrightarrow>
         \<forall>w a a'. out2 w a = out2 w a' \<Longrightarrow> renders b p3 {l. fresh_from ?P ?sfx i ?c l} {?M, ?N} {} {}
           (\<lambda>w a. if either n ?N (\<lambda>w a. vm_matches arg (arg_value (data_of w) i)) w a = Inl n then out2 w a
              else either n ?N (\<lambda>w a. vm_matches arg (arg_value (data_of w) i)) w a)" by blast
    have ls1s: "ls_prefix ls1 = ?P" "labelCounter ls1 = Suc ?c" "Matched ls1 = ?M" "Mismatched ls1 = ?N"
      by (simp_all add: ls1_def)
    have "Suc i + length pa = 7" "list_all (pred_option vm_valid) pa" using Cons.prems(5,6) by simp_all
    from Cons.IH[of p2 ls1 "Suc i", unfolded ls1s, OF p2(2-4) Cons.prems(4) this] p2(5) obtain p3 where p3: "render_args (Suc i) pa ls1 p2 = Some p3"
      "renders p2 p3 {l. fresh_from ?P ?sfx (Suc i) (Suc ?c) l} {?M, ?N} {} {} (either ?M ?N (\<lambda>w a. args_match (data_of w) (Suc i) pa))"
      by blast
    have "n \<noteq> ?N" using fr[OF fn] by blast
    then have "renders b p3 {l. fresh_from ?P ?sfx i ?c l} {?M, ?N} {} {} (either ?M ?N (\<lambda>w a. args_match (data_of w) i (m # pa)))"
      by (intro renders_weaken[OF p2(6)[OF p3(2)]]) (auto simp: Some)
    moreover have "render_args i (m # pa) ls b = Some p3"
    proof -
      have v: "vm_Render arg (Push (?sfx i) n ?N ls1) (arg_offsets i) b = Some p1" using p1(1) by (simp add: als_def)
      show ?thesis using v a1 p2(1) p3(1) unfolding Some
        by (auto simp: NL arg_offsets_def arg_name_def ls1_def)
    qed
    ultimately show ?thesis by blast
  qed
qed

section \<open>Rules\<close>

lemma rule_rendersD:
  "rule_renders r \<Longrightarrow> ready b ls \<Longrightarrow> \<exists>b'. rule_Render r ls b = Some b' \<and>
     renders b b' {l. beneath (ls_prefix ls) l} {Matched ls, Mismatched ls} {} {}
       (either (Matched ls) (Mismatched ls) (\<lambda>w a. rule_matches (data_of w) r))"
  by (simp add: rule_renders_def)

text \<open>A label set for one member of a loop.\<close>

lemma ready_member:
  assumes d: "direct b" and np: "\<not> placed b M" "\<not> placed b N" and P: "P \<noteq> []" and ls: "ls_prefix ls1 = P"
    and fr: "\<forall>l. fresh_from P sfx i c l \<longrightarrow> \<not> known b l \<and> l \<noteq> M \<and> l \<noteq> N"
    and n: "n = P @ ''#'' @ fmt_d c" and XY: "{X, Y} \<subseteq> {M, N, n}"
  shows "ready b (Push (sfx i) X Y ls1)" "ls_prefix (Push (sfx i) X Y ls1) = P @ ''_'' @ sfx i"
proof -
  have fn: "fresh_from P sfx i c n" unfolding n by (rule fresh_from_first)
  show pre: "ls_prefix (Push (sfx i) X Y ls1) = P @ ''_'' @ sfx i" using P by (simp add: Push_def ls)
  have "\<not> known b l \<and> l \<noteq> X \<and> l \<noteq> Y" if b: "beneath (P @ ''_'' @ sfx i) l" for l
  proof -
    have "fresh_from P sfx i c l" using b by (rule fresh_from_first(2))
    moreover have "l \<noteq> n" using b beneath_not_counter[of P "sfx i"] unfolding n by blast
    ultimately show ?thesis using fr XY by blast
  qed
  moreover have "\<not> placed b n" using fr fn placed_known by blast
  ultimately show "ready b (Push (sfx i) X Y ls1)"
    using d np XY unfolding ready_def pre by auto
qed

lemma render_or_renders:
  assumes "\<And>r. r \<in> set rs \<Longrightarrow> rule_renders r"
    and "direct b" "\<not> placed b (Matched ls)" "\<not> placed b (Mismatched ls)" "ls_prefix ls \<noteq> []"
    and "\<And>l. fresh_from (ls_prefix ls) (\<lambda>i. ''or['' @ fmt_d i @ '']'') i (labelCounter ls) l \<Longrightarrow>
      \<not> known b l \<and> l \<noteq> Matched ls \<and> l \<noteq> Mismatched ls"
  shows "\<exists>b'. render_or i rs ls b = Some b' \<and>
    renders b b' {l. fresh_from (ls_prefix ls) (\<lambda>i. ''or['' @ fmt_d i @ '']'') i (labelCounter ls) l}
      {Matched ls, Mismatched ls} {} {} (either (Matched ls) (Mismatched ls) (\<lambda>w a. list_ex (rule_matches (data_of w)) rs))"
  using assms
proof (induction rs arbitrary: i ls b)
  case Nil
  from renders_jump[OF Nil(2,4)] obtain b' where b': "JumpTo (Mismatched ls) b = Some b'"
    "renders b b' {} {Mismatched ls} {} UNIV (\<lambda>_ _. Inl (Mismatched ls))" by blast
  show ?case using b'(1) by (intro exI[of _ b']) (auto intro!: renders_weaken[OF b'(2)])
next
  case (Cons r rs)
  let ?sfx = "\<lambda>i. ''or['' @ fmt_d i @ '']''"
  let ?P = "ls_prefix ls" and ?c = "labelCounter ls" and ?M = "Matched ls" and ?N = "Mismatched ls"
  define n where "n = ?P @ ''#'' @ fmt_d ?c"
  define ls1 where "ls1 = ls\<lparr>labelCounter := ?c + 1\<rparr>"
  have NL: "NewLabel ls = (n, ls1)" by (simp add: NewLabel_def n_def ls1_def)
  have ls1s: "ls_prefix ls1 = ?P" "labelCounter ls1 = Suc ?c" "Matched ls1 = ?M" "Mismatched ls1 = ?N"
    by (simp_all add: ls1_def)
  have fr: "\<And>l. fresh_from ?P ?sfx i ?c l \<Longrightarrow> \<not> known b l \<and> l \<noteq> ?M \<and> l \<noteq> ?N" using Cons.prems(6) by blast
  have XY: "{?M, n} \<subseteq> {?M, ?N, n}" by blast
  have fr': "\<forall>l. fresh_from ?P ?sfx i ?c l \<longrightarrow> \<not> known b l \<and> l \<noteq> ?M \<and> l \<noteq> ?N" using fr by blast
  note rm = ready_member[of b ?M ?N ?P ls1 ?sfx i ?c, OF Cons.prems(2-5) ls1s(1) fr' n_def XY]
  have "rule_renders r" by (rule Cons.prems(1)) simp
  from rule_rendersD[OF this rm(1)] obtain p1 where p1: "rule_Render r (Push (?sfx i) ?M n ls1) b = Some p1"
    "renders b p1 {l. beneath (?P @ ''_'' @ ?sfx i) l} {?M, n} {} {} (either ?M n (\<lambda>w a. rule_matches (data_of w) r))"
    unfolding rm(2) Push_sel by blast
  have a1: "MustHaveJumpedTo (sp_Record b) [?M, n] p1 = Some p1" by (rule renders_assertion'[OF p1(2)]) simp
  from chain_link[OF family_or Cons.prems(3,4) fr n_def _ p1(2)] obtain p2 where
    p2: "sp_Label n p1 = Some p2" "direct p2" "\<not> placed p2 ?M" "\<not> placed p2 ?N"
    "\<forall>l. fresh_from ?P ?sfx (Suc i) (Suc ?c) l \<longrightarrow> \<not> known p2 l \<and> l \<noteq> ?M \<and> l \<noteq> ?N"
    "\<And>p3 out2. renders p2 p3 {l. fresh_from ?P ?sfx (Suc i) (Suc ?c) l} {?M, ?N} {} {} out2 \<Longrightarrow>
       \<forall>w a a'. out2 w a = out2 w a' \<Longrightarrow> renders b p3 {l. fresh_from ?P ?sfx i ?c l} {?M, ?N} {} {}
         (\<lambda>w a. if either ?M n (\<lambda>w a. rule_matches (data_of w) r) w a = Inl n then out2 w a
            else either ?M n (\<lambda>w a. rule_matches (data_of w) r) w a)" by blast
  from Cons.IH[of p2 ls1 "Suc i", unfolded ls1s, OF _ p2(2-4) Cons.prems(5)] p2(5) Cons.prems(1) obtain p3 where
    p3: "render_or (Suc i) rs ls1 p2 = Some p3"
    "renders p2 p3 {l. fresh_from ?P ?sfx (Suc i) (Suc ?c) l} {?M, ?N} {} {} (either ?M ?N (\<lambda>w a. list_ex (rule_matches (data_of w)) rs))"
    by auto
  have "n \<noteq> ?M" using fr[OF fresh_from_first(1)] unfolding n_def by blast
  then have "renders b p3 {l. fresh_from ?P ?sfx i ?c l} {?M, ?N} {} {} (either ?M ?N (\<lambda>w a. list_ex (rule_matches (data_of w)) (r # rs)))"
    by (intro renders_weaken[OF p2(6)[OF p3(2)]]) auto
  moreover have "render_or i (r # rs) ls b = Some p3"
    using p1(1) a1 p2(1) p3(1) by (simp add: NL ls1s)
  ultimately show ?case by blast
qed

lemma render_and_renders:
  assumes "\<And>r. r \<in> set rs \<Longrightarrow> rule_renders r"
    and "direct b" "\<not> placed b (Matched ls)" "\<not> placed b (Mismatched ls)" "ls_prefix ls \<noteq> []"
    and "\<And>l. fresh_from (ls_prefix ls) (\<lambda>i. ''and['' @ fmt_d i @ '']'') i (labelCounter ls) l \<Longrightarrow>
      \<not> known b l \<and> l \<noteq> Matched ls \<and> l \<noteq> Mismatched ls"
  shows "\<exists>b'. render_and i rs ls b = Some b' \<and>
    renders b b' {l. fresh_from (ls_prefix ls) (\<lambda>i. ''and['' @ fmt_d i @ '']'') i (labelCounter ls) l}
      {Matched ls, Mismatched ls} {} {} (either (Matched ls) (Mismatched ls) (\<lambda>w a. list_all (rule_matches (data_of w)) rs))"
  using assms
proof (induction rs arbitrary: i ls b)
  case Nil
  from renders_jump[OF Nil(2,3)] obtain b' where b': "JumpTo (Matched ls) b = Some b'"
    "renders b b' {} {Matched ls} {} UNIV (\<lambda>_ _. Inl (Matched ls))" by blast
  show ?case using b'(1) by (intro exI[of _ b']) (auto intro!: renders_weaken[OF b'(2)])
next
  case (Cons r rs)
  let ?sfx = "\<lambda>i. ''and['' @ fmt_d i @ '']''"
  let ?P = "ls_prefix ls" and ?c = "labelCounter ls" and ?M = "Matched ls" and ?N = "Mismatched ls"
  define n where "n = ?P @ ''#'' @ fmt_d ?c"
  define ls1 where "ls1 = ls\<lparr>labelCounter := ?c + 1\<rparr>"
  have NL: "NewLabel ls = (n, ls1)" by (simp add: NewLabel_def n_def ls1_def)
  have ls1s: "ls_prefix ls1 = ?P" "labelCounter ls1 = Suc ?c" "Matched ls1 = ?M" "Mismatched ls1 = ?N"
    by (simp_all add: ls1_def)
  have fr: "\<And>l. fresh_from ?P ?sfx i ?c l \<Longrightarrow> \<not> known b l \<and> l \<noteq> ?M \<and> l \<noteq> ?N" using Cons.prems(6) by blast
  have XY: "{n, ?N} \<subseteq> {?M, ?N, n}" by blast
  have fr': "\<forall>l. fresh_from ?P ?sfx i ?c l \<longrightarrow> \<not> known b l \<and> l \<noteq> ?M \<and> l \<noteq> ?N" using fr by blast
  note rm = ready_member[of b ?M ?N ?P ls1 ?sfx i ?c, OF Cons.prems(2-5) ls1s(1) fr' n_def XY]
  have "rule_renders r" by (rule Cons.prems(1)) simp
  from rule_rendersD[OF this rm(1)] obtain p1 where p1: "rule_Render r (Push (?sfx i) n ?N ls1) b = Some p1"
    "renders b p1 {l. beneath (?P @ ''_'' @ ?sfx i) l} {?N, n} {} {} (either n ?N (\<lambda>w a. rule_matches (data_of w) r))"
    unfolding rm(2) Push_sel insert_commute[of n] by blast
  have a1: "MustHaveJumpedTo (sp_Record b) [n, ?N] p1 = Some p1" by (rule renders_assertion'[OF p1(2)]) simp
  from chain_link[OF family_and Cons.prems(3,4) fr n_def _ p1(2)] obtain p2 where
    p2: "sp_Label n p1 = Some p2" "direct p2" "\<not> placed p2 ?M" "\<not> placed p2 ?N"
    "\<forall>l. fresh_from ?P ?sfx (Suc i) (Suc ?c) l \<longrightarrow> \<not> known p2 l \<and> l \<noteq> ?M \<and> l \<noteq> ?N"
    "\<And>p3 out2. renders p2 p3 {l. fresh_from ?P ?sfx (Suc i) (Suc ?c) l} {?M, ?N} {} {} out2 \<Longrightarrow>
       \<forall>w a a'. out2 w a = out2 w a' \<Longrightarrow> renders b p3 {l. fresh_from ?P ?sfx i ?c l} {?M, ?N} {} {}
         (\<lambda>w a. if either n ?N (\<lambda>w a. rule_matches (data_of w) r) w a = Inl n then out2 w a
            else either n ?N (\<lambda>w a. rule_matches (data_of w) r) w a)" by blast
  from Cons.IH[of p2 ls1 "Suc i", unfolded ls1s, OF _ p2(2-4) Cons.prems(5)] p2(5) Cons.prems(1) obtain p3 where
    p3: "render_and (Suc i) rs ls1 p2 = Some p3"
    "renders p2 p3 {l. fresh_from ?P ?sfx (Suc i) (Suc ?c) l} {?M, ?N} {} {} (either ?M ?N (\<lambda>w a. list_all (rule_matches (data_of w)) rs))"
    by auto
  have "n \<noteq> ?N" using fr[OF fresh_from_first(1)] unfolding n_def by blast
  then have "renders b p3 {l. fresh_from ?P ?sfx i ?c l} {?M, ?N} {} {} (either ?M ?N (\<lambda>w a. list_all (rule_matches (data_of w)) (r # rs)))"
    by (intro renders_weaken[OF p2(6)[OF p3(2)]]) auto
  moreover have "render_and i (r # rs) ls b = Some p3"
    using p1(1) a1 p2(1) p3(1) by (simp add: NL ls1s)
  ultimately show ?case by blast
qed

lemma rule_Render_renders: "rule_valid r \<Longrightarrow> rule_renders r"
proof (induction r)
  case MatchAll
  show ?case unfolding rule_renders_def ready_def
  proof (intro allI impI, elim conjE)
    fix b and ls :: labelSet assume "direct b" "\<not> placed b (Matched ls)"
    from renders_jump[OF this] obtain b' where b': "JumpTo (Matched ls) b = Some b'"
      "renders b b' {} {Matched ls} {} UNIV (\<lambda>_ _. Inl (Matched ls))" by blast
    show "\<exists>b'. rule_Render MatchAll ls b = Some b' \<and>
     renders b b' {l. beneath (ls_prefix ls) l} {Matched ls, Mismatched ls} {} {}
       (either (Matched ls) (Mismatched ls) (\<lambda>w a. rule_matches (data_of w) MatchAll))"
      using b'(1) by (intro exI[of _ b']) (auto intro!: renders_weaken[OF b'(2)])
  qed
next
  case (Or rs)
  have rs: "rule_renders r" if "r \<in> set rs" for r using Or that by (auto simp: list_all_iff)
  show ?case unfolding rule_renders_def ready_def
  proof (intro allI impI, elim conjE)
    fix b and ls :: labelSet assume a: "direct b" "\<not> placed b (Matched ls)" "\<not> placed b (Mismatched ls)" "ls_prefix ls \<noteq> []"
      and fr: "\<forall>l. beneath (ls_prefix ls) l \<longrightarrow> \<not> known b l \<and> l \<noteq> Matched ls \<and> l \<noteq> Mismatched ls"
    from render_or_renders[where i = 0, OF rs a] fr fresh_from_beneath obtain b' where b': "render_or 0 rs ls b = Some b'"
      "renders b b' {l. fresh_from (ls_prefix ls) (\<lambda>i. ''or['' @ fmt_d i @ '']'') 0 (labelCounter ls) l}
      {Matched ls, Mismatched ls} {} {} (either (Matched ls) (Mismatched ls) (\<lambda>w a. list_ex (rule_matches (data_of w)) rs))"
      by blast
    show "\<exists>b'. rule_Render (Or rs) ls b = Some b' \<and>
     renders b b' {l. beneath (ls_prefix ls) l} {Matched ls, Mismatched ls} {} {}
       (either (Matched ls) (Mismatched ls) (\<lambda>w a. rule_matches (data_of w) (Or rs)))"
      using b'(1) Or.prems by (intro exI[of _ b']) (auto intro!: renders_weaken[OF b'(2)] dest: fresh_from_beneath)
  qed
next
  case (And rs)
  have rs: "rule_renders r" if "r \<in> set rs" for r using And that by (auto simp: list_all_iff)
  show ?case unfolding rule_renders_def ready_def
  proof (intro allI impI, elim conjE)
    fix b and ls :: labelSet assume a: "direct b" "\<not> placed b (Matched ls)" "\<not> placed b (Mismatched ls)" "ls_prefix ls \<noteq> []"
      and fr: "\<forall>l. beneath (ls_prefix ls) l \<longrightarrow> \<not> known b l \<and> l \<noteq> Matched ls \<and> l \<noteq> Mismatched ls"
    from render_and_renders[where i = 0, OF rs a] fr fresh_from_beneath obtain b' where b': "render_and 0 rs ls b = Some b'"
      "renders b b' {l. fresh_from (ls_prefix ls) (\<lambda>i. ''and['' @ fmt_d i @ '']'') 0 (labelCounter ls) l}
      {Matched ls, Mismatched ls} {} {} (either (Matched ls) (Mismatched ls) (\<lambda>w a. list_all (rule_matches (data_of w)) rs))"
      by blast
    show "\<exists>b'. rule_Render (And rs) ls b = Some b' \<and>
     renders b b' {l. beneath (ls_prefix ls) l} {Matched ls, Mismatched ls} {} {}
       (either (Matched ls) (Mismatched ls) (\<lambda>w a. rule_matches (data_of w) (And rs)))"
      using b'(1) And.prems by (intro exI[of _ b']) (auto intro!: renders_weaken[OF b'(2)] dest: fresh_from_beneath)
  qed
next
  case (PerArg pa)
  then have pa: "0 + length pa = 7" "list_all (pred_option vm_valid) pa" by simp_all
  show ?case unfolding rule_renders_def ready_def
  proof (intro allI impI, elim conjE)
    fix b and ls :: labelSet assume a: "direct b" "\<not> placed b (Matched ls)" "\<not> placed b (Mismatched ls)" "ls_prefix ls \<noteq> []"
      and fr: "\<forall>l. beneath (ls_prefix ls) l \<longrightarrow> \<not> known b l \<and> l \<noteq> Matched ls \<and> l \<noteq> Mismatched ls"
    from render_args_renders[OF a pa] fr fresh_from_beneath obtain b' where b': "render_args 0 pa ls b = Some b'"
      "renders b b' {l. fresh_from (ls_prefix ls) arg_name 0 (labelCounter ls) l}
      {Matched ls, Mismatched ls} {} {} (either (Matched ls) (Mismatched ls) (\<lambda>w a. args_match (data_of w) 0 pa))"
      by blast
    show "\<exists>b'. rule_Render (PerArg pa) ls b = Some b' \<and>
     renders b b' {l. beneath (ls_prefix ls) l} {Matched ls, Mismatched ls} {} {}
       (either (Matched ls) (Mismatched ls) (\<lambda>w a. rule_matches (data_of w) (PerArg pa)))"
      using b'(1) by (intro exI[of _ b']) (auto intro!: renders_weaken[OF b'(2)] dest: fresh_from_beneath)
  qed
qed

end
