(* ===== verification/Seccomp_Action.thy ===== *)
theory Seccomp_Action
  imports Go_Format
begin

text \<open>
  The actions of \<^verbatim>\<open>pkg/seccomp/seccomp.go\<close>, which are strings with an optional code after a
  colon, and the BPF actions of \<^verbatim>\<open>pkg/abi/linux/seccomp.go\<close> that they stand for.

  Whether the kernel can kill a process is asked once, with a system call; its answer is the
  parameter \<open>killAvail\<close>, an error or a truth value.  \<open>None\<close> is a panic.
\<close>

section \<open>Definitions\<close>

type_synonym BPFAction = u32

abbreviation SECCOMP_RET_ACTION_FULL :: u32 where "SECCOMP_RET_ACTION_FULL \<equiv> 0xffff0000"
abbreviation SECCOMP_RET_DATA :: u32 where "SECCOMP_RET_DATA \<equiv> 0x0000ffff"
abbreviation SECCOMP_RET_KILL_PROCESS :: BPFAction where "SECCOMP_RET_KILL_PROCESS \<equiv> 0x80000000"
abbreviation SECCOMP_RET_KILL_THREAD :: BPFAction where "SECCOMP_RET_KILL_THREAD \<equiv> 0x00000000"
abbreviation SECCOMP_RET_TRAP :: BPFAction where "SECCOMP_RET_TRAP \<equiv> 0x00030000"
abbreviation SECCOMP_RET_ERRNO :: BPFAction where "SECCOMP_RET_ERRNO \<equiv> 0x00050000"
abbreviation SECCOMP_RET_TRACE :: BPFAction where "SECCOMP_RET_TRACE \<equiv> 0x7ff00000"
abbreviation SECCOMP_RET_USER_NOTIF :: BPFAction where "SECCOMP_RET_USER_NOTIF \<equiv> 0x7fc00000"
abbreviation SECCOMP_RET_ALLOW :: BPFAction where "SECCOMP_RET_ALLOW \<equiv> 0x7fff0000"

definition Data :: "BPFAction \<Rightarrow> u16" where
  "Data a = ucast (a AND SECCOMP_RET_DATA)"

definition WithReturnCode :: "BPFAction \<Rightarrow> u16 \<Rightarrow> BPFAction option" where
  "WithReturnCode a code =
     (let baseAction = a AND SECCOMP_RET_ACTION_FULL
      in if baseAction = SECCOMP_RET_ERRNO \<or> baseAction = SECCOMP_RET_TRACE
         then Some (baseAction OR ucast code) else None)"

definition BPFAction_String :: "BPFAction \<Rightarrow> string" where
  "BPFAction_String a =
     (let base = a AND SECCOMP_RET_ACTION_FULL; data = Data a
      in if base = SECCOMP_RET_KILL_PROCESS then ''kill process''
         else if base = SECCOMP_RET_KILL_THREAD then ''kill thread''
         else if base = SECCOMP_RET_TRAP then
           (if data = 0 then ''trap'' else ''trap (data='' @ fmt_0x (unat data) @ '')'')
         else if base = SECCOMP_RET_ERRNO then ''return errno='' @ fmt_0x (unat data)
         else if base = SECCOMP_RET_TRACE then
           (if data = 0 then ''trace'' else ''trace (data='' @ fmt_0x (unat data) @ '')'')
         else if base = SECCOMP_RET_ALLOW then ''allow''
         else if base = SECCOMP_RET_USER_NOTIF then ''unotify''
         else ''invalid action: '' @ fmt_0x (unat a))"

type_synonym Action = string

abbreviation Default :: Action where "Default \<equiv> []"
abbreviation Allow :: Action where "Allow \<equiv> ''allow''"
abbreviation Trap :: Action where "Trap \<equiv> ''trap''"
abbreviation KillThread :: Action where "KillThread \<equiv> ''kill_thread''"
abbreviation KillProcess :: Action where "KillProcess \<equiv> ''kill_process''"
abbreviation UserNotify :: Action where "UserNotify \<equiv> ''user_notify''"
abbreviation ReturnError :: Action where "ReturnError \<equiv> ''return_error''"
abbreviation Trace :: Action where "Trace \<equiv> ''trace''"

definition Action_Code :: "Action \<Rightarrow> u16 \<Rightarrow> Action" where
  "Action_Code a code =
     (case strings_Index (CHR '':'') a of
        Some colonIndex \<Rightarrow> take colonIndex a @ '':'' @ fmt_04x (unat code)
      | None \<Rightarrow> a @ '':'' @ fmt_04x (unat code))"

definition Action_String :: "Action \<Rightarrow> string" where
  "Action_String a = (if a = Default then ''[default]'' else a)"

type_synonym action_result = "(string + BPFAction) option"

lemma strings_Index_less: "strings_Index c s = Some i \<Longrightarrow> i < length s"
  by (induction s arbitrary: i) (auto split: if_splits)

function Action_bpf :: "action_result \<Rightarrow> Action \<Rightarrow> action_result" where
  "Action_bpf defaultAction a =
     (if a = Default then
        do {
          r \<leftarrow> defaultAction;
          Some (case r of Inl err \<Rightarrow> Inl (''failed to determine default seccomp action: '' @ err) | Inr da \<Rightarrow> Inr da)
        }
      else if a = Allow then Some (Inr SECCOMP_RET_ALLOW)
      else if a = UserNotify then Some (Inr SECCOMP_RET_USER_NOTIF)
      else if a = Trap then Some (Inr SECCOMP_RET_TRAP)
      else if a = Trace then Some (Inr SECCOMP_RET_TRACE)
      else if a = ReturnError then Some (Inr SECCOMP_RET_ERRNO)
      else if a = KillThread then Some (Inr SECCOMP_RET_KILL_THREAD)
      else if a = KillProcess then Some (Inr SECCOMP_RET_KILL_PROCESS)
      else (case strings_Index (CHR '':'') a of
        None \<Rightarrow> None
      | Some colonIndex \<Rightarrow>
          (case ParseUint (drop (colonIndex + 1) a) 16 16 of
             None \<Rightarrow> None
           | Some code \<Rightarrow>
               (case Action_bpf defaultAction (take colonIndex a) of
                  None \<Rightarrow> None
                | Some (Inl err) \<Rightarrow> Some (Inl err)
                | Some (Inr act) \<Rightarrow> map_option Inr (WithReturnCode act (of_nat code))))))"
  by pat_completeness auto
termination
  by (relation "measure (\<lambda>(d, a). length a)") (auto dest: strings_Index_less)

declare Action_bpf.simps [simp del]

definition saneDefaultAction :: "string + bool \<Rightarrow> action_result" where
  "saneDefaultAction killAvail =
     Some (case killAvail of
             Inl err \<Rightarrow> Inl err
           | Inr available \<Rightarrow> Inr (if available then SECCOMP_RET_KILL_PROCESS else SECCOMP_RET_TRAP))"

end
