(* ===== verification/Syscall_Rules.thy ===== *)
theory Syscall_Rules
  imports Seccomp_Rules "HOL-Library.AList"
begin

text \<open>
  \<open>SyscallRules\<close> of \<^verbatim>\<open>pkg/seccomp/seccomp_rules.go\<close>, the map from system call numbers to
  rules, and its operations.  The Go map is an association list with distinct keys; \<open>ord\<close> is the
  order in which Go visits the keys.  The operations that mutate the map return the new one.
\<close>

section \<open>Definitions\<close>

record SyscallRules =
  rules :: "(u64 \<times> SyscallRule) list"

definition MakeSyscallRules :: "(u64 \<times> SyscallRule) list option \<Rightarrow> SyscallRules" where
  "MakeSyscallRules m = \<lparr>rules = (case m of None \<Rightarrow> [] | Some rs \<Rightarrow> rs)\<rparr>"

definition NewSyscallRules :: SyscallRules where
  "NewSyscallRules = MakeSyscallRules None"

definition sr_Size :: "SyscallRules \<Rightarrow> nat" where
  "sr_Size sr = length (rules sr)"

text \<open>\<open>None\<close> is the nil rule.\<close>

definition sr_Get :: "SyscallRules \<Rightarrow> u64 \<Rightarrow> SyscallRule option" where
  "sr_Get sr sysno = map_of (rules sr) sysno"

definition sr_Has :: "SyscallRules \<Rightarrow> u64 \<Rightarrow> bool" where
  "sr_Has sr sysno \<longleftrightarrow> map_of (rules sr) sysno \<noteq> None"

definition sr_Add :: "u64 \<Rightarrow> SyscallRule \<Rightarrow> SyscallRules \<Rightarrow> SyscallRules" where
  "sr_Add sysno r sr =
     (case map_of (rules sr) sysno of
        Some cur \<Rightarrow> sr\<lparr>rules := AList.update sysno (Or [cur, r]) (rules sr)\<rparr>
      | None \<Rightarrow> sr\<lparr>rules := AList.update sysno r (rules sr)\<rparr>)"

text \<open>\<open>Set\<close> panics when there is a rule, \<open>Remove\<close> when there is none.\<close>

definition sr_Set :: "u64 \<Rightarrow> SyscallRule \<Rightarrow> SyscallRules \<Rightarrow> SyscallRules option" where
  "sr_Set sysno r sr =
     (if map_of (rules sr) sysno \<noteq> None then None
      else Some (sr\<lparr>rules := AList.update sysno r (rules sr)\<rparr>))"

definition sr_Remove :: "u64 \<Rightarrow> SyscallRules \<Rightarrow> SyscallRules option" where
  "sr_Remove sysno sr =
     (if \<not> sr_Has sr sysno then None else Some (sr\<lparr>rules := AList.delete sysno (rules sr)\<rparr>))"

definition sr_Merge :: "(u64 list \<Rightarrow> u64 list) \<Rightarrow> SyscallRules \<Rightarrow> SyscallRules \<Rightarrow> SyscallRules" where
  "sr_Merge ord other sr =
     fold (\<lambda>sysno sr. case map_of (rules other) sysno of None \<Rightarrow> sr | Some r \<Rightarrow> sr_Add sysno r sr)
       (ord (map fst (rules other))) sr"

definition sr_Copy :: "(u64 list \<Rightarrow> u64 list) \<Rightarrow> SyscallRules \<Rightarrow> SyscallRules" where
  "sr_Copy ord sr =
     MakeSyscallRules (Some (fold (\<lambda>sysno rulesCopy.
         case map_of (rules sr) sysno of None \<Rightarrow> rulesCopy | Some r \<Rightarrow> AList.update sysno (rule_Copy r) rulesCopy)
       (ord (map fst (rules sr))) []))"

definition sr_String :: "(u64 list \<Rightarrow> u64 list) \<Rightarrow> SyscallRules \<Rightarrow> string option" where
  "sr_String ord sr =
     (if length (rules sr) = 0 then Some ''(no rules)''
      else map_option strings_TrimSpace
        (foldm (\<lambda>sysno sb. do {
             r \<leftarrow> map_of (rules sr) sysno;
             str \<leftarrow> rule_String r;
             Some (sb @ ''syscall '' @ fmt_d (unat sysno) @ '': '' @ str @ [CHR 0x0A])
           }) (sort (ord (map fst (rules sr)))) ''''))"

text \<open>
  \<open>ForSingleArgument\<close>.  The errors of the callback have type \<open>'e\<close>.  \<open>process\<close> visits the rules
  and keeps the first error of the callback, which a rule without arguments and children
  replaces.
\<close>

datatype 'e arg_error =
    InvalidArgument int
  | NoRulesDefined u64
  | PerArgError "ValueMatcher option list" nat 'e
  | NotPerArgOrRecursive SyscallRule

fun process :: "nat \<Rightarrow> (ValueMatcher option \<Rightarrow> 'e option) \<Rightarrow> SyscallRule \<Rightarrow> 'e arg_error option \<Rightarrow> 'e arg_error option"
  and process_list :: "nat \<Rightarrow> (ValueMatcher option \<Rightarrow> 'e option) \<Rightarrow> SyscallRule list \<Rightarrow> 'e arg_error option \<Rightarrow> 'e arg_error option" where
  "process argNum fn (PerArg pa) err =
     (case fn (pa ! argNum) of
        Some gotErr \<Rightarrow> if err = None then Some (PerArgError pa argNum gotErr) else err
      | None \<Rightarrow> err)"
| "process argNum fn MatchAll err = Some (NotPerArgOrRecursive MatchAll)"
| "process argNum fn (Or rs) err =
     (if rs = [] then Some (NotPerArgOrRecursive (Or rs)) else process_list argNum fn rs err)"
| "process argNum fn (And rs) err =
     (if rs = [] then Some (NotPerArgOrRecursive (And rs)) else process_list argNum fn rs err)"
| "process_list argNum fn [] err = err"
| "process_list argNum fn (r # rs) err = process_list argNum fn rs (process argNum fn r err)"

definition ForSingleArgument ::
  "u64 \<Rightarrow> int \<Rightarrow> (ValueMatcher option \<Rightarrow> 'e option) \<Rightarrow> SyscallRules \<Rightarrow> 'e arg_error option" where
  "ForSingleArgument sysno argNum fn sr =
     (if argNum < 0 \<or> argNum \<ge> 7 then Some (InvalidArgument argNum)
      else case map_of (rules sr) sysno of
        None \<Rightarrow> Some (NoRulesDefined sysno)
      | Some r \<Rightarrow> process (nat argNum) fn r None)"

definition DenyNewExecMappings :: SyscallRules where
  "DenyNewExecMappings =
     (let r = PerArg [Some AnyValue, Some AnyValue, Some (MaskedEqual 4 4), None, None, None, None]
      in MakeSyscallRules (Some [(9, r), (10, r)]))"

section \<open>Properties\<close>

end
