(* ===== verification/Seccomp_Optimizer.thy ===== *)
theory Seccomp_Optimizer
  imports Seccomp_Rules
begin

text \<open>
  The rule optimiser of \<^verbatim>\<open>pkg/seccomp/seccomp_optimizer.go\<close>.  An optimiser function returns a
  rule and whether it changed anything; it panics on a nil matcher and on a representation
  that contains a semicolon.  The functions that Go writes once for \<^verbatim>\<open>Or\<close> and
  \<^verbatim>\<open>And\<close> take the kind of compound rule as an argument.  Sets of strings are
  duplicate-free lists.

  \<open>Recurse\<close> replaces the sub-rules in place; the model returns the new rule.  The loop
  \<open>optimizationRun_optimize\<close> and the recursion of \<open>extractRepeatedMatchers\<close> are partial
  functions, for which not returning is \<open>None\<close>.
\<close>

section \<open>Definitions\<close>

type_synonym ruleOptimizerFunc = "SyscallRule \<Rightarrow> (SyscallRule \<times> bool) option"

datatype compound = COr | CAnd

fun as_compound :: "compound \<Rightarrow> SyscallRule \<Rightarrow> SyscallRule list option" where
  "as_compound COr (Or rs) = Some rs"
| "as_compound CAnd (And rs) = Some rs"
| "as_compound _ _ = None"

fun compound_rule :: "compound \<Rightarrow> SyscallRule list \<Rightarrow> SyscallRule" where
  "compound_rule COr rs = Or rs"
| "compound_rule CAnd rs = And rs"

subsection \<open>Compound rules\<close>

definition convertSingleCompoundRuleToThatRule :: "compound \<Rightarrow> ruleOptimizerFunc" where
  "convertSingleCompoundRuleToThatRule t rule =
     Some (case as_compound t rule of
             Some [r] \<Rightarrow> (r, True)
           | _ \<Rightarrow> (rule, False))"

definition flattenCompoundRules :: "compound \<Rightarrow> ruleOptimizerFunc" where
  "flattenCompoundRules t rule =
     Some (case as_compound t rule of
             None \<Rightarrow> (rule, False)
           | Some rs \<Rightarrow>
               if list_ex (\<lambda>sub. as_compound t sub \<noteq> None) rs
               then (compound_rule t (concat (map (\<lambda>sub. case as_compound t sub of
                        Some subs \<Rightarrow> subs | None \<Rightarrow> [sub]) rs)), True)
               else (rule, False))"

definition convertMatchAllOrXToMatchAll :: ruleOptimizerFunc where
  "convertMatchAllOrXToMatchAll rule =
     Some (case rule of
             Or rs \<Rightarrow> if MatchAll \<in> set rs then (MatchAll, True) else (rule, False)
           | _ \<Rightarrow> (rule, False))"

definition convertMatchAllAndXToX :: ruleOptimizerFunc where
  "convertMatchAllAndXToX rule =
     Some (case rule of
             And rs \<Rightarrow>
               if MatchAll \<in> set rs then
                 (let newRules = filter (\<lambda>sub. sub \<noteq> MatchAll) rs
                  in if newRules = [] then (MatchAll, True) else (And newRules, True))
               else (rule, False)
           | _ \<Rightarrow> (rule, False))"

subsection \<open>Argument rules\<close>

definition nilInPerArgToAnyValue :: ruleOptimizerFunc where
  "nilInPerArgToAnyValue rule =
     Some (case rule of
             PerArg pa \<Rightarrow>
               (PerArg (map (\<lambda>m. case m of None \<Rightarrow> Some AnyValue | Some v \<Rightarrow> Some v) pa), None \<in> set pa)
           | _ \<Rightarrow> (rule, False))"

definition convertUselessPerArgToMatchAll :: ruleOptimizerFunc where
  "convertUselessPerArgToMatchAll rule =
     Some (case rule of
             PerArg pa \<Rightarrow> if list_all (\<lambda>m. m = Some AnyValue) pa then (MatchAll, True) else (rule, False)
           | _ \<Rightarrow> (rule, False))"

fun signature :: "ValueMatcher option list \<Rightarrow> string option" where
  "signature [] = Some []"
| "signature (None # pa) = None"
| "signature (Some valueMatcher # pa) =
     (let repr = vm_Repr valueMatcher
      in if CHR '';'' \<in> set repr then None else map_option (\<lambda>s. repr @ '';'' @ s) (signature pa))"

text \<open>The loop of \<open>deduplicatePerArgs\<close>, with the signatures seen so far.\<close>

fun dedup_rules :: "string list \<Rightarrow> SyscallRule list \<Rightarrow> (SyscallRule list \<times> bool) option" where
  "dedup_rules known [] = Some ([], False)"
| "dedup_rules known (PerArg pa # rs) =
     do {
       sig \<leftarrow> signature pa;
       if sig \<in> set known then map_option (\<lambda>(rs', _). (rs', True)) (dedup_rules known rs)
       else map_option (\<lambda>(rs', ch). (PerArg pa # rs', ch)) (dedup_rules (sig # known) rs)
     }"
| "dedup_rules known (r # rs) = map_option (\<lambda>(rs', ch). (r # rs', ch)) (dedup_rules known rs)"

definition deduplicatePerArgs :: "compound \<Rightarrow> ruleOptimizerFunc" where
  "deduplicatePerArgs t rule =
     (case as_compound t rule of
        None \<Rightarrow> Some (rule, False)
      | Some rs \<Rightarrow>
          if length rs < 2 then Some (rule, False)
          else map_option (\<lambda>(newRules, changed).
                 if changed then (compound_rule t newRules, True) else (rule, False)) (dedup_rules [] rs))"

subsection \<open>Split matchers\<close>

fun splittable :: "ValueMatcher option \<Rightarrow> bool" where
  "splittable (Some m) \<longleftrightarrow> split_vm m \<noteq> None"
| "splittable None \<longleftrightarrow> False"

fun split_arg :: "ValueMatcher option \<Rightarrow> ValueMatcher option" where
  "split_arg (Some m) = (case split_vm m of Some sm \<Rightarrow> Some (SplitMatcher sm) | None \<Rightarrow> Some m)"
| "split_arg None = None"

definition splitMatchers :: ruleOptimizerFunc where
  "splitMatchers rule =
     Some (case rule of
             PerArg pa \<Rightarrow> (PerArg (map split_arg pa), list_ex splittable pa)
           | _ \<Rightarrow> (rule, False))"

fun simplifyHalfValueMatcher :: "halfValueMatcher \<Rightarrow> halfValueMatcher" where
  "simplifyHalfValueMatcher (halfNotSet v) = (if v = 0 then halfAnyValue else halfNotSet v)"
| "simplifyHalfValueMatcher (halfMaskedEqual msk v) =
     (if msk = 0 \<and> v = 0 then halfAnyValue
      else if msk = 0xffffffff then halfEqualTo v
      else if v = 0 then halfNotSet msk
      else halfMaskedEqual msk v)"
| "simplifyHalfValueMatcher hvm = hvm"

text \<open>One argument of \<open>simplifyHalfValueMatchers\<close>: a half is replaced when its representation changes.\<close>

fun simplify_arg :: "ValueMatcher option \<Rightarrow> ValueMatcher option \<times> bool" where
  "simplify_arg (Some (SplitMatcher sm)) =
     (let newHigh = simplifyHalfValueMatcher (highMatcher sm);
          chHigh = (half_Repr newHigh \<noteq> half_Repr (highMatcher sm));
          sm = (if chHigh then sm\<lparr>highMatcher := newHigh\<rparr> else sm);
          newLow = simplifyHalfValueMatcher (lowMatcher sm);
          chLow = (half_Repr newLow \<noteq> half_Repr (lowMatcher sm));
          sm = (if chLow then sm\<lparr>lowMatcher := newLow\<rparr> else sm)
      in (Some (SplitMatcher sm), chHigh \<or> chLow))"
| "simplify_arg m = (m, False)"

definition simplifyHalfValueMatchers :: ruleOptimizerFunc where
  "simplifyHalfValueMatchers rule =
     Some (case rule of
             PerArg pa \<Rightarrow> (PerArg (map (fst \<circ> simplify_arg) pa), list_ex (snd \<circ> simplify_arg) pa)
           | _ \<Rightarrow> (rule, False))"

fun any_split :: "ValueMatcher option \<Rightarrow> bool" where
  "any_split (Some (SplitMatcher sm)) \<longleftrightarrow> highMatcher sm = halfAnyValue \<and> lowMatcher sm = halfAnyValue"
| "any_split m \<longleftrightarrow> False"

definition anySplitMatchersToAnyValue :: ruleOptimizerFunc where
  "anySplitMatchersToAnyValue rule =
     Some (case rule of
             PerArg pa \<Rightarrow> (PerArg (map (\<lambda>m. if any_split m then Some AnyValue else m) pa), list_ex any_split pa)
           | _ \<Rightarrow> (rule, False))"

subsection \<open>Extraction of repeated matchers\<close>

definition sameStringSet :: "string list \<Rightarrow> string list \<Rightarrow> bool" where
  "sameStringSet m1 m2 \<longleftrightarrow> length m1 = length m2 \<and> list_all (\<lambda>k. k \<in> set m2) m1"

record extractData =
  extractedMatcher :: "ValueMatcher option"
  otherMatchers :: "ValueMatcher option list"
  otherMatchersSig :: string
  extractedMatcherIsAnyValue :: bool
  otherMatchersAreAllAnyValue :: bool

datatype extractFn = ExtractWhole | ExtractHigh | ExtractLow

text \<open>
  The three extraction functions.  The outer \<open>None\<close> is a panic of \<open>signature\<close>, the inner one says
  that the argument is not a split matcher.
\<close>

fun extract_with :: "extractFn \<Rightarrow> nat \<Rightarrow> ValueMatcher option list \<Rightarrow> extractData option option" where
  "extract_with ExtractWhole argNum pa =
     do {
       sig \<leftarrow> signature (pa[argNum := Some invalidValueMatcher]);
       let other = pa[argNum := Some AnyValue];
       Some (Some \<lparr>extractedMatcher = pa ! argNum,
                   otherMatchers = other,
                   otherMatchersSig = sig,
                   extractedMatcherIsAnyValue = (pa ! argNum = Some AnyValue),
                   otherMatchersAreAllAnyValue = list_all (\<lambda>m. m = Some AnyValue) other\<rparr>)
     }"
| "extract_with ExtractHigh argNum pa =
     (case pa ! argNum of
        Some (SplitMatcher split) \<Rightarrow>
          do {
            sig \<leftarrow> signature (pa[argNum := Some (SplitMatcher
                     \<lparr>sm_repr = [], highMatcher = invalidHalfValueMatcher, lowMatcher = lowMatcher split\<rparr>)]);
            let other = pa[argNum := Some (SplitMatcher (low32BitsMatch (lowMatcher split)))];
            Some (Some \<lparr>extractedMatcher = Some (SplitMatcher (high32BitsMatch (highMatcher split))),
                        otherMatchers = other,
                        otherMatchersSig = sig,
                        extractedMatcherIsAnyValue = (highMatcher split = halfAnyValue),
                        otherMatchersAreAllAnyValue =
                          (lowMatcher split = halfAnyValue \<and>
                           list_all (\<lambda>i. i = argNum \<or> other ! i = Some AnyValue) [0..<length other])\<rparr>)
          }
      | _ \<Rightarrow> Some None)"
| "extract_with ExtractLow argNum pa =
     (case pa ! argNum of
        Some (SplitMatcher split) \<Rightarrow>
          do {
            sig \<leftarrow> signature (pa[argNum := Some (SplitMatcher
                     \<lparr>sm_repr = [], highMatcher = highMatcher split, lowMatcher = invalidHalfValueMatcher\<rparr>)]);
            let other = pa[argNum := Some (SplitMatcher (high32BitsMatch (highMatcher split)))];
            Some (Some \<lparr>extractedMatcher = Some (SplitMatcher (low32BitsMatch (lowMatcher split))),
                        otherMatchers = other,
                        otherMatchersSig = sig,
                        extractedMatcherIsAnyValue = (lowMatcher split = halfAnyValue),
                        otherMatchersAreAllAnyValue =
                          (highMatcher split = halfAnyValue \<and>
                           list_all (\<lambda>i. i = argNum \<or> other ! i = Some AnyValue) [0..<length other])\<rparr>)
          }
      | _ \<Rightarrow> Some None)"

text \<open>What the loop over the branches of the disjunction collects.\<close>

record extraction =
  allArgNumMatchersAreAnyValue :: bool
  allOtherMatchersAreAnyValue :: bool
  allOtherMatchersSigs :: "string list"
  argExprToOtherMatchersSigs :: "(string \<times> string list) list"

definition no_extraction :: extraction where
  "no_extraction = \<lparr>allArgNumMatchersAreAnyValue = True, allOtherMatchersAreAnyValue = True,
     allOtherMatchersSigs = [], argExprToOtherMatchersSigs = []\<rparr>"

fun collect_extraction ::
  "extractFn \<Rightarrow> nat \<Rightarrow> ValueMatcher option list list \<Rightarrow> extraction \<Rightarrow> extraction option option" where
  "collect_extraction fn argNum [] st = Some (Some st)"
| "collect_extraction fn argNum (pa # pas) st =
     do {
       ed \<leftarrow> extract_with fn argNum pa;
       case ed of
         None \<Rightarrow> Some None
       | Some ed \<Rightarrow>
           do {
             m \<leftarrow> extractedMatcher ed;
             let repr = vm_Repr m;
             let seen = (case map_of (argExprToOtherMatchersSigs st) repr of None \<Rightarrow> [] | Some sigs \<Rightarrow> sigs);
             collect_extraction fn argNum pas
               \<lparr>allArgNumMatchersAreAnyValue =
                  (allArgNumMatchersAreAnyValue st \<and> extractedMatcherIsAnyValue ed),
                allOtherMatchersAreAnyValue =
                  (allOtherMatchersAreAnyValue st \<and> otherMatchersAreAllAnyValue ed),
                allOtherMatchersSigs = List.insert (otherMatchersSig ed) (allOtherMatchersSigs st),
                argExprToOtherMatchersSigs =
                  AList.update repr (List.insert (otherMatchersSig ed) seen) (argExprToOtherMatchersSigs st)\<rparr>
           }
     }"

definition only_arg :: "nat \<Rightarrow> ValueMatcher option \<Rightarrow> ValueMatcher option list" where
  "only_arg argNum m = (replicate 7 (Some AnyValue))[argNum := m]"

text \<open>The two copies of the disjunction: the extracted matchers, and the rest.\<close>

fun split_branches ::
  "extractFn \<Rightarrow> nat \<Rightarrow> ValueMatcher option list list \<Rightarrow> (SyscallRule list \<times> SyscallRule list) option" where
  "split_branches fn argNum [] = Some ([], [])"
| "split_branches fn argNum (pa # pas) =
     do {
       ed \<leftarrow> extract_with fn argNum pa;
       ed \<leftarrow> ed;
       (as, bs) \<leftarrow> split_branches fn argNum pas;
       Some (PerArg (only_arg argNum (extractedMatcher ed)) # as, PerArg (otherMatchers ed) # bs)
     }"

text \<open>One attempt: \<open>Some None\<close> when the argument cannot be extracted this way.\<close>

definition try_extraction ::
  "extractFn \<Rightarrow> nat \<Rightarrow> ValueMatcher option list list \<Rightarrow> (SyscallRule list \<times> SyscallRule list) option option" where
  "try_extraction fn argNum pas =
     do {
       st \<leftarrow> collect_extraction fn argNum pas no_extraction;
       case st of
         None \<Rightarrow> Some None
       | Some st \<Rightarrow>
           if allArgNumMatchersAreAnyValue st \<or> allOtherMatchersAreAnyValue st then Some None
           else if \<not> list_all (\<lambda>(repr, omsigs). sameStringSet omsigs (allOtherMatchersSigs st))
                       (argExprToOtherMatchersSigs st)
           then Some None
           else map_option Some (split_branches fn argNum pas)
     }"

fun first_extraction ::
  "(nat \<times> extractFn) list \<Rightarrow> ValueMatcher option list list \<Rightarrow> (SyscallRule list \<times> SyscallRule list) option option" where
  "first_extraction [] pas = Some None"
| "first_extraction ((argNum, fn) # attempts) pas =
     do {
       r \<leftarrow> try_extraction fn argNum pas;
       case r of None \<Rightarrow> first_extraction attempts pas | Some x \<Rightarrow> Some (Some x)
     }"

definition extraction_attempts :: "nat \<Rightarrow> (nat \<times> extractFn) list" where
  "extraction_attempts n =
     concat (map (\<lambda>argNum. [(argNum, ExtractWhole), (argNum, ExtractHigh), (argNum, ExtractLow)]) [0..<n])"

fun per_args :: "SyscallRule list \<Rightarrow> ValueMatcher option list list option" where
  "per_args [] = Some []"
| "per_args (PerArg pa # rs) = map_option (\<lambda>pas. pa # pas) (per_args rs)"
| "per_args (r # rs) = None"

partial_function (option) extractRepeatedMatchers :: "SyscallRule \<Rightarrow> (SyscallRule \<times> bool) option" where
  "extractRepeatedMatchers rule =
     (case as_compound COr rule of
        None \<Rightarrow> Some (rule, False)
      | Some rs \<Rightarrow>
          if length rs < 2 then Some (rule, False)
          else (case per_args rs of
            None \<Rightarrow> Some (rule, False)
          | Some pas \<Rightarrow>
              Option.bind (first_extraction (extraction_attempts (length (hd pas))) pas) (\<lambda>r.
                case r of
                  None \<Rightarrow> Some (rule, False)
                | Some (argNumMatch, otherArgsMatch) \<Rightarrow>
                    Option.bind (extractRepeatedMatchers (Or otherArgsMatch)) (\<lambda>(opt, _).
                      Some (And [Or argNumMatch, opt], True)))))"

subsection \<open>The optimiser\<close>

text \<open>
  \<open>apply\<close> runs one function on the sub-rules first, then on the rule; after the first change
  the rest of the rule is left as it is.
\<close>

fun optimizationRun_apply :: "ruleOptimizerFunc \<Rightarrow> SyscallRule \<Rightarrow> bool \<Rightarrow> (SyscallRule \<times> bool) option"
  and apply_list :: "ruleOptimizerFunc \<Rightarrow> SyscallRule list \<Rightarrow> bool \<Rightarrow> (SyscallRule list \<times> bool) option" where
  "optimizationRun_apply fn MatchAll changed = (if changed then Some (MatchAll, changed) else fn MatchAll)"
| "optimizationRun_apply fn (PerArg pa) changed = (if changed then Some (PerArg pa, changed) else fn (PerArg pa))"
| "optimizationRun_apply fn (Or rs) changed =
     do { (rs, changed) \<leftarrow> apply_list fn rs changed; if changed then Some (Or rs, changed) else fn (Or rs) }"
| "optimizationRun_apply fn (And rs) changed =
     do { (rs, changed) \<leftarrow> apply_list fn rs changed; if changed then Some (And rs, changed) else fn (And rs) }"
| "apply_list fn [] changed = Some ([], changed)"
| "apply_list fn (r # rs) changed =
     do {
       (r, changed) \<leftarrow> optimizationRun_apply fn r changed;
       (rs, changed) \<leftarrow> apply_list fn rs changed;
       Some (r # rs, changed)
     }"

fun optimization_round :: "ruleOptimizerFunc list \<Rightarrow> SyscallRule \<Rightarrow> (SyscallRule \<times> bool) option" where
  "optimization_round [] rule = Some (rule, False)"
| "optimization_round (fn # funcs) rule =
     do {
       (rule, changed) \<leftarrow> optimizationRun_apply fn rule False;
       if changed then Some (rule, True) else optimization_round funcs rule
     }"

partial_function (option) optimizationRun_optimize ::
  "ruleOptimizerFunc list \<Rightarrow> SyscallRule \<Rightarrow> SyscallRule option" where
  "optimizationRun_optimize funcs rule =
     Option.bind (optimization_round funcs rule) (\<lambda>(rule, changed).
       if changed then optimizationRun_optimize funcs rule else Some rule)"

definition rule_optimizer_funcs :: "ruleOptimizerFunc list" where
  "rule_optimizer_funcs =
     [convertSingleCompoundRuleToThatRule COr,
      convertSingleCompoundRuleToThatRule CAnd,
      flattenCompoundRules COr,
      flattenCompoundRules CAnd,
      convertMatchAllOrXToMatchAll,
      convertMatchAllAndXToX,
      nilInPerArgToAnyValue,
      deduplicatePerArgs COr,
      deduplicatePerArgs CAnd,
      convertUselessPerArgToMatchAll,
      splitMatchers,
      simplifyHalfValueMatchers,
      anySplitMatchersToAnyValue,
      extractRepeatedMatchers]"

definition optimizeSyscallRule :: "SyscallRule \<Rightarrow> SyscallRule option" where
  "optimizeSyscallRule rule = optimizationRun_optimize rule_optimizer_funcs rule"

end
