(* ===== verification/Seccomp_Build.thy ===== *)
theory Seccomp_Build
  imports Seccomp_Action Syscall_Rules Seccomp_Optimizer Bpf_Optimizer
begin

text \<open>
  The construction of a filter program in \<^verbatim>\<open>pkg/seccomp/seccomp.go\<close>: rule sets are sorted
  into hot, cold and trivial system calls (\<open>orderRuleSets\<close>), the hot ones are rendered as a
  linear search and the others as binary search trees (\<open>ors_render\<close>), and \<open>Build\<close> adds the check of
  the architecture and the default action, resolves labels and optimises the program.

  What the code takes from outside is in the record \<open>go_env\<close>: the orders in which Go visits its
  maps and the answer of the kernel about killing processes.  \<open>None\<close> is a panic, \<open>Inl\<close> an
  error.  Clock readings and log messages are not part of the model.
\<close>

section \<open>Definitions\<close>

record go_env =
  sysno_order :: "u64 list \<Rightarrow> u64 list"
  label_order :: "string list \<Rightarrow> string list"
  return_order :: "u64 list \<Rightarrow> u64 list"
  killAvail :: "string + bool"

abbreviation LINUX_AUDIT_ARCH :: u32 where "LINUX_AUDIT_ARCH \<equiv> 0xc000003e"

datatype seccomp_error =
    ConflictingVsyscall u64
  | ActionError string
  | ResolveError build_error

record RuleSet =
  Rules :: SyscallRules
  RsAction :: Action
  Vsyscall :: bool

record ProgramOptions =
  DefaultAction :: Action
  BadArchAction :: Action
  SkipOptimizations :: bool
  HotSyscalls :: "u64 list"

record SeccompProgram =
  RuleSets :: "RuleSet list"
  Options :: ProgramOptions

record BuildStats =
  SizeBeforeOptimizations :: nat
  SizeAfterOptimizations :: nat

record syscallRuleAction =
  sra_rule :: SyscallRule
  sra_action :: BPFAction

record singleSyscallRuleSet =
  sysno :: u64
  ssrs_rules :: "syscallRuleAction list"
  vsyscall :: bool

record orderedRuleSets =
  hotNonTrivial :: "(u64 \<times> singleSyscallRuleSet) list"
  hotNonTrivialOrder :: "u64 list"
  coldNonTrivial :: "(u64 \<times> singleSyscallRuleSet) list"
  trivial :: "(u64 \<times> singleSyscallRuleSet) list"

subsection \<open>One system call\<close>

text \<open>The loop over the rules of a system call, from rule \<open>i\<close> on; it returns the label set for its counter.\<close>

fun render_rules ::
  "u64 \<Rightarrow> nat \<Rightarrow> syscallRuleAction list \<Rightarrow> labelSet \<Rightarrow> syscallProgram \<Rightarrow> (syscallProgram \<times> labelSet) option" where
  "render_rules n i [] ls p = Some (p, ls)"
| "render_rules n i (ra # ras) ls p =
     do {
       let (nextRule, ls) = NewLabel ls;
       let (matched, ls) = NewLabel ls;
       let ruleLabels = Push (''sysno'' @ fmt_d (unat n) @ ''_rule'' @ fmt_d i) matched nextRule ls;
       let ruleFrag = sp_Record p;
       p \<leftarrow> rule_Render (sra_rule ra) ruleLabels p;
       p \<leftarrow> sp_Label (Matched ruleLabels) p;
       let p = sp_Ret (sra_action ra) p;
       p \<leftarrow> MustHaveJumpedToOrReturned ruleFrag [nextRule] [sra_action ra] p;
       p \<leftarrow> sp_Label nextRule p;
       render_rules n (Suc i) ras ls p
     }"

definition ssrs_Render ::
  "singleSyscallRuleSet \<Rightarrow> labelSet \<Rightarrow> string \<Rightarrow> syscallProgram \<Rightarrow> (syscallProgram \<times> labelSet) option" where
  "ssrs_Render ssrs ls noMatch p =
     do {
       let frag = sp_Record p;
       p \<leftarrow> (if vsyscall ssrs then
               IfNot (bpf_Jmp OR bpf_Jset OR bpf_K) vsyscallPageIPMask noMatch
                 (sp_Stmt (bpf_Ld OR bpf_Abs OR bpf_W) seccompDataOffsetIPHigh p)
             else Some p);
       (p, ls) \<leftarrow> render_rules (sysno ssrs) 0 (ssrs_rules ssrs) ls p;
       p \<leftarrow> JumpTo noMatch p;
       p \<leftarrow> MustHaveJumpedToOrReturned frag [noMatch] (remdups (map sra_action (ssrs_rules ssrs))) p;
       Some (p, ls)
     }"

definition sra_String :: "syscallRuleAction \<Rightarrow> string option" where
  "sra_String sra =
     (if sra_rule sra = MatchAll then Some (BPFAction_String (sra_action sra))
      else map_option (\<lambda>s. ''('' @ s @ '') => '' @ BPFAction_String (sra_action sra)) (rule_String (sra_rule sra)))"

fun sra_strings :: "syscallRuleAction list \<Rightarrow> string list option" where
  "sra_strings [] = Some []"
| "sra_strings (r # rs) = do { s \<leftarrow> sra_String r; ss \<leftarrow> sra_strings rs; Some (s # ss) }"

definition ssrs_String :: "singleSyscallRuleSet \<Rightarrow> string option" where
  "ssrs_String ssrs =
     (let hd = (if vsyscall ssrs then ''Vsyscall '' else ''Syscall  '');
          num = (let s = fmt_d (unat (sysno ssrs)) in replicate (3 - length s) (CHR '' '') @ s)
      in do {
        ss \<leftarrow> sra_strings (ssrs_rules ssrs);
        Some (hd @ num @ '': '' @
          (if length ss = 0 then ''(no rules)''
           else if length ss = 1 then strings_Join ss []
           else ''{'' @ strings_Join ss ''; '' @ ''}''))
      })"

subsection \<open>Ordering the rule sets\<close>

text \<open>The first pass: \<open>Inl\<close> when two rule sets disagree about a system call.\<close>

fun vsyscall_keys :: "bool \<Rightarrow> u64 list \<Rightarrow> (u64 \<times> bool) list \<Rightarrow> seccomp_error + (u64 \<times> bool) list" where
  "vsyscall_keys v [] m = Inr m"
| "vsyscall_keys v (n # ns) m =
     (case map_of m n of
        Some prevVsyscall \<Rightarrow> if prevVsyscall \<noteq> v then Inl (ConflictingVsyscall n) else vsyscall_keys v ns m
      | None \<Rightarrow> vsyscall_keys v ns (AList.update n v m))"

fun vsyscallBySysno :: "go_env \<Rightarrow> RuleSet list \<Rightarrow> (u64 \<times> bool) list \<Rightarrow> seccomp_error + (u64 \<times> bool) list" where
  "vsyscallBySysno env [] m = Inr m"
| "vsyscallBySysno env (rs # rss) m =
     (case vsyscall_keys (Vsyscall rs) (sysno_order env (map fst (rules (Rules rs)))) m of
        Inl err \<Rightarrow> Inl err
      | Inr m \<Rightarrow> vsyscallBySysno env rss m)"

text \<open>The second pass: the rules and actions of every system call, in the order of the rule sets.\<close>

definition add_rule_action ::
  "BPFAction \<Rightarrow> SyscallRule \<Rightarrow> syscallRuleAction list \<Rightarrow> syscallRuleAction list" where
  "add_rule_action action rule existing =
     (if existing = [] then [\<lparr>sra_rule = rule, sra_action = action\<rparr>]
      else if sra_action (last existing) = action
      then butlast existing @ [(last existing)\<lparr>sra_rule := Or [sra_rule (last existing), rule]\<rparr>]
      else existing @ [\<lparr>sra_rule = rule, sra_action = action\<rparr>])"

definition add_rule_set ::
  "go_env \<Rightarrow> BPFAction \<Rightarrow> SyscallRules \<Rightarrow> (u64 \<times> syscallRuleAction list) list \<Rightarrow> (u64 \<times> syscallRuleAction list) list" where
  "add_rule_set env action sr m =
     fold (\<lambda>n m. case map_of (rules sr) n of
         None \<Rightarrow> m
       | Some rule \<Rightarrow>
           AList.update n (add_rule_action action rule (case map_of m n of None \<Rightarrow> [] | Some ras \<Rightarrow> ras)) m)
       (sysno_order env (map fst (rules sr))) m"

definition default_action :: "go_env \<Rightarrow> ProgramOptions \<Rightarrow> action_result" where
  "default_action env options = Action_bpf (saneDefaultAction (killAvail env)) (DefaultAction options)"

fun allSyscallRuleActions ::
  "go_env \<Rightarrow> ProgramOptions \<Rightarrow> RuleSet list \<Rightarrow> (u64 \<times> syscallRuleAction list) list \<Rightarrow>
     (seccomp_error + (u64 \<times> syscallRuleAction list) list) option" where
  "allSyscallRuleActions env options [] m = Some (Inr m)"
| "allSyscallRuleActions env options (rs # rss) m =
     (case Action_bpf (default_action env options) (RsAction rs) of
        None \<Rightarrow> None
      | Some (Inl err) \<Rightarrow> Some (Inl (ActionError err))
      | Some (Inr action) \<Rightarrow> allSyscallRuleActions env options rss (add_rule_set env action (Rules rs) m))"

text \<open>The rules of all system calls are optimised, in the order of a map iteration.\<close>

fun optimize_actions :: "syscallRuleAction list \<Rightarrow> syscallRuleAction list option" where
  "optimize_actions [] = Some []"
| "optimize_actions (ra # ras) =
     do {
       r \<leftarrow> optimizeSyscallRule (sra_rule ra);
       ras' \<leftarrow> optimize_actions ras;
       Some (ra\<lparr>sra_rule := r\<rparr> # ras')
     }"

definition optimize_all ::
  "go_env \<Rightarrow> (u64 \<times> syscallRuleAction list) list \<Rightarrow> (u64 \<times> syscallRuleAction list) list option" where
  "optimize_all env m =
     foldm (\<lambda>n m. case map_of m n of
         None \<Rightarrow> Some m
       | Some ras \<Rightarrow> map_option (\<lambda>ras'. AList.update n ras' m) (optimize_actions ras))
       (sysno_order env (map fst m)) m"

definition isTrivial :: "bool \<Rightarrow> syscallRuleAction list \<Rightarrow> bool" where
  "isTrivial isVsyscall ras \<longleftrightarrow>
     ras \<noteq> [] \<and> list_all (\<lambda>ra. sra_rule ra = MatchAll \<and> \<not> isVsyscall) ras"

definition hot_index ::
  "(u64 \<times> syscallRuleAction list) list \<Rightarrow> (u64 \<Rightarrow> bool) \<Rightarrow> u64 list \<Rightarrow> (u64 \<times> nat) list" where
  "hot_index m triv hot =
     fold (\<lambda>(i, n) idx.
         if map_of m n = None then idx
         else if triv n then idx
         else if map_of idx n \<noteq> None then idx
         else AList.update n i idx) (enumerate 0 hot) []"

text \<open>The last pass distributes the system calls to the three maps.\<close>

definition place_sysno ::
  "(u64 \<Rightarrow> bool) \<Rightarrow> (u64 \<Rightarrow> bool) \<Rightarrow> (u64 \<times> bool) list \<Rightarrow> u64 \<Rightarrow> syscallRuleAction list \<Rightarrow> orderedRuleSets \<Rightarrow> orderedRuleSets" where
  "place_sysno triv hot vs n ras ors =
     (let ssrs = \<lparr>sysno = n, ssrs_rules = ras, vsyscall = (map_of vs n = Some True)\<rparr>
      in if triv n then ors\<lparr>trivial := AList.update n ssrs (trivial ors)\<rparr>
         else if hot n then ors\<lparr>hotNonTrivial := AList.update n ssrs (hotNonTrivial ors)\<rparr>
         else ors\<lparr>coldNonTrivial := AList.update n ssrs (coldNonTrivial ors)\<rparr>)"

definition orderRuleSets ::
  "go_env \<Rightarrow> RuleSet list \<Rightarrow> ProgramOptions \<Rightarrow> (seccomp_error + orderedRuleSets) option" where
  "orderRuleSets env rss options =
     (case vsyscallBySysno env rss [] of
        Inl err \<Rightarrow> Some (Inl err)
      | Inr vs \<Rightarrow>
          (case allSyscallRuleActions env options rss [] of
             None \<Rightarrow> None
           | Some (Inl err) \<Rightarrow> Some (Inl err)
           | Some (Inr all) \<Rightarrow>
               do {
                 all \<leftarrow> (if SkipOptimizations options then Some all else optimize_all env all);
                 let triv = (\<lambda>n. case map_of all n of None \<Rightarrow> False | Some ras \<Rightarrow> isTrivial (map_of vs n = Some True) ras);
                 let idx = hot_index all triv (HotSyscalls options);
                 let order = sort_key (\<lambda>n. case map_of idx n of None \<Rightarrow> 0 | Some i \<Rightarrow> i)
                               (sysno_order env (map fst idx));
                 Some (Inr (fold (\<lambda>n ors. case map_of all n of
                       None \<Rightarrow> ors
                     | Some ras \<Rightarrow> place_sysno triv (\<lambda>n. map_of idx n \<noteq> None) vs n ras ors)
                   (sysno_order env (map fst all))
                   \<lparr>hotNonTrivial = [], hotNonTrivialOrder = order, coldNonTrivial = [], trivial = []\<rparr>))
               }))"

subsection \<open>Linear search\<close>

fun linear_search ::
  "(u64 \<times> singleSyscallRuleSet) list \<Rightarrow> u64 list \<Rightarrow> labelSet \<Rightarrow> u32 list \<Rightarrow> syscallProgram \<Rightarrow>
     (syscallProgram \<times> labelSet \<times> u32 list) option" where
  "linear_search syscallMap [] ls allActions p = Some (p, ls, allActions)"
| "linear_search syscallMap (n # order) ls allActions p =
     do {
       ssrs \<leftarrow> map_of syscallMap n;
       let (nextSyscall, ls) = NewLabel ls;
       let sysnoFrag = sp_Record p;
       let sysnoActions = remdups (map sra_action (ssrs_rules ssrs));
       p \<leftarrow> IfNot (bpf_Jmp OR bpf_Jeq OR bpf_K) (ucast (sysno ssrs)) nextSyscall p;
       (p, ls) \<leftarrow> ssrs_Render ssrs ls defaultLabel p;
       p \<leftarrow> MustHaveJumpedToOrReturned sysnoFrag [nextSyscall, defaultLabel] sysnoActions p;
       p \<leftarrow> sp_Label nextSyscall p;
       linear_search syscallMap order ls (fold List.insert sysnoActions allActions) p
     }"

text \<open>It returns the program, the label set, the possible actions and the system calls checked so far.\<close>

definition renderLinear ::
  "labelSet \<Rightarrow> u64 list \<Rightarrow> (u64 \<times> singleSyscallRuleSet) list \<Rightarrow> u64 list \<Rightarrow> string \<Rightarrow> syscallProgram \<Rightarrow>
     (syscallProgram \<times> labelSet \<times> u32 list \<times> u64 list) option" where
  "renderLinear ls alreadyChecked syscallMap order noSycallNumberMatch p =
     do {
       (p, ls, allActions) \<leftarrow> linear_search syscallMap order ls [] p;
       p \<leftarrow> JumpTo noSycallNumberMatch p;
       Some (p, ls, allActions, fold List.insert order alreadyChecked)
     }"

subsection \<open>Binary search\<close>

datatype node = NilNode | Node (node_value: u64) (left: node) (right: node) (root: bool)

fun node_label :: "node \<Rightarrow> string" where
  "node_label NilNode = defaultLabel"
| "node_label (Node v l r rt) = ''node_'' @ fmt_d (unat v)"

function createBST :: "u64 list \<Rightarrow> node option" where
  "createBST syscalls =
     (if syscalls = [] then None
      else let i = length syscalls div 2 in
        do {
          l \<leftarrow> (if i > 0 then createBST (take i syscalls) else Some NilNode);
          r \<leftarrow> (if i + 1 < length syscalls then createBST (drop (i + 1) syscalls) else Some NilNode);
          Some (Node (syscalls ! i) l r False)
        })"
  by pat_completeness auto
termination by (relation "measure length") auto

declare createBST.simps [simp del]

text \<open>\<^verbatim>\<open>int(sysno)\<close>: Go's conversion of an unsigned to a signed 64-bit integer.\<close>

definition int_of_uintptr :: "u64 \<Rightarrow> int" where
  "int_of_uintptr w = sint w"

record knownRange =
  lowerBoundExclusive :: int
  upperBoundExclusive :: int
  previouslyChecked :: "u64 list"

function raise_lower :: "knownRange \<Rightarrow> knownRange" where
  "raise_lower nkr =
     (if lowerBoundExclusive nkr < upperBoundExclusive nkr \<and>
         word_of_int (lowerBoundExclusive nkr + 1) \<in> set (previouslyChecked nkr)
      then raise_lower (nkr\<lparr>lowerBoundExclusive := lowerBoundExclusive nkr + 1\<rparr>) else nkr)"
  by pat_completeness auto
termination
  by (relation "measure (\<lambda>nkr. nat (upperBoundExclusive nkr - lowerBoundExclusive nkr))") auto

declare raise_lower.simps [simp del]

function reduce_upper :: "knownRange \<Rightarrow> knownRange" where
  "reduce_upper nkr =
     (if lowerBoundExclusive nkr < upperBoundExclusive nkr \<and>
         word_of_int (upperBoundExclusive nkr - 1) \<in> set (previouslyChecked nkr)
      then reduce_upper (nkr\<lparr>upperBoundExclusive := upperBoundExclusive nkr - 1\<rparr>) else nkr)"
  by pat_completeness auto
termination
  by (relation "measure (\<lambda>nkr. nat (upperBoundExclusive nkr - lowerBoundExclusive nkr))") auto

declare reduce_upper.simps [simp del]

definition withLowerBoundExclusive :: "int \<Rightarrow> knownRange \<Rightarrow> knownRange" where
  "withLowerBoundExclusive newLowerBoundExclusive kr = raise_lower (kr\<lparr>lowerBoundExclusive := newLowerBoundExclusive\<rparr>)"

definition withUpperBoundExclusive :: "int \<Rightarrow> knownRange \<Rightarrow> knownRange" where
  "withUpperBoundExclusive newUpperBoundExclusive kr = reduce_upper (kr\<lparr>upperBoundExclusive := newUpperBoundExclusive\<rparr>)"

text \<open>The functions that \<open>traverse\<close> calls never return an error.\<close>

type_synonym traverseFunc =
  "node \<Rightarrow> knownRange \<Rightarrow> (u64 \<times> singleSyscallRuleSet) list \<Rightarrow> string \<Rightarrow> syscallProgram \<Rightarrow> syscallProgram option"

definition checkArgsLabel :: "u64 \<Rightarrow> string" where
  "checkArgsLabel n = ''checkArgs_'' @ fmt_d (unat n)"

definition renderBSTTraversal :: traverseFunc where
  "renderBSTTraversal n rng syscallMap searchFailed p =
     do {
       p \<leftarrow> (if \<not> root n then sp_Label (node_label n) p else Some p);
       let v = node_value n;
       let nodeFrag = sp_Record p;
       (p, rng) \<leftarrow> (if left n \<noteq> NilNode then
           map_option (\<lambda>p. (p, rng\<lparr>lowerBoundExclusive := int_of_uintptr (v - 1)\<rparr>))
             (IfNot (bpf_Jmp OR bpf_Jge OR bpf_K) (ucast v) (node_label (left n)) p)
         else Some (p, rng));
       (p, rng) \<leftarrow> (if right n \<noteq> NilNode then
           map_option (\<lambda>p. (p, rng\<lparr>upperBoundExclusive := int_of_uintptr (v + 1)\<rparr>))
             (sp_If (bpf_Jmp OR bpf_Jgt OR bpf_K) (ucast v) (node_label (right n)) p)
         else Some (p, rng));
       p \<leftarrow> (if lowerBoundExclusive rng \<noteq> int_of_uintptr (v - 1) \<or>
                upperBoundExclusive rng \<noteq> int_of_uintptr (v + 1)
             then IfNot (bpf_Jmp OR bpf_Jeq OR bpf_K) (ucast v) searchFailed p else Some p);
       p \<leftarrow> JumpTo (checkArgsLabel v) p;
       MustHaveJumpedTo nodeFrag
         [node_label (left n), node_label (right n), checkArgsLabel v, searchFailed] p
     }"

text \<open>A system call that is missing from the map gives the zero \<open>singleSyscallRuleSet\<close>.\<close>

definition map_get :: "(u64 \<times> singleSyscallRuleSet) list \<Rightarrow> u64 \<Rightarrow> singleSyscallRuleSet" where
  "map_get m n = (case map_of m n of None \<Rightarrow> \<lparr>sysno = 0, ssrs_rules = [], vsyscall = False\<rparr> | Some s \<Rightarrow> s)"

definition renderBSTRules :: traverseFunc where
  "renderBSTRules n rng syscallMap searchFailed p =
     do {
       let v = node_value n;
       p \<leftarrow> sp_Label (checkArgsLabel v) p;
       let ruleSetsFrag = sp_Record p;
       let possibleActions = remdups (map sra_action (ssrs_rules (map_get syscallMap v)));
       let nodeLabelSet = \<lparr>ls_prefix = node_label n, labelCounter = 0, Matched = [], Mismatched = []\<rparr>;
       (p, _) \<leftarrow> ssrs_Render (map_get syscallMap v) nodeLabelSet defaultLabel p;
       MustHaveJumpedToOrReturned ruleSetsFrag [defaultLabel] possibleActions p
     }"

fun traverse ::
  "traverseFunc \<Rightarrow> node \<Rightarrow> knownRange \<Rightarrow> (u64 \<times> singleSyscallRuleSet) list \<Rightarrow> string \<Rightarrow> syscallProgram \<Rightarrow>
     syscallProgram option" where
  "traverse fn NilNode kr syscallMap searchFailed p = Some p"
| "traverse fn (Node v l r rt) kr syscallMap searchFailed p =
     do {
       p \<leftarrow> fn (Node v l r rt) kr syscallMap searchFailed p;
       p \<leftarrow> traverse fn l (withUpperBoundExclusive (int_of_uintptr v) kr) syscallMap searchFailed p;
       traverse fn r (withLowerBoundExclusive (int_of_uintptr v) kr) syscallMap searchFailed p
     }"

definition map_actions :: "(u64 \<times> singleSyscallRuleSet) list \<Rightarrow> u32 list" where
  "map_actions m = remdups (concat (map (\<lambda>(n, ssrs). map sra_action (ssrs_rules ssrs)) m))"

fun set_root :: "node \<Rightarrow> node" where
  "set_root NilNode = NilNode"
| "set_root (Node v l r rt) = Node v l r True"

definition renderBST ::
  "go_env \<Rightarrow> u64 list \<Rightarrow> (u64 \<times> singleSyscallRuleSet) list \<Rightarrow> string \<Rightarrow> syscallProgram \<Rightarrow>
     (syscallProgram \<times> u32 list \<times> u64 list) option" where
  "renderBST env alreadyChecked syscallMap noSycallNumberMatch p =
     do {
       let possibleActions = map_actions syscallMap;
       let orderedSysnos = sort (sysno_order env (map fst syscallMap));
       let frag = sp_Record p;
       bst \<leftarrow> createBST orderedSysnos;
       let bst = set_root bst;
       let knownRng = \<lparr>lowerBoundExclusive = -1, upperBoundExclusive = 2 ^ 32, previouslyChecked = alreadyChecked\<rparr>;
       p \<leftarrow> traverse renderBSTTraversal bst knownRng syscallMap noSycallNumberMatch p;
       p \<leftarrow> traverse renderBSTRules bst knownRng syscallMap noSycallNumberMatch p;
       p \<leftarrow> MustHaveJumpedToOrReturned frag [noSycallNumberMatch, defaultLabel] possibleActions p;
       Some (p, possibleActions, fold List.insert (sysno_order env (map fst syscallMap)) alreadyChecked)
     }"

subsection \<open>All rule sets\<close>

definition render_hot ::
  "orderedRuleSets \<Rightarrow> labelSet \<Rightarrow> u64 list \<Rightarrow> syscallProgram \<Rightarrow> (syscallProgram \<times> labelSet \<times> u64 list) option" where
  "render_hot ors ls sysnosChecked p =
     (if length (hotNonTrivialOrder ors) > 0 then
        do {
          let (notHotLabel, ls) = NewLabel ls;
          let hotFrag = sp_Record p;
          (p, ls, possibleActions, sysnosChecked) \<leftarrow>
            renderLinear ls sysnosChecked (hotNonTrivial ors) (hotNonTrivialOrder ors) notHotLabel p;
          p \<leftarrow> MustHaveJumpedToOrReturned hotFrag [notHotLabel, defaultLabel] possibleActions p;
          p \<leftarrow> sp_Label notHotLabel p;
          Some (p, ls, sysnosChecked)
        }
      else Some (p, ls, sysnosChecked))"

definition render_tree ::
  "go_env \<Rightarrow> (u64 \<times> singleSyscallRuleSet) list \<Rightarrow> labelSet \<Rightarrow> u64 list \<Rightarrow> syscallProgram \<Rightarrow>
     (syscallProgram \<times> labelSet \<times> u64 list) option" where
  "render_tree env syscallMap ls sysnosChecked p =
     (if length syscallMap > 0 then
        do {
          let frag = sp_Record p;
          let (noSycallNumberMatch, ls) = NewLabel ls;
          (p, possibleActions, sysnosChecked) \<leftarrow> renderBST env sysnosChecked syscallMap noSycallNumberMatch p;
          p \<leftarrow> MustHaveJumpedToOrReturned frag [noSycallNumberMatch, defaultLabel] possibleActions p;
          p \<leftarrow> sp_Label noSycallNumberMatch p;
          Some (p, ls, sysnosChecked)
        }
      else Some (p, ls, sysnosChecked))"

definition ors_render :: "go_env \<Rightarrow> orderedRuleSets \<Rightarrow> syscallProgram \<Rightarrow> syscallProgram option" where
  "ors_render env ors p =
     do {
       let ls = \<lparr>ls_prefix = ''ors'', labelCounter = 0, Matched = [], Mismatched = []\<rparr>;
       let totalFrag = sp_Record p;
       let p = sp_Stmt (bpf_Ld OR bpf_Abs OR bpf_W) seccompDataOffsetNR p;
       (p, ls, sysnosChecked) \<leftarrow> render_hot ors ls [] p;
       (p, ls, sysnosChecked) \<leftarrow> render_tree env (coldNonTrivial ors) ls sysnosChecked p;
       (p, ls, sysnosChecked) \<leftarrow> render_tree env (trivial ors) ls sysnosChecked p;
       p \<leftarrow> JumpTo defaultLabel p;
       MustHaveJumpedToOrReturned totalFrag [defaultLabel]
         (map_actions (hotNonTrivial ors @ coldNonTrivial ors @ trivial ors)) p
     }"

subsection \<open>Build\<close>

text \<open>The BPF actions of the rule sets.\<close>

fun possible_actions :: "go_env \<Rightarrow> ProgramOptions \<Rightarrow> RuleSet list \<Rightarrow> u32 list \<Rightarrow> (string + u32 list) option" where
  "possible_actions env options [] acts = Some (Inr acts)"
| "possible_actions env options (rs # rss) acts =
     (case Action_bpf (default_action env options) (RsAction rs) of
        None \<Rightarrow> None
      | Some (Inl err) \<Rightarrow> Some (Inl err)
      | Some (Inr action) \<Rightarrow> possible_actions env options rss (List.insert action acts))"

text \<open>The part of \<open>Build\<close> that adds instructions, given the default action and the possible actions.\<close>

definition build_program ::
  "go_env \<Rightarrow> ProgramOptions \<Rightarrow> orderedRuleSets \<Rightarrow> BPFAction \<Rightarrow> u32 list \<Rightarrow> (seccomp_error + syscallProgram) option" where
  "build_program env options ors defaultAction possibleActions =
     do {
       let p = NewProgramBuilder;
       let p = sp_Stmt (bpf_Ld OR bpf_Abs OR bpf_W) seccompDataOffsetArch p;
       p \<leftarrow> IfNot (bpf_Jmp OR bpf_Jeq OR bpf_K) LINUX_AUDIT_ARCH ''badarch'' p;
       let orsFrag = sp_Record p;
       p \<leftarrow> ors_render env ors p;
       p \<leftarrow> MustHaveJumpedToOrReturned orsFrag [defaultLabel] possibleActions p;
       p \<leftarrow> sp_Label defaultLabel p;
       let p = sp_Ret defaultAction p;
       p \<leftarrow> sp_Label ''badarch'' p;
       badArch \<leftarrow> Action_bpf (default_action env options) (BadArchAction options);
       Some (case badArch of
               Inl err \<Rightarrow> Inl (ActionError err)
             | Inr badArchAction \<Rightarrow> Inr (sp_Ret badArchAction p))
     }"

definition finish_build ::
  "go_env \<Rightarrow> ProgramOptions \<Rightarrow> syscallProgram \<Rightarrow> (seccomp_error + insn list \<times> BuildStats) option" where
  "finish_build env options p =
     (case Instructions (label_order env) p of
        None \<Rightarrow> None
      | Some (insns, Some err) \<Rightarrow> Some (Inl (ResolveError err))
      | Some (insns, None) \<Rightarrow>
          do {
            insns' \<leftarrow> (if SkipOptimizations options then Some insns else Optimize (return_order env) insns);
            Some (Inr (insns', \<lparr>SizeBeforeOptimizations = length insns, SizeAfterOptimizations = length insns'\<rparr>))
          })"

definition Build :: "go_env \<Rightarrow> SeccompProgram \<Rightarrow> (seccomp_error + insn list \<times> BuildStats) option" where
  "Build env prog =
     (case orderRuleSets env (RuleSets prog) (Options prog) of
        None \<Rightarrow> None
      | Some (Inl err) \<Rightarrow> Some (Inl err)
      | Some (Inr ors) \<Rightarrow>
          (case default_action env (Options prog) of
             None \<Rightarrow> None
           | Some (Inl err) \<Rightarrow> Some (Inl (ActionError err))
           | Some (Inr defaultAction) \<Rightarrow>
               (case possible_actions env (Options prog) (RuleSets prog) [] of
                  None \<Rightarrow> None
                | Some (Inl err) \<Rightarrow> Some (Inl (ActionError err))
                | Some (Inr acts) \<Rightarrow>
                    (case build_program env (Options prog) ors defaultAction acts of
                       None \<Rightarrow> None
                     | Some (Inl err) \<Rightarrow> Some (Inl err)
                     | Some (Inr p) \<Rightarrow> finish_build env (Options prog) p))))"

text \<open>
  The marshalled form of the system call data is produced by generated code, the parameter
  \<open>marshal\<close>.  A buffer that is too small panics.
\<close>

abbreviation SeccompData_SizeBytes :: nat where "SeccompData_SizeBytes \<equiv> 64"

definition DataAsBPFInput ::
  "(SeccompData \<Rightarrow> u8 list) \<Rightarrow> SeccompData \<Rightarrow> u8 list \<Rightarrow> u8 list option" where
  "DataAsBPFInput marshal d buf =
     (if length buf < SeccompData_SizeBytes then None
      else Some (take SeccompData_SizeBytes (marshal d @ drop (length (marshal d)) buf)))"

end
