(* ===== verification/Seccomp_Syscalls.thy ===== *)
theory Seccomp_Syscalls
  imports Seccomp_Render Seccomp_Build
begin

text \<open>
  The code for the rules of one system call, and the linear search.  \<open>ssrs_Render_renders\<close> says that
  the code of a \<open>singleSyscallRuleSet\<close> returns the action of the first rule that matches
  (\<open>ssrs_action\<close>), and \<open>linear_search_renders\<close> that the linear search over the hot system calls finds
  the rules of the system call in register A and leaves register A alone when there are none.
\<close>

section \<open>Definitions\<close>

text \<open>The action of the first rule that matches.\<close>

fun first_action :: "SeccompData \<Rightarrow> syscallRuleAction list \<Rightarrow> BPFAction option" where
  "first_action d [] = None"
| "first_action d (ra # ras) = (if rule_matches d (sra_rule ra) then Some (sra_action ra) else first_action d ras)"

text \<open>Where the code for the rules of a system call leads: an action, or the label \<open>noMatch\<close>.\<close>

definition act_or :: "string \<Rightarrow> BPFAction option \<Rightarrow> string + u32" where
  "act_or noMatch x = (case x of None \<Rightarrow> Inl noMatch | Some v \<Rightarrow> Inr v)"

text \<open>The action for a system call, with the test of the instruction pointer for vsyscalls.\<close>

definition ssrs_action :: "SeccompData \<Rightarrow> singleSyscallRuleSet \<Rightarrow> BPFAction option" where
  "ssrs_action d ssrs =
     (if vsyscall ssrs \<and> high32Bits (InstructionPointer d) AND vsyscallPageIPMask = 0 then None
      else first_action d (ssrs_rules ssrs))"

definition ssrs_valid :: "singleSyscallRuleSet \<Rightarrow> bool" where
  "ssrs_valid ssrs \<longleftrightarrow> list_all (\<lambda>ra. rule_valid (sra_rule ra)) (ssrs_rules ssrs)"

text \<open>Labels with a counter between two bounds, and the labels of rule \<open>i\<close> of system call \<open>n\<close>.\<close>

definition counted :: "string \<Rightarrow> nat \<Rightarrow> nat \<Rightarrow> string set" where
  "counted P c c' = {P @ ''#'' @ fmt_d k | k. c \<le> k \<and> k < c'}"

definition sysno_prefix :: "string \<Rightarrow> u64 \<Rightarrow> string" where
  "sysno_prefix P n = P @ ''_'' @ ''sysno'' @ fmt_d (unat n)"

definition rule_labels :: "string \<Rightarrow> u64 \<Rightarrow> nat \<Rightarrow> string set" where
  "rule_labels P n i = {l. \<exists>j \<ge> i. beneath (sysno_prefix P n @ ''_'' @ ''rule'' @ fmt_d j) l}"

definition ssrs_labels :: "string \<Rightarrow> nat \<Rightarrow> singleSyscallRuleSet \<Rightarrow> string set" where
  "ssrs_labels P c ssrs = counted P c (c + 2 * length (ssrs_rules ssrs)) \<union> {l. beneath (sysno_prefix P (sysno ssrs)) l}"

fun linear_out ::
  "(u64 \<times> singleSyscallRuleSet) list \<Rightarrow> u64 list \<Rightarrow> string \<Rightarrow> (u32 \<Rightarrow> u32) \<Rightarrow> u32 \<Rightarrow> string + u32" where
  "linear_out m [] nh w a = Inl nh"
| "linear_out m (n # ns) nh w a =
     (if a = ucast n then act_or defaultLabel (ssrs_action (data_of w) (map_get m n)) else linear_out m ns nh w a)"

definition numbered :: "string \<Rightarrow> nat \<Rightarrow> string set" where
  "numbered P c = {P @ ''#'' @ fmt_d k | k. c \<le> k}"

definition sysno_labels :: "string \<Rightarrow> u64 list \<Rightarrow> string set" where
  "sysno_labels P ns = {l. \<exists>n \<in> set ns. beneath (sysno_prefix P n) l}"

text \<open>A map from system call numbers to the rule sets of these numbers.\<close>

definition map_valid :: "(u64 \<times> singleSyscallRuleSet) list \<Rightarrow> bool" where
  "map_valid m \<longleftrightarrow> list_all (\<lambda>(n, ssrs). sysno ssrs = n \<and> ssrs_valid ssrs \<and> unat n < 2 ^ 32) m"

section \<open>Labels\<close>

lemma family_rule: "family (\<lambda>i. ''rule'' @ fmt_d i)"
  by (auto simp: family_def fmt_d_no_sep intro!: injI)

lemma family_sysno: "family (\<lambda>i. ''sysno'' @ fmt_d i)"
  by (auto simp: family_def fmt_d_no_sep intro!: injI)

lemma rule_labels_beneath: "l \<in> rule_labels P n i \<Longrightarrow> beneath (sysno_prefix P n) l"
  by (auto simp: rule_labels_def beneath_def)

lemma rule_labels_Suc:
  "rule_labels P n (Suc i) \<subseteq> rule_labels P n i"
  "l \<in> rule_labels P n (Suc i) \<Longrightarrow> \<not> beneath (sysno_prefix P n @ ''_'' @ ''rule'' @ fmt_d i) l"
  "beneath (sysno_prefix P n @ ''_'' @ ''rule'' @ fmt_d i) l \<Longrightarrow> l \<in> rule_labels P n i"
proof -
  show "rule_labels P n (Suc i) \<subseteq> rule_labels P n i" unfolding rule_labels_def by (blast dest: Suc_leD)
  show "\<not> beneath (sysno_prefix P n @ ''_'' @ ''rule'' @ fmt_d i) l" if "l \<in> rule_labels P n (Suc i)"
  proof
    assume b: "beneath (sysno_prefix P n @ ''_'' @ ''rule'' @ fmt_d i) l"
    from that obtain j where j: "Suc i \<le> j" "beneath (sysno_prefix P n @ ''_'' @ ''rule'' @ fmt_d j) l"
      unfolding rule_labels_def by blast
    from beneath_disjoint[OF family_rule b j(2)] j(1) show False by simp
  qed
  show "l \<in> rule_labels P n i" if "beneath (sysno_prefix P n @ ''_'' @ ''rule'' @ fmt_d i) l"
    using that unfolding rule_labels_def by blast
qed

lemma sysno_not_counter: "\<not> beneath (sysno_prefix P n) (P @ ''#'' @ x)"
  by (simp only: sysno_prefix_def beneath_not_counter not_False_eq_True)

lemma sysno_disjoint: "beneath (sysno_prefix P n) l \<Longrightarrow> beneath (sysno_prefix P m) l \<Longrightarrow> n = m"
proof -
  assume "beneath (sysno_prefix P n) l" "beneath (sysno_prefix P m) l"
  from beneath_disjoint[OF family_sysno this[unfolded sysno_prefix_def]] show "n = m" by (rule unsigned_word_eqI)
qed

section \<open>One system call\<close>

text \<open>A rule, followed by the return of its action at the label for a match.\<close>

lemma rule_then_return:
  assumes "rule_valid r" and rd: "ready b ls" and MN: "Matched ls \<noteq> Mismatched ls"
  shows "\<exists>p1 p2. rule_Render r ls b = Some p1 \<and> sp_Label (Matched ls) p1 = Some p2 \<and>
    renders b (sp_Ret v p2) (insert (Matched ls) {l. beneath (ls_prefix ls) l}) {Mismatched ls} {v} {}
      (\<lambda>w a. if rule_matches (data_of w) r then Inr v else Inl (Mismatched ls))"
proof -
  let ?B = "{l. beneath (ls_prefix ls) l}"
  have nb: "Matched ls \<notin> ?B" "Mismatched ls \<notin> ?B" and np: "\<not> placed b (Matched ls)" using rd by (auto simp: ready_def)
  from rule_rendersD[OF rule_Render_renders[OF assms(1)] rd] obtain p1 where p1: "rule_Render r ls b = Some p1"
     "renders b p1 ?B {Matched ls, Mismatched ls} {} {}
       (either (Matched ls) (Mismatched ls) (\<lambda>w a. rule_matches (data_of w) r))" by blast
  have np1: "\<not> placed p1 (Matched ls)" using rendersD(5)[OF p1(2)] np nb by blast
  from Label_then[OF rendersD(1)[OF p1(2)] np1] obtain p2 where p2: "sp_Label (Matched ls) p1 = Some p2" "direct p2"
    by blast
  have "renders b (sp_Ret v p2) (insert (Matched ls) (?B \<union> {})) (({Matched ls, Mismatched ls} - {Matched ls}) \<union> {}) ({} \<union> {v}) {}
     (\<lambda>w a. if either (Matched ls) (Mismatched ls) (\<lambda>w a. rule_matches (data_of w) r) w a = Inl (Matched ls) then Inr v
        else either (Matched ls) (Mismatched ls) (\<lambda>w a. rule_matches (data_of w) r) w a)"
    by (rule renders_seq[OF p1(2) np nb(1) p2(1) renders_ret[OF p2(2)]]) auto
  then have "renders b (sp_Ret v p2) (insert (Matched ls) ?B) {Mismatched ls} {v} {}
      (\<lambda>w a. if rule_matches (data_of w) r then Inr v else Inl (Mismatched ls))"
    by (rule renders_weaken) (use MN in auto)
  with p1(1) p2(1) show ?thesis by blast
qed

lemma counted_simps:
  "counted P c c = {}" "P @ ''#'' @ fmt_d k \<in> counted P c c' \<longleftrightarrow> c \<le> k \<and> k < c'"
  "d \<le> c \<Longrightarrow> c' \<le> d' \<Longrightarrow> counted P c c' \<subseteq> counted P d d'"
  "l \<in> counted P c c' \<Longrightarrow> \<not> beneath (sysno_prefix P n) l"
  using sysno_not_counter by (auto simp: counted_def)

lemma render_rules_renders:
  assumes "list_all (\<lambda>ra. rule_valid (sra_rule ra)) ras" "direct b" "\<not> placed b noMatch" "ls_prefix ls \<noteq> []"
    and "\<And>l. l \<in> counted (ls_prefix ls) (labelCounter ls) (labelCounter ls + 2 * length ras) \<union> rule_labels (ls_prefix ls) n i \<Longrightarrow>
      \<not> known b l \<and> l \<noteq> noMatch"
  shows "\<exists>p b'. render_rules n i ras ls b = Some (p, ls\<lparr>labelCounter := labelCounter ls + 2 * length ras\<rparr>) \<and>
    JumpTo noMatch p = Some b' \<and>
    renders b b' (counted (ls_prefix ls) (labelCounter ls) (labelCounter ls + 2 * length ras) \<union> rule_labels (ls_prefix ls) n i)
      {noMatch} (sra_action ` set ras) {} (\<lambda>w a. act_or noMatch (first_action (data_of w) ras))"
  using assms
proof (induction ras arbitrary: i ls b)
  case Nil
  from renders_jump[OF Nil(2,3)] obtain b' where b': "JumpTo noMatch b = Some b'"
    "renders b b' {} {noMatch} {} UNIV (\<lambda>_ _. Inl noMatch)" by blast
  have "renders b b' (counted (ls_prefix ls) (labelCounter ls) (labelCounter ls + 2 * length []) \<union> rule_labels (ls_prefix ls) n i)
      {noMatch} (sra_action ` set []) {} (\<lambda>w a. act_or noMatch (first_action (data_of w) []))"
    by (rule renders_weaken[OF b'(2)]) (auto simp: act_or_def)
  then show ?case using b'(1) by simp
next
  case (Cons ra ras)
  let ?P = "ls_prefix ls" and ?c = "labelCounter ls"
  let ?c' = "?c + 2 * length (ra # ras)"
  let ?B = "{l. beneath (sysno_prefix ?P n @ ''_'' @ ''rule'' @ fmt_d i) l}"
  define nx where "nx = ?P @ ''#'' @ fmt_d ?c"
  define mt where "mt = ?P @ ''#'' @ fmt_d (Suc ?c)"
  define ls2 where "ls2 = ls\<lparr>labelCounter := Suc (Suc ?c)\<rparr>"
  define rl where "rl = Push (''sysno'' @ fmt_d (unat n) @ ''_rule'' @ fmt_d i) mt nx ls2"
  have NL: "NewLabel ls = (nx, ls\<lparr>labelCounter := Suc ?c\<rparr>)" "NewLabel (ls\<lparr>labelCounter := Suc ?c\<rparr>) = (mt, ls2)"
    by (simp_all add: NewLabel_def nx_def mt_def ls2_def)
  have ls2: "ls_prefix ls2 = ?P" "labelCounter ls2 = Suc (Suc ?c)" by (simp_all add: ls2_def)
  have rl: "Matched rl = mt" "Mismatched rl = nx" "ls_prefix rl = sysno_prefix ?P n @ ''_'' @ ''rule'' @ fmt_d i"
    using Cons.prems(4) by (simp_all add: rl_def Push_def ls2_def sysno_prefix_def)
  have C: "nx \<in> counted ?P ?c ?c'" "mt \<in> counted ?P ?c ?c'"
    unfolding nx_def mt_def by (simp_all only: counted_simps) simp_all
  have fr: "\<And>l. l \<in> counted ?P ?c ?c' \<union> rule_labels ?P n i \<Longrightarrow> \<not> known b l \<and> l \<noteq> noMatch"
    using Cons.prems(5) by blast
  have BS: "l \<in> ?B \<Longrightarrow> l \<in> rule_labels ?P n i \<and> l \<notin> counted ?P ?c ?c'" for l
    using rule_labels_Suc(3)[of ?P n i l] rule_labels_beneath[of l ?P n i] counted_simps(4)[of l ?P ?c ?c' n] by auto
  have nm: "nx \<noteq> mt" by (simp add: nx_def mt_def)
  have rdy: "ready b rl" unfolding ready_def rl
    using fr[of nx] fr[of mt] C BS fr Cons.prems(2) placed_known[of b] by (auto simp: sysno_prefix_def)
  have MN: "Matched rl \<noteq> Mismatched rl" using nm rl by simp
  from Cons.prems(1) have v: "rule_valid (sra_rule ra)" "list_all (\<lambda>ra. rule_valid (sra_rule ra)) ras" by simp_all
  let ?v = "sra_action ra"
  from rule_then_return[OF v(1) rdy MN, of ?v] obtain p1 p2 where
    p: "rule_Render (sra_rule ra) rl b = Some p1" "sp_Label mt p1 = Some p2" and
    r2: "renders b (sp_Ret ?v p2) (insert mt ?B) {nx} {?v} {}
       (\<lambda>w a. if rule_matches (data_of w) (sra_rule ra) then Inr ?v else Inl nx)"
    unfolding rl by blast
  note R2 = rendersD[OF r2]
  have a1: "MustHaveJumpedToOrReturned (sp_Record b) [nx] [?v] (sp_Ret ?v p2) = Some (sp_Ret ?v p2)"
    by (rule renders_assertion[OF r2]) simp_all
  have npn: "\<not> placed b nx" "nx \<notin> insert mt ?B" using fr[of nx] C(1) BS placed_known[of b nx] nm by auto
  then have "\<not> placed (sp_Ret ?v p2) nx" using R2(5) by blast
  from Label_then[OF R2(1) this] obtain p3 where p3: "sp_Label nx (sp_Ret ?v p2) = Some p3" "direct p3"
    "\<And>x. placed p3 x \<longleftrightarrow> placed (sp_Ret ?v p2) x \<or> x = nx" "\<And>x. known p3 x \<longleftrightarrow> known (sp_Ret ?v p2) x \<or> x = nx" by blast
  have S': "counted ?P (Suc (Suc ?c)) (Suc (Suc ?c) + 2 * length ras) \<subseteq> counted ?P ?c ?c'"
    by (rule counted_simps) simp_all
  have fr3: "\<not> known p3 l \<and> l \<noteq> noMatch \<and> l \<noteq> nx"
    if l: "l \<in> counted ?P (Suc (Suc ?c)) (Suc (Suc ?c) + 2 * length ras) \<union> rule_labels ?P n (Suc i)" for l
  proof -
    have in1: "l \<in> counted ?P ?c ?c' \<union> rule_labels ?P n i" using l S' rule_labels_Suc(1)[of ?P n i] by blast
    have ne: "l \<noteq> nx \<and> l \<noteq> mt \<and> l \<notin> ?B"
    proof (cases "l \<in> rule_labels ?P n (Suc i)")
      case True
      then show ?thesis using rule_labels_Suc(2)[OF True] rule_labels_beneath[OF True] C counted_simps(4)[of _ ?P ?c ?c' n] by blast
    next
      case False
      then have "l \<in> counted ?P (Suc (Suc ?c)) (Suc (Suc ?c) + 2 * length ras)" using l by blast
      then show ?thesis using BS[of l] S' by (auto simp: counted_def nx_def mt_def)
    qed
    then show ?thesis using fr[OF in1] R2(6) p3(4)[of l] by blast
  qed
  have np3: "\<not> placed p3 noMatch" using R2(5) p3(3) Cons.prems(3) C fr BS by blast
  from Cons.IH[of p3 ls2 "Suc i", unfolded ls2, OF v(2) p3(2) np3 Cons.prems(4)] fr3 obtain p4 b' where
    p4: "render_rules n (Suc i) ras ls2 p3 = Some (p4, ls2\<lparr>labelCounter := Suc (Suc ?c) + 2 * length ras\<rparr>)"
      "JumpTo noMatch p4 = Some b'"
    and r4: "renders p3 b' (counted ?P (Suc (Suc ?c)) (Suc (Suc ?c) + 2 * length ras) \<union> rule_labels ?P n (Suc i))
      {noMatch} (sra_action ` set ras) {} (\<lambda>w a. act_or noMatch (first_action (data_of w) ras))"
    by blast
  from renders_seq[OF r2 npn p3(1) r4, of "{}"]
  have "renders b b' (insert nx (insert mt ?B \<union> (counted ?P (Suc (Suc ?c)) (Suc (Suc ?c) + 2 * length ras) \<union> rule_labels ?P n (Suc i))))
      ({nx} - {nx} \<union> {noMatch}) ({?v} \<union> sra_action ` set ras) {}
      (\<lambda>w a. if (if rule_matches (data_of w) (sra_rule ra) then Inr ?v else Inl nx) = Inl nx
         then act_or noMatch (first_action (data_of w) ras)
         else if rule_matches (data_of w) (sra_rule ra) then Inr ?v else Inl nx)" by auto
  then have "renders b b' (counted ?P ?c ?c' \<union> rule_labels ?P n i)
      {noMatch} (sra_action ` set (ra # ras)) {} (\<lambda>w a. act_or noMatch (first_action (data_of w) (ra # ras)))"
    by (rule renders_weaken) (use C BS S' rule_labels_Suc(1)[of ?P n i] in \<open>auto simp: act_or_def\<close>)
  moreover have "render_rules n i (ra # ras) ls b = Some (p4, ls\<lparr>labelCounter := ?c'\<rparr>)"
    using p p3(1) p4(1) a1 by (simp add: NL ls2_def rl_def)
  ultimately show ?case using p4(2) by blast
qed

lemma high_of_data: "high32Bits (InstructionPointer (data_of w)) = w 12"
  by (simp add: data_of_def)

lemma ssrs_Render_renders:
  assumes v: "ssrs_valid ssrs" and d: "direct b" and np: "\<not> placed b noMatch" and P: "ls_prefix ls \<noteq> []"
    and fr: "\<And>l. l \<in> ssrs_labels (ls_prefix ls) (labelCounter ls) ssrs \<Longrightarrow> \<not> known b l \<and> l \<noteq> noMatch"
  shows "\<exists>b'. ssrs_Render ssrs ls noMatch b = Some (b', ls\<lparr>labelCounter := labelCounter ls + 2 * length (ssrs_rules ssrs)\<rparr>) \<and>
    renders b b' (ssrs_labels (ls_prefix ls) (labelCounter ls) ssrs) {noMatch} (sra_action ` set (ssrs_rules ssrs)) {}
      (\<lambda>w a. act_or noMatch (ssrs_action (data_of w) ssrs))"
proof -
  let ?P = "ls_prefix ls" and ?c = "labelCounter ls"
  let ?c' = "?c + 2 * length (ssrs_rules ssrs)"
  let ?S = "counted ?P ?c ?c' \<union> rule_labels ?P (sysno ssrs) 0"
  have S: "?S \<subseteq> ssrs_labels ?P ?c ssrs" unfolding ssrs_labels_def using rule_labels_beneath by blast
  have rr: "\<exists>p b'. render_rules (sysno ssrs) 0 (ssrs_rules ssrs) ls p0 = Some (p, ls\<lparr>labelCounter := ?c'\<rparr>) \<and>
      JumpTo noMatch p = Some b' \<and> renders p0 b' (ssrs_labels ?P ?c ssrs)
      {noMatch} (sra_action ` set (ssrs_rules ssrs)) {} (\<lambda>w a. act_or noMatch (first_action (data_of w) (ssrs_rules ssrs)))"
    if "direct p0" "\<not> placed p0 noMatch" "\<And>l. known p0 l \<Longrightarrow> known b l \<or> l = noMatch" for p0
  proof -
    have "\<exists>p b'. render_rules (sysno ssrs) 0 (ssrs_rules ssrs) ls p0 = Some (p, ls\<lparr>labelCounter := ?c'\<rparr>) \<and>
      JumpTo noMatch p = Some b' \<and> renders p0 b' ?S
      {noMatch} (sra_action ` set (ssrs_rules ssrs)) {} (\<lambda>w a. act_or noMatch (first_action (data_of w) (ssrs_rules ssrs)))"
      by (rule render_rules_renders[OF v[unfolded ssrs_valid_def] that(1,2) P]) (use fr S that(3) in blast)
    then show ?thesis using renders_weaken[OF _ S order_refl order_refl order_refl refl] by blast
  qed
  have "\<exists>p0 p b'. (if vsyscall ssrs then
               IfNot (bpf_Jmp OR bpf_Jset OR bpf_K) vsyscallPageIPMask noMatch
                 (sp_Stmt (bpf_Ld OR bpf_Abs OR bpf_W) seccompDataOffsetIPHigh b)
             else Some b) = Some p0 \<and>
     render_rules (sysno ssrs) 0 (ssrs_rules ssrs) ls p0 = Some (p, ls\<lparr>labelCounter := ?c'\<rparr>) \<and>
     JumpTo noMatch p = Some b' \<and> renders b b' (ssrs_labels ?P ?c ssrs) {noMatch} (sra_action ` set (ssrs_rules ssrs)) {}
      (\<lambda>w a. act_or noMatch (ssrs_action (data_of w) ssrs))"
  proof (cases "vsyscall ssrs")
    case True
    let ?b = "AddStmt 0x20 seccompDataOffsetIPHigh b"
    have b: "direct ?b" "placed ?b = placed b" "known ?b = known b" using Stmt_spec[OF d] by simp_all
    from IfNot_then[OF b(1), of noMatch "0x45" vsyscallPageIPMask] np b(2) obtain p0 where
      p0: "IfNot 0x45 vsyscallPageIPMask noMatch ?b = Some p0" "direct p0" "placed p0 = placed b"
        "\<forall>x. known p0 x \<longleftrightarrow> known b x \<or> x = noMatch"
      and th: "\<And>b' S L R K out. renders p0 b' S L R K out \<Longrightarrow> noMatch \<notin> S \<Longrightarrow>
       renders ?b b' S (insert noMatch L) R {x. (x = noMatch \<or> x \<in> K) \<and> (x = noMatch \<longrightarrow> x \<in> K \<or> (\<forall>w a. out w a \<noteq> Inl noMatch))}
         (\<lambda>w a. if \<not> jump_holds 0x45 vsyscallPageIPMask a then Inl noMatch else out w a)" unfolding b(2,3) by auto
    from rr[OF p0(2)] np p0(3,4) obtain p b' where
      p: "render_rules (sysno ssrs) 0 (ssrs_rules ssrs) ls p0 = Some (p, ls\<lparr>labelCounter := ?c'\<rparr>)" "JumpTo noMatch p = Some b'"
      and r: "renders p0 b' (ssrs_labels ?P ?c ssrs) {noMatch} (sra_action ` set (ssrs_rules ssrs)) {}
        (\<lambda>w a. act_or noMatch (first_action (data_of w) (ssrs_rules ssrs)))" by auto
    have "noMatch \<notin> ssrs_labels ?P ?c ssrs" using fr by blast
    from renders_load[OF d th[OF r this]]
    have "renders b b' (ssrs_labels ?P ?c ssrs) (insert noMatch {noMatch}) (sra_action ` set (ssrs_rules ssrs)) {}
       (\<lambda>w a. if \<not> jump_holds 0x45 vsyscallPageIPMask (w seccompDataOffsetIPHigh) then Inl noMatch
          else act_or noMatch (first_action (data_of w) (ssrs_rules ssrs)))"
      by (simp add: word_offset_def exI[of _ 3])
    then have "renders b b' (ssrs_labels ?P ?c ssrs) {noMatch} (sra_action ` set (ssrs_rules ssrs)) {}
      (\<lambda>w a. act_or noMatch (ssrs_action (data_of w) ssrs))"
      by (rule renders_weaken) (use True in \<open>auto simp: act_or_def ssrs_action_def high_of_data jump_holds_def\<close>)
    with True p p0(1) show ?thesis by (auto simp: sp_Stmt_def)
  next
    case False
    from rr[OF d np] False show ?thesis by (simp add: ssrs_action_def)
  qed
  then obtain p0 p b' where p: "(if vsyscall ssrs then
               IfNot (bpf_Jmp OR bpf_Jset OR bpf_K) vsyscallPageIPMask noMatch
                 (sp_Stmt (bpf_Ld OR bpf_Abs OR bpf_W) seccompDataOffsetIPHigh b)
             else Some b) = Some p0"
     "render_rules (sysno ssrs) 0 (ssrs_rules ssrs) ls p0 = Some (p, ls\<lparr>labelCounter := ?c'\<rparr>)"
     "JumpTo noMatch p = Some b'" and
    r: "renders b b' (ssrs_labels ?P ?c ssrs) {noMatch} (sra_action ` set (ssrs_rules ssrs)) {}
      (\<lambda>w a. act_or noMatch (ssrs_action (data_of w) ssrs))" by blast
  have "MustHaveJumpedToOrReturned (sp_Record b) [noMatch] (remdups (map sra_action (ssrs_rules ssrs))) b' = Some b'"
    by (rule renders_assertion[OF r]) auto
  with p r show ?thesis unfolding ssrs_Render_def Let_def by (intro exI[of _ b']) simp
qed

lemma renders_keep:
  assumes r: "renders b b' S L R K out" and o: "\<And>w a l. l \<in> K' \<Longrightarrow> l \<notin> K \<Longrightarrow> out w a \<noteq> Inl l"
  shows "renders b b' S L R K' out"
proof -
  have "leads e inp I T pc m K' (out w a)" if "leads e inp I T pc m K (out w a)" for e inp I T pc m w a
    using that o[of _ w a] by (cases "out w a") (auto simp: leads_def)
  then show ?thesis using r unfolding renders_def computes_def by blast
qed

lemma counted_numbered: "counted P c c' \<subseteq> numbered P c"
  by (auto simp: counted_def numbered_def)

lemma numbered_mono: "c \<le> c' \<Longrightarrow> numbered P c' \<subseteq> numbered P c"
  by (auto simp: numbered_def intro: order_trans)

lemma numbered_not_counted: "l \<in> numbered P c \<Longrightarrow> c' \<le> c \<Longrightarrow> l \<notin> counted P d c'"
  by (auto simp: counted_def numbered_def)

lemma numbered_not_sysno: "l \<in> numbered P c \<Longrightarrow> \<not> beneath (sysno_prefix P n) l"
  unfolding numbered_def using sysno_not_counter by blast

lemma map_valid_get:
  assumes "map_valid m" "n \<in> fst ` set m"
  shows "map_of m n = Some (map_get m n)" "sysno (map_get m n) = n" "ssrs_valid (map_get m n)" "unat n < 2 ^ 32"
proof -
  from assms(2) obtain s where s: "map_of m n = Some s" by (cases "map_of m n") (auto simp: map_of_eq_None_iff)
  with map_of_SomeD[OF s] assms(1) show "map_of m n = Some (map_get m n)" "sysno (map_get m n) = n"
    "ssrs_valid (map_get m n)" "unat n < 2 ^ 32"
    by (auto simp: map_get_def map_valid_def list_all_iff)
qed

lemma act_or_eq: "act_or l x = Inl y \<Longrightarrow> y = l"
  by (cases x) (simp_all add: act_or_def)

lemma fold_insert_set: "set (fold List.insert xs ys) = set xs \<union> set ys"
  by (induction xs arbitrary: ys) auto

text \<open>One system call of the linear search: a test of register A, which is kept when the number differs.\<close>

lemma linear_step:
  assumes v: "ssrs_valid ssrs" and d: "direct b" and np: "\<not> placed b nx" "\<not> placed b defaultLabel"
    and ne: "nx \<noteq> defaultLabel" and P: "ls_prefix ls \<noteq> []"
    and fr: "\<And>l. l \<in> ssrs_labels (ls_prefix ls) (labelCounter ls) ssrs \<Longrightarrow> \<not> known b l \<and> l \<noteq> defaultLabel \<and> l \<noteq> nx"
  shows "\<exists>p1 p2. IfNot (bpf_Jmp OR bpf_Jeq OR bpf_K) k nx b = Some p1 \<and>
    ssrs_Render ssrs ls defaultLabel p1 = Some (p2, ls\<lparr>labelCounter := labelCounter ls + 2 * length (ssrs_rules ssrs)\<rparr>) \<and>
    renders b p2 (ssrs_labels (ls_prefix ls) (labelCounter ls) ssrs) {nx, defaultLabel} (sra_action ` set (ssrs_rules ssrs)) {nx}
      (\<lambda>w a. if a = k then act_or defaultLabel (ssrs_action (data_of w) ssrs) else Inl nx)"
proof -
  from IfNot_then[OF d np(1), of "0x15" k] obtain p1 where p1: "IfNot 0x15 k nx b = Some p1" "direct p1" "placed p1 = placed b"
      "\<forall>x. known p1 x \<longleftrightarrow> known b x \<or> x = nx"
    and th: "\<And>b' S L R K out. renders p1 b' S L R K out \<Longrightarrow> nx \<notin> S \<Longrightarrow>
     renders b b' S (insert nx L) R {x. (x = nx \<or> x \<in> K) \<and> (x = nx \<longrightarrow> x \<in> K \<or> (\<forall>w a. out w a \<noteq> Inl nx))}
       (\<lambda>w a. if \<not> jump_holds 0x15 k a then Inl nx else out w a)" by auto
  have np1: "\<not> placed p1 defaultLabel" using np(2) p1(3) by simp
  have fr1: "\<not> known p1 l \<and> l \<noteq> defaultLabel" if "l \<in> ssrs_labels (ls_prefix ls) (labelCounter ls) ssrs" for l
    using fr[OF that] p1(4) by blast
  from ssrs_Render_renders[OF v p1(2) np1 P fr1] obtain p2 where
    p2: "ssrs_Render ssrs ls defaultLabel p1 = Some (p2, ls\<lparr>labelCounter := labelCounter ls + 2 * length (ssrs_rules ssrs)\<rparr>)"
    and r: "renders p1 p2 (ssrs_labels (ls_prefix ls) (labelCounter ls) ssrs) {defaultLabel} (sra_action ` set (ssrs_rules ssrs)) {}
      (\<lambda>w a. act_or defaultLabel (ssrs_action (data_of w) ssrs))" by blast
  have "nx \<notin> ssrs_labels (ls_prefix ls) (labelCounter ls) ssrs" using fr by blast
  from th[OF r this]
  have "renders b p2 (ssrs_labels (ls_prefix ls) (labelCounter ls) ssrs) {nx, defaultLabel} (sra_action ` set (ssrs_rules ssrs)) {nx}
      (\<lambda>w a. if a = k then act_or defaultLabel (ssrs_action (data_of w) ssrs) else Inl nx)"
    by (rule renders_weaken) (use ne act_or_eq in \<open>auto simp: jump_holds_def\<close>)
  with p1(1) p2 show ?thesis by auto
qed

lemma linear_search_renders:
  assumes "map_valid m" "set order \<subseteq> fst ` set m" "distinct order" "direct b" "\<not> placed b nh" "\<not> placed b defaultLabel"
    "ls_prefix ls \<noteq> []" "nh \<noteq> defaultLabel"
    and "\<And>l. l \<in> numbered (ls_prefix ls) (labelCounter ls) \<union> sysno_labels (ls_prefix ls) order \<Longrightarrow>
      \<not> known b l \<and> l \<noteq> nh \<and> l \<noteq> defaultLabel"
  shows "\<exists>p b' c' acts. linear_search m order ls acts0 b = Some (p, ls\<lparr>labelCounter := c'\<rparr>, acts) \<and>
    labelCounter ls \<le> c' \<and> JumpTo nh p = Some b' \<and>
    set acts = set acts0 \<union> (\<Union>n \<in> set order. sra_action ` set (ssrs_rules (map_get m n))) \<and>
    renders b b' (counted (ls_prefix ls) (labelCounter ls) c' \<union> sysno_labels (ls_prefix ls) order) {nh, defaultLabel}
      (\<Union>n \<in> set order. sra_action ` set (ssrs_rules (map_get m n))) {nh} (linear_out m order nh)"
  using assms(2-)
proof (induction order arbitrary: b ls acts0)
  case Nil
  from renders_jump[OF Nil(3,4)] obtain b' where b': "JumpTo nh b = Some b'"
    "renders b b' {} {nh} {} UNIV (\<lambda>_ _. Inl nh)" by blast
  have "renders b b' (counted (ls_prefix ls) (labelCounter ls) (labelCounter ls) \<union> sysno_labels (ls_prefix ls) []) {nh, defaultLabel}
      (\<Union>n \<in> set []. sra_action ` set (ssrs_rules (map_get m n))) {nh} (linear_out m [] nh)"
    by (rule renders_weaken[OF b'(2)]) auto
  moreover have "linear_search m [] ls acts0 b = Some (b, ls\<lparr>labelCounter := labelCounter ls\<rparr>, acts0)" by simp
  moreover have "set acts0 = set acts0 \<union> (\<Union>n \<in> set []. sra_action ` set (ssrs_rules (map_get m n)))" by simp
  ultimately show ?case using b'(1) by blast
next
  case (Cons n ns)
  let ?P = "ls_prefix ls" and ?c = "labelCounter ls"
  define ssrs where "ssrs = map_get m n"
  define acts where "acts = (\<lambda>n. sra_action ` set (ssrs_rules (map_get m n)))"
  define nx where "nx = ?P @ ''#'' @ fmt_d ?c"
  define ls1 where "ls1 = ls\<lparr>labelCounter := Suc ?c\<rparr>"
  define c2 where "c2 = Suc ?c + 2 * length (ssrs_rules ssrs)"
  define ls2 where "ls2 = ls1\<lparr>labelCounter := c2\<rparr>"
  have NL: "NewLabel ls = (nx, ls1)" by (simp add: NewLabel_def nx_def ls1_def)
  have ls12: "ls_prefix ls1 = ?P" "labelCounter ls1 = Suc ?c" "ls_prefix ls2 = ?P" "labelCounter ls2 = c2"
    by (simp_all add: ls1_def ls2_def)
  have nin: "n \<in> fst ` set m" using Cons.prems(1) by simp
  note g = map_valid_get[OF assms(1) nin, folded ssrs_def]
  have fr: "\<And>l. l \<in> numbered ?P ?c \<union> sysno_labels ?P (n # ns) \<Longrightarrow> \<not> known b l \<and> l \<noteq> nh \<and> l \<noteq> defaultLabel"
    using Cons.prems(8) by blast
  have nxN: "nx \<in> numbered ?P ?c" by (auto simp: nx_def numbered_def)
  have nxs: "\<not> placed b nx" "nx \<noteq> defaultLabel" "nx \<noteq> nh" using fr nxN placed_known[of b nx] by blast+
  have sl: "ssrs_labels ?P (Suc ?c) ssrs = counted ?P (Suc ?c) c2 \<union> {l. beneath (sysno_prefix ?P n) l}"
    by (simp add: ssrs_labels_def g(2) c2_def)
  have slN: "l \<in> numbered ?P ?c \<union> sysno_labels ?P (n # ns) \<and> l \<noteq> nx" if "l \<in> ssrs_labels ?P (Suc ?c) ssrs" for l
    using that counted_numbered[of ?P "Suc ?c" c2] numbered_mono[of ?c "Suc ?c" ?P] sysno_not_counter[of ?P n "fmt_d ?c"]
    unfolding sl by (auto simp: sysno_labels_def nx_def counted_def)
  have fr1: "\<And>l. l \<in> ssrs_labels (ls_prefix ls1) (labelCounter ls1) ssrs \<Longrightarrow> \<not> known b l \<and> l \<noteq> defaultLabel \<and> l \<noteq> nx"
    unfolding ls12 using slN fr by blast
  have P1: "ls_prefix ls1 \<noteq> []" using Cons.prems(6) ls12 by simp
  from linear_step[OF g(3) Cons.prems(3) nxs(1) Cons.prems(5) nxs(2) P1 fr1, of "ucast n", unfolded ls12, folded c2_def] obtain p1 p2 where
    p: "IfNot (bpf_Jmp OR bpf_Jeq OR bpf_K) (ucast n) nx b = Some p1" "ssrs_Render ssrs ls1 defaultLabel p1 = Some (p2, ls2)" and
    r1: "renders b p2 (ssrs_labels ?P (Suc ?c) ssrs) {nx, defaultLabel} (acts n) {nx}
      (\<lambda>w a. if a = ucast n then act_or defaultLabel (ssrs_action (data_of w) ssrs) else Inl nx)"
    unfolding ls2_def acts_def ssrs_def by blast
  note R1 = rendersD[OF r1]
  let ?sa = "remdups (map sra_action (ssrs_rules ssrs))"
  have sa: "set ?sa = acts n" by (simp add: acts_def ssrs_def)
  have a1: "MustHaveJumpedToOrReturned (sp_Record b) [nx, defaultLabel] ?sa p2 = Some p2"
    by (rule renders_assertion[OF r1]) (simp_all add: acts_def ssrs_def)
  have nxS: "nx \<notin> ssrs_labels ?P (Suc ?c) ssrs" using slN by blast
  then have "\<not> placed p2 nx" using R1(5) nxs by blast
  from Label_then[OF R1(1) this] obtain p3 where p3: "sp_Label nx p2 = Some p3" "direct p3"
    "\<And>x. placed p3 x \<longleftrightarrow> placed p2 x \<or> x = nx" "\<And>x. known p3 x \<longleftrightarrow> known p2 x \<or> x = nx" by blast
  have np3: "\<not> placed p3 nh" "\<not> placed p3 defaultLabel"
    using p3(3) R1(5) Cons.prems(4,5) nxs slN fr by blast+
  have fr3: "\<not> known p3 l \<and> l \<noteq> nh \<and> l \<noteq> defaultLabel" if l: "l \<in> numbered ?P c2 \<union> sysno_labels ?P ns" for l
  proof -
    have cc: "?c \<le> c2" "Suc ?c \<le> c2" by (simp_all add: c2_def)
    have in1: "l \<in> numbered ?P ?c \<union> sysno_labels ?P (n # ns)"
      using l numbered_mono[OF cc(1)] by (auto simp: sysno_labels_def)
    have "l \<notin> ssrs_labels ?P (Suc ?c) ssrs \<and> l \<noteq> nx"
    proof (cases "l \<in> numbered ?P c2")
      case True
      then show ?thesis using numbered_not_counted[OF True order_refl] numbered_not_sysno[OF True] cc(2)
        unfolding sl by (auto simp: numbered_def nx_def)
    next
      case False
      then obtain k where k: "k \<in> set ns" "beneath (sysno_prefix ?P k) l" using l by (auto simp: sysno_labels_def)
      then have "k \<noteq> n" using Cons.prems(2) by auto
      then have "\<not> beneath (sysno_prefix ?P n) l" using sysno_disjoint[OF k(2)] by blast
      moreover have "l \<notin> counted ?P (Suc ?c) c2" using k(2) counted_simps(4) by blast
      moreover have "l \<noteq> nx" using k(2) sysno_not_counter unfolding nx_def by blast
      ultimately show ?thesis unfolding sl by blast
    qed
    then show ?thesis using fr[OF in1] R1(6) p3(4)[of l] by blast
  qed
  have prem: "set ns \<subseteq> fst ` set m" "distinct ns" using Cons.prems(1,2) by simp_all
  from Cons.IH[of p3 ls2 "fold List.insert ?sa acts0", unfolded ls12, OF prem p3(2) np3 Cons.prems(6,7), folded acts_def] fr3
  obtain p4 b' c' acts' where
    p4: "linear_search m ns ls2 (fold List.insert ?sa acts0) p3 = Some (p4, ls2\<lparr>labelCounter := c'\<rparr>, acts')" "c2 \<le> c'"
      "JumpTo nh p4 = Some b'" "set acts' = set (fold List.insert ?sa acts0) \<union> (\<Union>n \<in> set ns. acts n)"
    and r4: "renders p3 b' (counted ?P c2 c' \<union> sysno_labels ?P ns) {nh, defaultLabel} (\<Union>n \<in> set ns. acts n) {nh} (linear_out m ns nh)"
    by blast
  have r1': "renders b p2 (ssrs_labels ?P (Suc ?c) ssrs) {nx, defaultLabel} (acts n) {nx, nh}
      (\<lambda>w a. if a = ucast n then act_or defaultLabel (ssrs_action (data_of w) ssrs) else Inl nx)"
    by (rule renders_keep[OF r1]) (use Cons.prems(7) nxs(3) act_or_eq in \<open>auto split: if_splits\<close>)
  have dj: "({nx, defaultLabel} - {nx}) \<inter> (counted ?P c2 c' \<union> sysno_labels ?P ns) = {}"
    using fr3 counted_numbered[of ?P c2 c'] by blast
  have "renders b b' (insert nx (ssrs_labels ?P (Suc ?c) ssrs \<union> (counted ?P c2 c' \<union> sysno_labels ?P ns)))
      ({nx, defaultLabel} - {nx} \<union> {nh, defaultLabel}) (acts n \<union> (\<Union>n \<in> set ns. acts n)) {nh}
      (\<lambda>w a. if (if a = ucast n then act_or defaultLabel (ssrs_action (data_of w) ssrs) else Inl nx) = Inl nx
         then linear_out m ns nh w a else if a = ucast n then act_or defaultLabel (ssrs_action (data_of w) ssrs) else Inl nx)"
    by (rule renders_seq[OF r1' nxs(1) nxS p3(1) r4 dj]) auto
  then have "renders b b' (counted ?P ?c c' \<union> sysno_labels ?P (n # ns)) {nh, defaultLabel}
      (\<Union>n \<in> set (n # ns). acts n) {nh} (linear_out m (n # ns) nh)"
  proof (rule renders_weaken)
    have "nx \<in> counted ?P ?c c'" using p4(2) by (auto simp: nx_def counted_def c2_def)
    moreover have "counted ?P (Suc ?c) c2 \<subseteq> counted ?P ?c c'" "counted ?P c2 c' \<subseteq> counted ?P ?c c'"
      by (rule counted_simps(3); use p4(2) in \<open>simp add: c2_def\<close>)+
    ultimately show "insert nx (ssrs_labels ?P (Suc ?c) ssrs \<union> (counted ?P c2 c' \<union> sysno_labels ?P ns))
        \<subseteq> counted ?P ?c c' \<union> sysno_labels ?P (n # ns)"
      unfolding sl by (auto simp: sysno_labels_def)
    show "linear_out m (n # ns) nh w a = (if (if a = ucast n then act_or defaultLabel (ssrs_action (data_of w) ssrs) else Inl nx) = Inl nx
         then linear_out m ns nh w a else if a = ucast n then act_or defaultLabel (ssrs_action (data_of w) ssrs) else Inl nx)" for w a
      using nxs(2) act_or_eq by (auto simp: ssrs_def)
  qed auto
  moreover have "linear_search m (n # ns) ls acts0 b = Some (p4, ls\<lparr>labelCounter := c'\<rparr>, acts')"
    using g(1) p a1 p3(1) p4(1) by (simp add: NL g(2) ls2_def ls1_def)
  moreover have "set acts' = set acts0 \<union> (\<Union>n \<in> set (n # ns). acts n)"
    unfolding p4(4) using sa by (simp add: fold_insert_set ac_simps)
  moreover have "?c \<le> c'" using p4(2) by (simp add: c2_def)
  ultimately show ?case using p4(3) unfolding acts_def by blast
qed

end
