(* ===== verification/Seccomp_Search.thy ===== *)
theory Seccomp_Search
  imports Seccomp_Syscalls
begin

text \<open>
  The binary search of \<^verbatim>\<open>pkg/seccomp/seccomp.go\<close>.  The code of a tree performs \<open>tree_search\<close>,
  which leaves out comparisons that the known range makes unnecessary; \<open>tree_search_correct\<close> says
  that it still finds exactly the values of the tree, for numbers that have not been checked before.
  \<open>createBST_inorder\<close> says that the tree holds the system calls in order, and \<open>renderBST_renders\<close>
  puts the search and the rules of the nodes together.
\<close>

section \<open>Definitions\<close>

fun inorder_values :: "node \<Rightarrow> u64 list" where
  "inorder_values NilNode = []"
| "inorder_values (Node v l r rt) = inorder_values l @ v # inorder_values r"

fun preorder_values :: "node \<Rightarrow> u64 list" where
  "preorder_values NilNode = []"
| "preorder_values (Node v l r rt) = v # preorder_values l @ preorder_values r"

fun inner :: "node \<Rightarrow> bool" where
  "inner NilNode = True"
| "inner (Node v l r rt) \<longleftrightarrow> \<not> rt \<and> inner l \<and> inner r"

text \<open>Whether the code of a node compares register A with the value of the node.\<close>

definition tests_equal :: "node \<Rightarrow> knownRange \<Rightarrow> bool" where
  "tests_equal n rng \<longleftrightarrow>
     (if left n \<noteq> NilNode then int_of_uintptr (node_value n - 1) else lowerBoundExclusive rng) \<noteq> int_of_uintptr (node_value n - 1) \<or>
     (if right n \<noteq> NilNode then int_of_uintptr (node_value n + 1) else upperBoundExclusive rng) \<noteq> int_of_uintptr (node_value n + 1)"

text \<open>The search that the code performs: the node whose rules are checked, if any.\<close>

fun tree_search :: "node \<Rightarrow> knownRange \<Rightarrow> u32 \<Rightarrow> u64 option" where
  "tree_search NilNode rng a = None"
| "tree_search (Node v l r rt) rng a =
     (if l \<noteq> NilNode \<and> a < ucast v then tree_search l (withUpperBoundExclusive (int_of_uintptr v) rng) a
      else if r \<noteq> NilNode \<and> ucast v < a then tree_search r (withLowerBoundExclusive (int_of_uintptr v) rng) a
      else if tests_equal (Node v l r rt) rng \<and> a \<noteq> ucast v then None else Some v)"

definition search_label :: "string \<Rightarrow> u64 option \<Rightarrow> string" where
  "search_label sf x = (case x of None \<Rightarrow> sf | Some v \<Rightarrow> checkArgsLabel v)"

definition node_name :: "u64 \<Rightarrow> string" where
  "node_name v = ''node_'' @ fmt_d (unat v)"

definition node_out :: "node \<Rightarrow> knownRange \<Rightarrow> string \<Rightarrow> u32 \<Rightarrow> string" where
  "node_out n rng sf a =
     (if left n \<noteq> NilNode \<and> a < ucast (node_value n) then node_label (left n)
      else if right n \<noteq> NilNode \<and> ucast (node_value n) < a then node_label (right n)
      else if tests_equal n rng \<and> a \<noteq> ucast (node_value n) then sf else checkArgsLabel (node_value n))"

definition child_labels :: "node \<Rightarrow> string set" where
  "child_labels n = (if left n \<noteq> NilNode then {node_label (left n)} else {}) \<union> (if right n \<noteq> NilNode then {node_label (right n)} else {})"

definition values_labels :: "u64 set \<Rightarrow> string set" where
  "values_labels V = node_name ` V \<union> checkArgsLabel ` V"

definition tree_ok :: "(u64 \<times> singleSyscallRuleSet) list \<Rightarrow> string \<Rightarrow> node \<Rightarrow> bool" where
  "tree_ok m sf t \<longleftrightarrow> (\<forall>rng p b.
     t \<noteq> NilNode \<longrightarrow> (if root t then Some p else sp_Label (node_label t) p) = Some b \<longrightarrow> direct b \<longrightarrow> \<not> placed b sf \<longrightarrow>
     (\<forall>l. l \<in> values_labels (set (inorder_values t)) \<and> l \<noteq> node_label t \<longrightarrow> \<not> placed b l) \<longrightarrow>
     (\<exists>b'. traverse renderBSTTraversal t rng m sf p = Some b' \<and>
        renders b b' (node_name ` (set (inorder_values t) - {node_value t})) ({sf} \<union> checkArgsLabel ` set (inorder_values t)) {} UNIV
          (\<lambda>w a. Inl (search_label sf (tree_search t rng a)))))"

definition node_rules :: "(u64 \<times> singleSyscallRuleSet) list \<Rightarrow> u64 \<Rightarrow> syscallProgram \<Rightarrow> syscallProgram option" where
  "node_rules m v p =
     do {
       p \<leftarrow> sp_Label (checkArgsLabel v) p;
       let ruleSetsFrag = sp_Record p;
       let possibleActions = remdups (map sra_action (ssrs_rules (map_get m v)));
       let nodeLabelSet = \<lparr>ls_prefix = node_name v, labelCounter = 0, Matched = [], Mismatched = []\<rparr>;
       (p, _) \<leftarrow> ssrs_Render (map_get m v) nodeLabelSet defaultLabel p;
       MustHaveJumpedToOrReturned ruleSetsFrag [defaultLabel] possibleActions p
     }"

fun dispatch :: "(u64 \<times> singleSyscallRuleSet) list \<Rightarrow> u64 list \<Rightarrow> (u32 \<Rightarrow> u32) \<Rightarrow> string + u32 \<Rightarrow> string + u32" where
  "dispatch m [] w x = x"
| "dispatch m (v # vs) w x =
     dispatch m vs w (if x = Inl (checkArgsLabel v) then act_or defaultLabel (ssrs_action (data_of w) (map_get m v)) else x)"

definition node_labels :: "u64 set \<Rightarrow> string set" where
  "node_labels V = checkArgsLabel ` V \<union> {l. \<exists>v \<in> V. beneath (node_name v) l}"

definition map_acts :: "(u64 \<times> singleSyscallRuleSet) list \<Rightarrow> u64 set \<Rightarrow> u32 set" where
  "map_acts m V = (\<Union>v \<in> V. sra_action ` set (ssrs_rules (map_get m v)))"

text \<open>Register A is in the known range and is none of the numbers checked before.\<close>

definition in_range :: "knownRange \<Rightarrow> u32 \<Rightarrow> bool" where
  "in_range rng a \<longleftrightarrow> lowerBoundExclusive rng < uint a \<and> uint a < upperBoundExclusive rng \<and>
     (ucast a :: u64) \<notin> set (previouslyChecked rng)"

definition small :: "u64 \<Rightarrow> bool" where
  "small v \<longleftrightarrow> unat v < 2 ^ 32"

definition tree_labels :: "u64 set \<Rightarrow> string set" where
  "tree_labels V = node_name ` V \<union> node_labels V"

definition bst_tree :: "go_env \<Rightarrow> (u64 \<times> singleSyscallRuleSet) list \<Rightarrow> node" where
  "bst_tree env m = (case createBST (sort (sysno_order env (map fst m))) of None \<Rightarrow> NilNode | Some t \<Rightarrow> set_root t)"

definition start_range :: "u64 list \<Rightarrow> knownRange" where
  "start_range chk = \<lparr>lowerBoundExclusive = -1, upperBoundExclusive = 2 ^ 32, previouslyChecked = chk\<rparr>"

definition bst_out ::
  "go_env \<Rightarrow> u64 list \<Rightarrow> (u64 \<times> singleSyscallRuleSet) list \<Rightarrow> string \<Rightarrow> (u32 \<Rightarrow> u32) \<Rightarrow> u32 \<Rightarrow> string + u32" where
  "bst_out env chk m sf w a =
     (case tree_search (bst_tree env m) (start_range chk) a of
        None \<Rightarrow> Inl sf
      | Some v \<Rightarrow> act_or defaultLabel (ssrs_action (data_of w) (map_get m v)))"



section \<open>Labels\<close>

lemma node_name_inj: "node_name v = node_name u \<longleftrightarrow> v = u"
  by (auto simp: node_name_def intro: unsigned_word_eqI)

lemma checkArgs_inj: "checkArgsLabel v = checkArgsLabel u \<longleftrightarrow> v = u"
  by (auto simp: checkArgsLabel_def intro: unsigned_word_eqI)

lemma node_not_checkArgs: "node_name v \<noteq> checkArgsLabel u"
  by (simp add: node_name_def checkArgsLabel_def)

lemma node_label_name: "t \<noteq> NilNode \<Longrightarrow> node_label t = node_name (node_value t)"
  by (cases t) (simp_all add: node_name_def)

lemma inorder_eq_Nil: "inorder_values t = [] \<longleftrightarrow> t = NilNode"
  by (cases t) simp_all

lemma preorder_set: "set (preorder_values t) = set (inorder_values t)"
  by (induction t) auto

lemma preorder_distinct: "distinct (inorder_values t) \<Longrightarrow> distinct (preorder_values t)"
  by (induction t) (auto simp: preorder_set)

lemma node_value_in: "t \<noteq> NilNode \<Longrightarrow> node_value t \<in> set (inorder_values t)"
  by (cases t) auto

section \<open>The code of a node\<close>

text \<open>A test that is present only under a condition.\<close>

lemma IfNot_when:
  assumes d: "direct b" and np: "\<not> placed b l" and c: "cond_op op"
  shows "\<exists>b1. (if cond then IfNot op k l b else Some b) = Some b1 \<and> direct b1 \<and> placed b1 = placed b \<and>
    (\<forall>b' S L R out. renders b1 b' S L R UNIV out \<longrightarrow> l \<notin> S \<longrightarrow>
       renders b b' S (L \<union> (if cond then {l} else {})) R UNIV
         (\<lambda>w a. if cond \<and> \<not> jump_holds op k a then Inl l else out w a))"
proof (cases cond)
  case True
  from IfNot_then[OF d np c, of k] obtain b1 where b1: "IfNot op k l b = Some b1" "direct b1" "placed b1 = placed b"
    "\<And>b' S L R K out. renders b1 b' S L R K out \<Longrightarrow> l \<notin> S \<Longrightarrow>
       renders b b' S (insert l L) R {x. (x = l \<or> x \<in> K) \<and> (x = l \<longrightarrow> x \<in> K \<or> (\<forall>w a. out w a \<noteq> Inl l))}
         (\<lambda>w a. if \<not> jump_holds op k a then Inl l else out w a)" by blast
  have "renders b b' S (insert l L) R UNIV (\<lambda>w a. if \<not> jump_holds op k a then Inl l else out w a)"
    if "renders b1 b' S L R UNIV out" "l \<notin> S" for b' S L R out
    using b1(4)[OF that] by simp
  with b1(1-3) True show ?thesis by auto
next
  case False
  then show ?thesis using d by simp
qed

lemma If_when:
  assumes d: "direct b" and np: "\<not> placed b l" and c: "cond_op op"
  shows "\<exists>b1. (if cond then sp_If op k l b else Some b) = Some b1 \<and> direct b1 \<and> placed b1 = placed b \<and>
    (\<forall>b' S L R out. renders b1 b' S L R UNIV out \<longrightarrow> l \<notin> S \<longrightarrow>
       renders b b' S (L \<union> (if cond then {l} else {})) R UNIV
         (\<lambda>w a. if cond \<and> jump_holds op k a then Inl l else out w a))"
proof (cases cond)
  case True
  from If_then[OF d np c, of k] obtain b1 where b1: "sp_If op k l b = Some b1" "direct b1" "placed b1 = placed b"
    "\<And>b' S L R K out. renders b1 b' S L R K out \<Longrightarrow> l \<notin> S \<Longrightarrow>
       renders b b' S (insert l L) R {x. (x = l \<or> x \<in> K) \<and> (x = l \<longrightarrow> x \<in> K \<or> (\<forall>w a. out w a \<noteq> Inl l))}
         (\<lambda>w a. if jump_holds op k a then Inl l else out w a)" by blast
  have "renders b b' S (insert l L) R UNIV (\<lambda>w a. if jump_holds op k a then Inl l else out w a)"
    if "renders b1 b' S L R UNIV out" "l \<notin> S" for b' S L R out
    using b1(4)[OF that] by simp
  with b1(1-3) True show ?thesis by auto
next
  case False
  then show ?thesis using d by simp
qed

lemma renderBSTTraversal_renders:
  assumes lb: "(if root n then Some p else sp_Label (node_label n) p) = Some b" and d: "direct b"
    and np: "\<not> placed b sf" "\<not> placed b (checkArgsLabel (node_value n))" "\<And>l. l \<in> child_labels n \<Longrightarrow> \<not> placed b l"
  shows "\<exists>b'. renderBSTTraversal n rng m sf p = Some b' \<and>
    renders b b' {} ({sf, checkArgsLabel (node_value n)} \<union> child_labels n) {} UNIV (\<lambda>w a. Inl (node_out n rng sf a))"
proof -
  let ?v = "node_value n" and ?l = "left n" and ?r = "right n"
  let ?L = "?l \<noteq> NilNode" and ?R = "?r \<noteq> NilNode"
  let ?rng1 = "if ?L then rng\<lparr>lowerBoundExclusive := int_of_uintptr (?v - 1)\<rparr> else rng"
  let ?rng2 = "if ?R then ?rng1\<lparr>upperBoundExclusive := int_of_uintptr (?v + 1)\<rparr> else ?rng1"
  let ?ll = "if ?L then node_label ?l else sf" and ?rl = "if ?R then node_label ?r else sf"
  have te: "lowerBoundExclusive ?rng2 \<noteq> int_of_uintptr (?v - 1) \<or> upperBoundExclusive ?rng2 \<noteq> int_of_uintptr (?v + 1)
      \<longleftrightarrow> tests_equal n rng" by (simp add: tests_equal_def)
  have npl: "\<not> placed b ?ll" "\<not> placed b ?rl" using np by (auto simp: child_labels_def)
  from IfNot_when[OF d npl(1), of "0x35" ?L "ucast ?v"] obtain b1 where
    b1: "(if ?L then IfNot 0x35 (ucast ?v) ?ll b else Some b) = Some b1" "direct b1" "placed b1 = placed b" and
    t1: "\<And>b' S L R out. renders b1 b' S L R UNIV out \<Longrightarrow> ?ll \<notin> S \<Longrightarrow>
       renders b b' S (L \<union> (if ?L then {?ll} else {})) R UNIV
         (\<lambda>w a. if ?L \<and> \<not> jump_holds 0x35 (ucast ?v) a then Inl ?ll else out w a)" by auto
  from If_when[OF b1(2), of ?rl "0x25" ?R "ucast ?v"] npl(2) b1(3) obtain b2 where
    b2: "(if ?R then sp_If 0x25 (ucast ?v) ?rl b1 else Some b1) = Some b2" "direct b2" "placed b2 = placed b" and
    t2: "\<And>b' S L R out. renders b2 b' S L R UNIV out \<Longrightarrow> ?rl \<notin> S \<Longrightarrow>
       renders b1 b' S (L \<union> (if ?R then {?rl} else {})) R UNIV
         (\<lambda>w a. if ?R \<and> jump_holds 0x25 (ucast ?v) a then Inl ?rl else out w a)" by auto
  from IfNot_when[OF b2(2), of sf "0x15" "tests_equal n rng" "ucast ?v"] np(1) b2(3) obtain b3 where
    b3: "(if tests_equal n rng then IfNot 0x15 (ucast ?v) sf b2 else Some b2) = Some b3" "direct b3" "placed b3 = placed b" and
    t3: "\<And>b' S L R out. renders b3 b' S L R UNIV out \<Longrightarrow> sf \<notin> S \<Longrightarrow>
       renders b2 b' S (L \<union> (if tests_equal n rng then {sf} else {})) R UNIV
         (\<lambda>w a. if tests_equal n rng \<and> \<not> jump_holds 0x15 (ucast ?v) a then Inl sf else out w a)" by auto
  from renders_jump[OF b3(2), of "checkArgsLabel ?v"] np(2) b3(3) obtain b4 where
    b4: "JumpTo (checkArgsLabel ?v) b3 = Some b4" and
    r4: "renders b3 b4 {} {checkArgsLabel ?v} {} UNIV (\<lambda>_ _. Inl (checkArgsLabel ?v))" by auto
  have r: "renders b b4 {} ({sf, checkArgsLabel ?v} \<union> child_labels n) {} UNIV (\<lambda>w a. Inl (node_out n rng sf a))"
    by (rule renders_weaken[OF t1[OF t2[OF t3[OF r4]]]])
      (auto simp: node_out_def jump_holds_def child_labels_def not_le)
  have a: "MustHaveJumpedTo (sp_Record b) [node_label ?l, node_label ?r, checkArgsLabel ?v, sf] b4 = Some b4"
    by (rule renders_assertion'[OF r]) (auto simp: child_labels_def)
  have s1: "(if ?L then map_option (\<lambda>p. (p, rng\<lparr>lowerBoundExclusive := int_of_uintptr (?v - 1)\<rparr>))
             (IfNot (bpf_Jmp OR bpf_Jge OR bpf_K) (ucast ?v) (node_label ?l) b)
         else Some (b, rng)) = Some (b1, ?rng1)" using b1(1) by (auto split: if_splits)
  have s2: "(if ?R then map_option (\<lambda>p. (p, ?rng1\<lparr>upperBoundExclusive := int_of_uintptr (?v + 1)\<rparr>))
             (sp_If (bpf_Jmp OR bpf_Jgt OR bpf_K) (ucast ?v) (node_label ?r) b1)
         else Some (b1, ?rng1)) = Some (b2, ?rng2)" using b2(1) by (auto split: if_splits)
  have s3: "(if lowerBoundExclusive ?rng2 \<noteq> int_of_uintptr (?v - 1) \<or> upperBoundExclusive ?rng2 \<noteq> int_of_uintptr (?v + 1)
             then IfNot (bpf_Jmp OR bpf_Jeq OR bpf_K) (ucast ?v) sf b2 else Some b2) = Some b3"
    unfolding te using b3(1) by (simp split: if_splits)
  have s0: "(if \<not> root n then sp_Label (node_label n) p else Some p) = Some b" using lb by (simp split: if_splits)
  have "renderBSTTraversal n rng m sf p = Some b4"
    unfolding renderBSTTraversal_def Let_def s0 bind.bind_lunit s1 prod.case s2 s3 b4 a by (rule refl)
  with r show ?thesis by blast
qed

section \<open>The code of a tree\<close>

lemma tree_okD:
  assumes "tree_ok m sf t" "t \<noteq> NilNode" "(if root t then Some p else sp_Label (node_label t) p) = Some b" "direct b"
    "\<not> placed b sf" "\<And>l. l \<in> values_labels (set (inorder_values t)) \<Longrightarrow> l \<noteq> node_label t \<Longrightarrow> \<not> placed b l"
  shows "\<exists>b'. traverse renderBSTTraversal t rng m sf p = Some b' \<and>
    renders b b' (node_name ` (set (inorder_values t) - {node_value t})) ({sf} \<union> checkArgsLabel ` set (inorder_values t)) {} UNIV
      (\<lambda>w a. Inl (search_label sf (tree_search t rng a)))"
  using assms unfolding tree_ok_def by blast

lemma search_in: "tree_search t rng a = Some v \<Longrightarrow> v \<in> set (inorder_values t)"
  by (induction t arbitrary: rng) (auto split: if_splits)

text \<open>The code of a child, after code that jumps to the label of the child.\<close>

lemma attach_child:
  assumes ok: "tree_ok m sf t" and inn: "inner t" and r1: "renders b b1 S L {} UNIV (\<lambda>w a. Inl (f a))"
    and np: "\<not> placed b sf" "sf \<notin> S" and V: "V = set (inorder_values t)"
    and fr: "\<And>l. l \<in> values_labels V \<Longrightarrow> \<not> placed b l \<and> l \<notin> S \<and> l \<noteq> sf"
    and dj: "L \<inter> node_name ` (V - {node_value t}) = {}"
  shows "\<exists>b2. traverse renderBSTTraversal t rng m sf b1 = Some b2 \<and>
    renders b b2 (S \<union> node_name ` V) ((if t \<noteq> NilNode then L - {node_label t} else L) \<union> ({sf} \<union> checkArgsLabel ` V)) {} UNIV
      (\<lambda>w a. Inl (if t \<noteq> NilNode \<and> f a = node_label t then search_label sf (tree_search t rng a) else f a))"
proof (cases "t = NilNode")
  case True
  have "renders b b1 (S \<union> node_name ` V) ((if t \<noteq> NilNode then L - {node_label t} else L) \<union> ({sf} \<union> checkArgsLabel ` V)) {} UNIV
      (\<lambda>w a. Inl (if t \<noteq> NilNode \<and> f a = node_label t then search_label sf (tree_search t rng a) else f a))"
    by (rule renders_weaken[OF r1]) (use True in auto)
  then show ?thesis using True by simp
next
  case False
  note R1 = rendersD[OF r1]
  let ?n = "node_label t"
  have nr: "\<not> root t" using inn False by (cases t) auto
  have n: "?n \<in> values_labels V" using node_label_name[OF False] node_value_in[OF False] by (auto simp: values_labels_def V)
  then have npn: "\<not> placed b ?n" "?n \<notin> S" using fr by blast+
  then have "\<not> placed b1 ?n" using R1(5) by blast
  from Label_then[OF R1(1) this] obtain p2 where p2: "sp_Label ?n b1 = Some p2" "direct p2"
    "\<And>x. placed p2 x \<longleftrightarrow> placed b1 x \<or> x = ?n" by blast
  have "\<not> placed p2 sf" using p2(3) R1(5) np fr n by blast
  moreover have "\<not> placed p2 l" if "l \<in> values_labels V \<and> l \<noteq> ?n" for l using that p2(3) R1(5) fr by blast
  moreover have "(if root t then Some b1 else sp_Label ?n b1) = Some p2" using nr p2(1) by simp
  ultimately obtain b2 where b2: "traverse renderBSTTraversal t rng m sf b1 = Some b2" and
    r2: "renders p2 b2 (node_name ` (V - {node_value t})) ({sf} \<union> checkArgsLabel ` V) {} UNIV
          (\<lambda>w a. Inl (search_label sf (tree_search t rng a)))"
    using ok[unfolded tree_ok_def, folded V] False p2(2) by blast
  have "(L - {?n}) \<inter> node_name ` (V - {node_value t}) = {}" using dj by blast
  from renders_seq[OF r1 npn p2(1) r2 this, of UNIV]
  have "renders b b2 (insert ?n (S \<union> node_name ` (V - {node_value t}))) (L - {?n} \<union> ({sf} \<union> checkArgsLabel ` V)) ({} \<union> {}) UNIV
    (\<lambda>w a. if (Inl (f a) :: string + u32) = Inl ?n then Inl (search_label sf (tree_search t rng a)) else Inl (f a))" by simp
  then have "renders b b2 (S \<union> node_name ` V) ((if t \<noteq> NilNode then L - {?n} else L) \<union> ({sf} \<union> checkArgsLabel ` V)) {} UNIV
      (\<lambda>w a. Inl (if t \<noteq> NilNode \<and> f a = ?n then search_label sf (tree_search t rng a) else f a))"
    by (rule renders_weaken) (use False node_label_name[OF False] node_value_in[OF False] V in auto)
  with b2 show ?thesis by blast
qed

lemma tree_ok_all:
  assumes "sf \<notin> values_labels (set (inorder_values t))" "distinct (inorder_values t)" "inner (left t)" "inner (right t)"
  shows "tree_ok m sf t"
  using assms
proof (induction t)
  case NilNode
  then show ?case by (simp add: tree_ok_def)
next
  case (Node v l r rt)
  let ?t = "Node v l r rt" and ?Vl = "set (inorder_values l)" and ?Vr = "set (inorder_values r)"
  have inn: "inner l" "inner r" using Node.prems(3,4) by simp_all
  have okl: "tree_ok m sf l"
  proof (cases "l = NilNode")
    case False
    then have "inner (left l)" "inner (right l)" using inn(1) by (cases l; simp)+
    then show ?thesis using Node.IH(1) Node.prems(1,2) by (auto simp: values_labels_def)
  qed (simp add: tree_ok_def)
  have okr: "tree_ok m sf r"
  proof (cases "r = NilNode")
    case False
    then have "inner (left r)" "inner (right r)" using inn(2) by (cases r; simp)+
    then show ?thesis using Node.IH(2) Node.prems(1,2) by (auto simp: values_labels_def)
  qed (simp add: tree_ok_def)
  have dv: "v \<notin> ?Vl" "v \<notin> ?Vr" "?Vl \<inter> ?Vr = {}" using Node.prems(2) by auto
  have V: "set (inorder_values ?t) = insert v (?Vl \<union> ?Vr)" by simp
  have sfn: "sf \<notin> values_labels (insert v (?Vl \<union> ?Vr))" using Node.prems(1) by simp
  show ?case unfolding tree_ok_def
  proof (intro allI impI)
    fix rng p b
    assume lb: "(if root ?t then Some p else sp_Label (node_label ?t) p) = Some b" and d: "direct b" and np: "\<not> placed b sf"
      and fr: "\<forall>l. l \<in> values_labels (set (inorder_values ?t)) \<and> l \<noteq> node_label ?t \<longrightarrow> \<not> placed b l"
    have nl: "node_label ?t = node_name v" by (simp add: node_name_def)
    have fr': "\<not> placed b x" if "x \<in> values_labels (?Vl \<union> ?Vr) \<or> x = checkArgsLabel v" for x
      using fr that dv(1,2) unfolding V nl
      by (auto simp: values_labels_def node_name_inj checkArgs_inj node_not_checkArgs node_not_checkArgs[symmetric])
    have cl: "child_labels ?t \<subseteq> node_name ` (?Vl \<union> ?Vr)"
      using node_label_name[of l] node_label_name[of r] node_value_in[of l] node_value_in[of r] by (auto simp: child_labels_def)
    have "\<not> placed b x" if "x \<in> child_labels ?t" for x using that cl fr' by (auto simp: values_labels_def)
    from renderBSTTraversal_renders[OF lb d np _ this, of rng m] fr' obtain b1 where
      b1: "renderBSTTraversal ?t rng m sf p = Some b1" and
      r1: "renders b b1 {} ({sf, checkArgsLabel v} \<union> child_labels ?t) {} UNIV (\<lambda>w a. Inl (node_out ?t rng sf a))"
      by auto
    let ?L1 = "{sf, checkArgsLabel v} \<union> child_labels ?t"
    let ?rl = "withUpperBoundExclusive (int_of_uintptr v) rng" and ?rr = "withLowerBoundExclusive (int_of_uintptr v) rng"
    have frl: "\<not> placed b x \<and> x \<notin> {} \<and> x \<noteq> sf" if "x \<in> values_labels ?Vl" for x
      using that fr'[of x] sfn by (auto simp: values_labels_def)
    have chl: "x \<in> child_labels ?t \<Longrightarrow> x = node_label l \<and> l \<noteq> NilNode \<or> x = node_label r \<and> r \<noteq> NilNode" for x
      by (auto simp: child_labels_def split: if_splits)
    have chn: "u = node_value l \<and> u \<in> ?Vl \<or> u = node_value r \<and> u \<in> ?Vr" if "node_name u \<in> child_labels ?t" for u
      using chl[OF that] node_label_name[of l] node_label_name[of r] node_value_in[of l] node_value_in[of r]
      by (auto simp: node_name_inj)
    have djl: "?L1 \<inter> node_name ` (?Vl - {node_value l}) = {}"
      using dv(3) sfn by (auto simp: values_labels_def node_not_checkArgs node_not_checkArgs[symmetric] dest: chn)
    from attach_child[OF okl inn(1) r1 np _ refl frl djl, of ?rl] obtain b2 where
      b2: "traverse renderBSTTraversal l ?rl m sf b1 = Some b2" and
      r2: "renders b b2 ({} \<union> node_name ` ?Vl) ((if l \<noteq> NilNode then ?L1 - {node_label l} else ?L1) \<union> ({sf} \<union> checkArgsLabel ` ?Vl)) {} UNIV
        (\<lambda>w a. Inl (if l \<noteq> NilNode \<and> node_out ?t rng sf a = node_label l then search_label sf (tree_search l ?rl a) else node_out ?t rng sf a))"
      by blast
    let ?L2 = "(if l \<noteq> NilNode then ?L1 - {node_label l} else ?L1) \<union> ({sf} \<union> checkArgsLabel ` ?Vl)"
    have frr: "\<not> placed b x \<and> x \<notin> {} \<union> node_name ` ?Vl \<and> x \<noteq> sf" if "x \<in> values_labels ?Vr" for x
      using that fr'[of x] sfn dv(3) by (auto simp: values_labels_def node_name_inj node_not_checkArgs[symmetric])
    have sfl: "sf \<notin> {} \<union> node_name ` ?Vl" using sfn by (auto simp: values_labels_def)
    have djr: "?L2 \<inter> node_name ` (?Vr - {node_value r}) = {}"
    proof -
      have A: "(?L1 \<union> checkArgsLabel ` ?Vl) \<inter> node_name ` (?Vr - {node_value r}) = {}"
        using dv(3) sfn by (auto simp: values_labels_def node_not_checkArgs node_not_checkArgs[symmetric] dest: chn)
      have B: "?L2 \<subseteq> ?L1 \<union> checkArgsLabel ` ?Vl" by auto
      show ?thesis by (rule subset_empty[THEN iffD1]) (rule order_trans[OF Int_mono[OF B order_refl] eq_refl[OF A]])
    qed
    from attach_child[OF okr inn(2) r2 np sfl refl frr djr, of ?rr] obtain b3 where
      b3: "traverse renderBSTTraversal r ?rr m sf b2 = Some b3" and
      r3: "renders b b3 ({} \<union> node_name ` ?Vl \<union> node_name ` ?Vr) ((if r \<noteq> NilNode then ?L2 - {node_label r} else ?L2) \<union> ({sf} \<union> checkArgsLabel ` ?Vr)) {} UNIV
        (\<lambda>w a. Inl (if r \<noteq> NilNode \<and> (if l \<noteq> NilNode \<and> node_out ?t rng sf a = node_label l then search_label sf (tree_search l ?rl a) else node_out ?t rng sf a) = node_label r
          then search_label sf (tree_search r ?rr a)
          else (if l \<noteq> NilNode \<and> node_out ?t rng sf a = node_label l then search_label sf (tree_search l ?rl a) else node_out ?t rng sf a)))"
      by blast
    have lr: "l \<noteq> NilNode \<Longrightarrow> r \<noteq> NilNode \<Longrightarrow> node_label l \<noteq> node_label r"
      using node_label_name[of l] node_label_name[of r] node_value_in[of l] node_value_in[of r] dv(3) by (auto simp: node_name_inj)
    have sl: "r \<noteq> NilNode \<Longrightarrow> search_label sf x \<noteq> node_label r" "l \<noteq> NilNode \<Longrightarrow> search_label sf x \<noteq> node_label l" for x
      using node_label_name[of r] node_value_in[of r] node_label_name[of l] node_value_in[of l] sfn node_not_checkArgs
      by (auto simp: search_label_def values_labels_def node_not_checkArgs[symmetric] split: option.splits)
    have "renders b b3 (node_name ` (set (inorder_values ?t) - {node_value ?t})) ({sf} \<union> checkArgsLabel ` set (inorder_values ?t)) {} UNIV
          (\<lambda>w a. Inl (search_label sf (tree_search ?t rng a)))"
    proof (rule renders_weaken[OF r3])
      show "(if r \<noteq> NilNode then ?L2 - {node_label r} else ?L2) \<union> ({sf} \<union> checkArgsLabel ` ?Vr)
          \<subseteq> {sf} \<union> checkArgsLabel ` set (inorder_values ?t)"
        using chl by (auto split: if_splits)
      show "Inl (search_label sf (tree_search ?t rng a)) = Inl (if r \<noteq> NilNode \<and> (if l \<noteq> NilNode \<and> node_out ?t rng sf a = node_label l then search_label sf (tree_search l ?rl a) else node_out ?t rng sf a) = node_label r
          then search_label sf (tree_search r ?rr a)
          else (if l \<noteq> NilNode \<and> node_out ?t rng sf a = node_label l then search_label sf (tree_search l ?rl a) else node_out ?t rng sf a))" for a
      proof -
        consider (l) "l \<noteq> NilNode" "a < ucast v" | (r) "\<not> (l \<noteq> NilNode \<and> a < ucast v)" "r \<noteq> NilNode" "ucast v < a"
          | (here) "\<not> (l \<noteq> NilNode \<and> a < ucast v)" "\<not> (r \<noteq> NilNode \<and> ucast v < a)" by blast
        then show ?thesis
        proof cases
          case l
          then have "node_out ?t rng sf a = node_label l" by (simp add: node_out_def)
          with l sl(1)[of "tree_search l ?rl a"] show ?thesis by auto
        next
          case r
          then have "node_out ?t rng sf a = node_label r" by (auto simp: node_out_def)
          with r lr show ?thesis by auto
        next
          case here
          define x where "x = (if tests_equal ?t rng \<and> a \<noteq> ucast v then None else Some v)"
          have "node_out ?t rng sf a = search_label sf x" using here by (auto simp: node_out_def search_label_def x_def)
          moreover have "tree_search ?t rng a = x" using here by (auto simp: x_def)
          ultimately show ?thesis using sl[of x] by auto
        qed
      qed
    qed (use dv in auto)
    moreover have "traverse renderBSTTraversal ?t rng m sf p = Some b3" using b1 b2 b3 by simp
    ultimately show "\<exists>b'. traverse renderBSTTraversal ?t rng m sf p = Some b' \<and>
        renders b b' (node_name ` (set (inorder_values ?t) - {node_value ?t})) ({sf} \<union> checkArgsLabel ` set (inorder_values ?t)) {} UNIV
          (\<lambda>w a. Inl (search_label sf (tree_search ?t rng a)))" by blast
  qed
qed

section \<open>The rules of the nodes\<close>

lemma default_ne: "defaultLabel \<noteq> checkArgsLabel v" "defaultLabel \<noteq> node_name v" "\<not> beneath (node_name v) defaultLabel"
  "\<not> beneath (node_name v) (checkArgsLabel u)"
  by (simp_all add: checkArgsLabel_def node_name_def beneath_def)

lemma traverse_rules: "traverse renderBSTRules t kr m sf p = foldm (node_rules m) (preorder_values t) p"
proof (induction t arbitrary: kr p)
  case (Node v l r rt)
  have "renderBSTRules (Node v l r rt) kr m sf p = node_rules m v p" for p
    by (simp add: renderBSTRules_def node_rules_def node_name_def Let_def)
  moreover have "foldm (node_rules m) (preorder_values l @ preorder_values r) =
      (\<lambda>p. Option.bind (foldm (node_rules m) (preorder_values l) p) (foldm (node_rules m) (preorder_values r)))"
    by (rule HOL.ext) (rule foldm_append)
  moreover have "traverse renderBSTRules r kr m sf = foldm (node_rules m) (preorder_values r)" for kr
    by (rule HOL.ext) (rule Node)
  ultimately show ?case by (simp add: Node(1))
qed simp

lemma node_beneath_disjoint: "beneath (node_name v) l \<Longrightarrow> beneath (node_name u) l \<Longrightarrow> v = u"
proof -
  assume "beneath (node_name v) l" "beneath (node_name u) l"
  then have b: "beneath (''node'' @ ''_'' @ fmt_d (unat v)) l" "beneath (''node'' @ ''_'' @ fmt_d (unat u)) l"
    by (simp_all add: node_name_def)
  have f: "family fmt_d" by (auto simp: family_def fmt_d_no_sep intro!: injI)
  show "v = u" using beneath_disjoint[OF f b] by (rule unsigned_word_eqI)
qed

lemma ssrs_labels_beneath: "ssrs_labels P c ssrs \<subseteq> {l. beneath P l}"
  by (auto simp: ssrs_labels_def counted_def beneath_def sysno_prefix_def)

lemma dispatch_other: "(\<And>v. v \<in> set vs \<Longrightarrow> x \<noteq> Inl (checkArgsLabel v)) \<Longrightarrow> dispatch m vs w x = x"
  by (induction vs) auto

lemma dispatch_found:
  "v \<in> set vs \<Longrightarrow> dispatch m vs w (Inl (checkArgsLabel v)) = act_or defaultLabel (ssrs_action (data_of w) (map_get m v))"
proof (induction vs)
  case (Cons u vs)
  have "dispatch m vs w (act_or defaultLabel x) = act_or defaultLabel x" for x
    using default_ne(1) by (intro dispatch_other) (cases x; simp add: act_or_def)
  with Cons show ?case by (auto simp: checkArgs_inj)
qed simp

lemma dispatch_renders:
  assumes "map_valid m" "distinct vs" "set vs \<subseteq> fst ` set m" "renders b p S L R (- {defaultLabel}) out"
    and "\<not> placed b defaultLabel" "defaultLabel \<notin> S"
    and "\<And>v. v \<in> set vs \<Longrightarrow> \<not> placed b (checkArgsLabel v) \<and> checkArgsLabel v \<notin> S"
    and "\<And>l v. v \<in> set vs \<Longrightarrow> beneath (node_name v) l \<Longrightarrow> \<not> known p l \<and> l \<notin> L"
  shows "\<exists>p'. foldm (node_rules m) vs p = Some p' \<and>
    renders b p' (S \<union> node_labels (set vs)) ((L - checkArgsLabel ` set vs) \<union> {defaultLabel}) (R \<union> map_acts m (set vs))
      (- {defaultLabel}) (\<lambda>w a. dispatch m vs w (out w a))"
  using assms(2-)
proof (induction vs arbitrary: p S L R out)
  case Nil
  have "renders b p (S \<union> node_labels (set [])) (L - checkArgsLabel ` set [] \<union> {defaultLabel}) (R \<union> map_acts m (set []))
      (- {defaultLabel}) (\<lambda>w a. dispatch m [] w (out w a))"
    by (rule renders_weaken[OF Nil(3)]) auto
  then show ?case by simp
next
  case (Cons v vs)
  note R1 = rendersD[OF Cons.prems(3)]
  define ssrs where "ssrs = map_get m v"
  let ?n = "checkArgsLabel v" and ?B = "{l. beneath (node_name v) l}"
  have "v \<in> fst ` set m" using Cons.prems(2) by simp
  note g = map_valid_get[OF assms(1) this, folded ssrs_def]
  have npn: "\<not> placed b ?n" "?n \<notin> S" using Cons.prems(6)[of v] by auto
  then have "\<not> placed p ?n" using R1(5) by blast
  from Label_then[OF R1(1) this] obtain p1 where p1: "sp_Label ?n p = Some p1" "direct p1"
    "\<And>x. placed p1 x \<longleftrightarrow> placed p x \<or> x = ?n" "\<And>x. known p1 x \<longleftrightarrow> known p x \<or> x = ?n" by blast
  let ?ls = "\<lparr>ls_prefix = node_name v, labelCounter = 0, Matched = [], Mismatched = []\<rparr> :: labelSet"
  have P: "ls_prefix ?ls \<noteq> []" by (simp add: node_name_def)
  have npd: "\<not> placed p1 defaultLabel" using p1(3) R1(5) Cons.prems(4,5) default_ne(1) by blast
  have fr: "\<not> known p1 l \<and> l \<noteq> defaultLabel" if "l \<in> ssrs_labels (ls_prefix ?ls) (labelCounter ?ls) ssrs" for l
  proof -
    have "beneath (node_name v) l" using that ssrs_labels_beneath by auto
    then show ?thesis using p1(4)[of l] Cons.prems(7)[of v l] default_ne(3,4) by auto
  qed
  from ssrs_Render_renders[OF g(3) p1(2) npd P fr] obtain p2 ls' where
    p2: "ssrs_Render ssrs ?ls defaultLabel p1 = Some (p2, ls')" and
    r2: "renders p1 p2 (ssrs_labels (node_name v) 0 ssrs) {defaultLabel} (map_acts m {v}) {}
      (\<lambda>w a. act_or defaultLabel (ssrs_action (data_of w) ssrs))" by (auto simp: map_acts_def ssrs_def)
  have a2: "MustHaveJumpedToOrReturned (sp_Record p1) [defaultLabel] (remdups (map sra_action (ssrs_rules ssrs))) p2 = Some p2"
    by (rule renders_assertion[OF r2]) (auto simp: map_acts_def ssrs_def)
  have nr: "node_rules m v p = Some p2"
    using p1(1) p2 a2 by (simp add: node_rules_def Let_def ssrs_def)
  have r2': "renders p1 p2 ?B {defaultLabel} (map_acts m {v}) (- {defaultLabel}) (\<lambda>w a. act_or defaultLabel (ssrs_action (data_of w) ssrs))"
  proof (rule renders_keep)
    show "renders p1 p2 ?B {defaultLabel} (map_acts m {v}) {} (\<lambda>w a. act_or defaultLabel (ssrs_action (data_of w) ssrs))"
      by (rule renders_weaken[OF r2 ssrs_labels_beneath]) auto
  qed (use act_or_eq in auto)
  have dj: "(L - {?n}) \<inter> ?B = {}" using Cons.prems(7)[of v] by auto
  let ?out1 = "\<lambda>w a. if out w a = Inl ?n then act_or defaultLabel (ssrs_action (data_of w) ssrs) else out w a"
  have r3: "renders b p2 (insert ?n (S \<union> ?B)) (L - {?n} \<union> {defaultLabel}) (R \<union> map_acts m {v}) (- {defaultLabel}) ?out1"
    by (rule renders_seq[OF Cons.prems(3) npn p1(1) r2' dj]) (use default_ne(1)[of v] in auto)
  have vs: "distinct vs" "set vs \<subseteq> fst ` set m" "v \<notin> set vs" using Cons.prems(1,2) by auto
  have dS: "defaultLabel \<notin> insert ?n (S \<union> ?B)" using Cons.prems(5) default_ne[of v] by simp
  have c1: "\<not> placed b (checkArgsLabel u) \<and> checkArgsLabel u \<notin> insert ?n (S \<union> ?B)" if "u \<in> set vs" for u
    using Cons.prems(6)[of u] that vs(3) default_ne(4) by (auto simp: checkArgs_inj)
  have c2: "\<not> known p2 l \<and> l \<notin> L - {?n} \<union> {defaultLabel}" if "u \<in> set vs" "beneath (node_name u) l" for l u
  proof -
    have "l \<notin> ?B" using node_beneath_disjoint[OF that(2), of v] that(1) vs(3) by auto
    moreover have "l \<noteq> ?n" "l \<noteq> defaultLabel" using that(2) default_ne by auto
    ultimately show ?thesis using Cons.prems(7)[of u l] that rendersD(6)[OF r2'] p1(4) by auto
  qed
  have "\<exists>p'. foldm (node_rules m) vs p2 = Some p' \<and>
    renders b p' (insert ?n (S \<union> ?B) \<union> node_labels (set vs)) (L - {?n} \<union> {defaultLabel} - checkArgsLabel ` set vs \<union> {defaultLabel})
      (R \<union> map_acts m {v} \<union> map_acts m (set vs)) (- {defaultLabel}) (\<lambda>w a. dispatch m vs w (?out1 w a))"
    by (rule Cons.IH[OF vs(1,2) r3 Cons.prems(4) dS]) (use c1 c2 in blast)+
  then obtain p' where p': "foldm (node_rules m) vs p2 = Some p'" and
    r: "renders b p' (insert ?n (S \<union> ?B) \<union> node_labels (set vs)) (L - {?n} \<union> {defaultLabel} - checkArgsLabel ` set vs \<union> {defaultLabel})
      (R \<union> map_acts m {v} \<union> map_acts m (set vs)) (- {defaultLabel}) (\<lambda>w a. dispatch m vs w (?out1 w a))" by blast
  have "renders b p' (S \<union> node_labels (set (v # vs))) (L - checkArgsLabel ` set (v # vs) \<union> {defaultLabel}) (R \<union> map_acts m (set (v # vs)))
      (- {defaultLabel}) (\<lambda>w a. dispatch m (v # vs) w (out w a))"
    by (rule renders_weaken[OF r]) (auto simp: node_labels_def map_acts_def ssrs_def)
  with nr p' show ?case by simp
qed

section \<open>The search finds the system call\<close>

lemma raise_lower_range: "in_range rng a \<Longrightarrow> in_range (raise_lower rng) a"
proof (induction rng rule: raise_lower.induct)
  case (1 nkr)
  show ?case
  proof (cases "lowerBoundExclusive nkr < upperBoundExclusive nkr \<and>
      word_of_int (lowerBoundExclusive nkr + 1) \<in> set (previouslyChecked nkr)")
    case True
    have "lowerBoundExclusive nkr + 1 \<noteq> uint a"
    proof
      assume "lowerBoundExclusive nkr + 1 = uint a"
      then have "word_of_int (lowerBoundExclusive nkr + 1) = (ucast a :: u64)" by (simp add: word_of_int_uint)
      with True "1.prems" show False by (simp add: in_range_def)
    qed
    with "1.prems" have "in_range (nkr\<lparr>lowerBoundExclusive := lowerBoundExclusive nkr + 1\<rparr>) a" by (simp add: in_range_def)
    with "1.IH"[OF True] True show ?thesis by (subst raise_lower.simps) simp
  next
    case False
    with "1.prems" show ?thesis by (subst raise_lower.simps) auto
  qed
qed

lemma reduce_upper_range: "in_range rng a \<Longrightarrow> in_range (reduce_upper rng) a"
proof (induction rng rule: reduce_upper.induct)
  case (1 nkr)
  show ?case
  proof (cases "lowerBoundExclusive nkr < upperBoundExclusive nkr \<and>
      word_of_int (upperBoundExclusive nkr - 1) \<in> set (previouslyChecked nkr)")
    case True
    have "upperBoundExclusive nkr - 1 \<noteq> uint a"
    proof
      assume "upperBoundExclusive nkr - 1 = uint a"
      then have "word_of_int (upperBoundExclusive nkr - 1) = (ucast a :: u64)" by (simp add: word_of_int_uint)
      with True "1.prems" show False by (simp add: in_range_def)
    qed
    with "1.prems" have "in_range (nkr\<lparr>upperBoundExclusive := upperBoundExclusive nkr - 1\<rparr>) a" by (simp add: in_range_def)
    with "1.IH"[OF True] True show ?thesis by (subst reduce_upper.simps) simp
  next
    case False
    with "1.prems" show ?thesis by (subst reduce_upper.simps) auto
  qed
qed

lemma unat_ucast_small: "small v \<Longrightarrow> unat (ucast v :: u32) = unat v"
  by (simp add: small_def unsigned_ucast_eq take_bit_nat_eq_self_iff)

lemma unat_ucast_up: "unat (ucast (a :: u32) :: u64) = unat a"
proof -
  have "unat a < 2 ^ 64" by (rule order_less_le_trans[OF unsigned_less]) simp
  then show ?thesis by (simp add: unsigned_ucast_eq take_bit_nat_eq_self_iff)
qed

lemma ucast_eq_small: "small v \<Longrightarrow> a = ucast v \<longleftrightarrow> ucast (a :: u32) = v"
  using unat_ucast_small[of v] unat_ucast_up[of a] by (metis unsigned_word_eqI)

lemma ucast_less_small: "small v \<Longrightarrow> a < ucast v \<longleftrightarrow> ucast (a :: u32) < v"
  "small v \<Longrightarrow> ucast v < a \<longleftrightarrow> v < ucast (a :: u32)"
  by (simp_all only: word_less_nat_alt unat_ucast_small unat_ucast_up)

lemma sint_small:
  assumes "small v"
  shows "int_of_uintptr v = uint v" "int_of_uintptr (v - 1) = uint v - 1" "int_of_uintptr (v + 1) = uint v + 1"
proof -
  have "int (unat v) < int (2 ^ 32)" using assms unfolding small_def by (rule of_nat_less_iff[THEN iffD2])
  then have u: "uint v < 4294967296" by (simp only: uint_nat of_nat_power of_nat_numeral) simp
  have st: "signed_take_bit 63 k = k" if "- 2 \<le> k" "k < 4294967298" for k :: int
    by (rule signed_take_bit_int_eq_self) (use that in simp_all)
  have "signed_take_bit 63 (uint v) = uint v" by (rule st) (use u uint_ge_0[of v] in linarith)+
  then have s: "sint v = uint v" by (simp add: sint_uint)
  show "int_of_uintptr v = uint v" by (simp add: int_of_uintptr_def s)
  have one: "sint (1 :: u64) = 1" by simp
  have "signed_take_bit 63 (uint v - 1) = uint v - 1" "signed_take_bit 63 (uint v + 1) = uint v + 1"
    by (rule st; use u uint_ge_0[of v] in linarith)+
  then have "sint (v - 1) = uint v - 1" "sint (v + 1) = uint v + 1"
    unfolding sint_word_ariths s one by simp_all
  then show "int_of_uintptr (v - 1) = uint v - 1" "int_of_uintptr (v + 1) = uint v + 1"
    unfolding int_of_uintptr_def by simp_all
qed

lemma tree_search_correct:
  assumes "sorted_wrt (<) (inorder_values t)" "list_all small (inorder_values t)" "in_range rng a"
  shows "tree_search t rng a = (if ucast a \<in> set (inorder_values t) then Some (ucast a) else None)"
  using assms
proof (induction t arbitrary: rng)
  case (Node v l r rt)
  let ?t = "Node v l r rt" and ?a = "ucast a :: u64"
  have sv: "small v" using Node.prems(2) by simp
  have so: "\<forall>u \<in> set (inorder_values l). u < v" "\<forall>u \<in> set (inorder_values r). v < u"
    using Node.prems(1) by (auto simp: sorted_wrt_append)
  have up: "uint ?a = uint a" by (simp only: uint_nat unat_ucast_up)
  note c = ucast_less_small[OF sv, of a] ucast_eq_small[OF sv, of a]
  have cu: "a < ucast v \<longleftrightarrow> uint a < uint v" "ucast v < a \<longleftrightarrow> uint v < uint a"
    using c(1,2)[unfolded word_less_def[of "ucast a :: u64"] word_less_def[of _ "ucast a :: u64"] up] .
  consider (less) "l \<noteq> NilNode" "a < ucast v" | (greater) "\<not> (l \<noteq> NilNode \<and> a < ucast v)" "r \<noteq> NilNode" "ucast v < a"
    | (here) "\<not> (l \<noteq> NilNode \<and> a < ucast v)" "\<not> (r \<noteq> NilNode \<and> ucast v < a)" by blast
  then show ?case
  proof cases
    case less
    have "in_range (withUpperBoundExclusive (int_of_uintptr v) rng) a"
      unfolding withUpperBoundExclusive_def
      by (rule reduce_upper_range) (use Node.prems(3) less(2)[unfolded cu] in \<open>simp add: in_range_def sint_small[OF sv]\<close>)
    then have "tree_search ?t rng a = (if ?a \<in> set (inorder_values l) then Some ?a else None)"
      using Node.IH(1) Node.prems(1,2) less by (simp add: sorted_wrt_append)
    moreover have "?a \<notin> set (inorder_values r)" "?a \<noteq> v" using so(2) less(2) c(1) by (auto dest: less_trans)
    ultimately show ?thesis by simp
  next
    case greater
    have "in_range (withLowerBoundExclusive (int_of_uintptr v) rng) a"
      unfolding withLowerBoundExclusive_def
      by (rule raise_lower_range) (use Node.prems(3) greater(3)[unfolded cu] in \<open>simp add: in_range_def sint_small[OF sv]\<close>)
    moreover have "tree_search ?t rng a = tree_search r (withLowerBoundExclusive (int_of_uintptr v) rng) a"
      using greater by auto
    ultimately have "tree_search ?t rng a = (if ?a \<in> set (inorder_values r) then Some ?a else None)"
      using Node.IH(2) Node.prems(1,2) by (simp add: sorted_wrt_append)
    moreover have "?a \<notin> set (inorder_values l)" "?a \<noteq> v" using so(1) greater(3) c(2) by (auto dest: less_trans)
    ultimately show ?thesis by simp
  next
    case here
    have nl: "?a \<notin> set (inorder_values l)" "?a \<notin> set (inorder_values r)"
      using here so c by auto
    have eq: "a = ucast v" if "\<not> tests_equal ?t rng"
    proof -
      have lo: "uint v - 1 < uint a"
      proof (cases "l = NilNode")
        case True
        with that Node.prems(3) show ?thesis by (auto simp: tests_equal_def in_range_def sint_small[OF sv])
      next
        case False
        with here(1)[unfolded cu] show ?thesis by simp
      qed
      have "uint a < uint v + 1"
      proof (cases "r = NilNode")
        case True
        with that Node.prems(3) show ?thesis by (auto simp: tests_equal_def in_range_def sint_small[OF sv])
      next
        case False
        with here(2)[unfolded cu] show ?thesis by simp
      qed
      with lo have "uint ?a = uint v" unfolding up by linarith
      then have "?a = v" by (rule unsigned_word_eqI)
      then show ?thesis unfolding c(3) .
    qed
    have "tree_search ?t rng a = (if tests_equal ?t rng \<and> a \<noteq> ucast v then None else Some v)" using here by auto
    then show ?thesis using eq nl c(3) by auto
  qed
qed simp

section \<open>Building the tree\<close>

lemma createBST_inorder:
  "xs \<noteq> [] \<Longrightarrow> \<exists>v l r. createBST xs = Some (Node v l r False) \<and> inorder_values (Node v l r False) = xs \<and> inner l \<and> inner r"
proof (induction xs rule: createBST.induct)
  case (1 xs)
  let ?i = "length xs div 2"
  have i: "?i < length xs" using "1.prems" by (simp add: length_greater_0_conv[symmetric] del: length_greater_0_conv)
  have L: "\<exists>l. (if ?i > 0 then createBST (take ?i xs) else Some NilNode) = Some l \<and> inorder_values l = take ?i xs \<and> inner l"
  proof (cases "?i > 0")
    case True
    then have "take ?i xs \<noteq> []" using "1.prems" by simp
    with "1.IH"(1)[OF "1.prems" refl True] True show ?thesis by fastforce
  next
    case False
    then show ?thesis by simp
  qed
  have R: "\<exists>r. (if ?i + 1 < length xs then createBST (drop (?i + 1) xs) else Some NilNode) = Some r \<and>
      inorder_values r = drop (?i + 1) xs \<and> inner r"
  proof (cases "?i + 1 < length xs")
    case True
    then have "drop (?i + 1) xs \<noteq> []" by simp
    with "1.IH"(2)[OF "1.prems" refl _ True] True L show ?thesis by fastforce
  next
    case False
    then show ?thesis by simp
  qed
  from L R obtain l r where lr: "(if ?i > 0 then createBST (take ?i xs) else Some NilNode) = Some l" "inorder_values l = take ?i xs" "inner l"
    "(if ?i + 1 < length xs then createBST (drop (?i + 1) xs) else Some NilNode) = Some r" "inorder_values r = drop (?i + 1) xs" "inner r"
    by blast
  have "createBST xs = Some (Node (xs ! ?i) l r False)"
    by (subst createBST.simps) (simp only: Let_def "1.prems" if_False lr bind.bind_lunit)
  moreover have "inorder_values (Node (xs ! ?i) l r False) = xs"
    using id_take_nth_drop[OF i] lr(2,5) by simp
  ultimately show ?case using lr(3,6) by blast
qed

section \<open>Binary search\<close>

text \<open>The tree over a map: its values are the keys, in order.\<close>

lemma bst_tree_values:
  assumes "map_valid m" "m \<noteq> []" "distinct (map fst m)" "map_order (sysno_order env)"
  shows "\<exists>v l r. createBST (sort (sysno_order env (map fst m))) = Some (Node v l r False) \<and>
    bst_tree env m = Node v l r True \<and> inner l \<and> inner r \<and>
    set (inorder_values (Node v l r True)) = fst ` set m \<and> distinct (inorder_values (Node v l r True)) \<and>
    sorted_wrt (<) (inorder_values (Node v l r True)) \<and> list_all small (inorder_values (Node v l r True))"
proof -
  let ?xs = "sort (sysno_order env (map fst m))"
  have o: "distinct (sysno_order env (map fst m))" "set (sysno_order env (map fst m)) = fst ` set m"
    using assms(3,4) by (auto simp: map_order_def)
  have xs0: "distinct ?xs" "set ?xs = fst ` set m" using o by simp_all
  have "?xs \<noteq> []" using xs0(2) assms(2) by (metis image_is_empty set_empty)
  with xs0 have xs: "distinct ?xs" "set ?xs = fst ` set m" "?xs \<noteq> []" by blast+
  have st: "sorted_wrt (<) ?xs" using xs(1) by (simp add: strict_sorted_iff)
  have sm: "list_all small ?xs"
    using assms(1) o(2) by (auto simp: list_all_iff map_valid_def small_def)
  from createBST_inorder[OF xs(3)] obtain v l r where
    t: "createBST ?xs = Some (Node v l r False)" "inorder_values (Node v l r False) = ?xs" "inner l" "inner r" by blast
  then have "inorder_values (Node v l r True) = ?xs" "bst_tree env m = Node v l r True" by (simp_all add: bst_tree_def)
  with t xs st sm show ?thesis by metis
qed

lemma bst_out_spec:
  assumes "map_valid m" "m \<noteq> []" "distinct (map fst m)" "map_order (sysno_order env)" "ucast a \<notin> set chk"
  shows "bst_out env chk m sf w a = (if ucast a \<in> fst ` set m
    then act_or defaultLabel (ssrs_action (data_of w) (map_get m (ucast a))) else Inl sf)"
proof -
  from bst_tree_values[OF assms(1-4)] obtain v l r where t: "bst_tree env m = Node v l r True"
    "set (inorder_values (Node v l r True)) = fst ` set m"
    "sorted_wrt (<) (inorder_values (Node v l r True))" "list_all small (inorder_values (Node v l r True))" by blast
  have "uint a < 2 ^ LENGTH(32)" by (rule uint_lt2p)
  then have "in_range (start_range chk) a" using assms(5) uint_ge_0[of a]
    unfolding in_range_def start_range_def by (simp add: order_less_le_trans[of "-1" 0])
  from tree_search_correct[OF t(3,4) this] show ?thesis
    unfolding bst_out_def t(1,2) by simp
qed

lemma not_beneath_node: "\<not> beneath (node_name v) (node_name u)"
proof
  assume "beneath (node_name v) (node_name u)"
  then have "fmt_d (unat u) = fmt_d (unat v) @ ''#'' @ s \<or> fmt_d (unat u) = fmt_d (unat v) @ ''_'' @ s \<Longrightarrow> False" for s
    using fmt_d_no_sep[of "unat u"] by (metis Un_iff list.set_intros(1) set_append append_Cons)
  with \<open>beneath (node_name v) (node_name u)\<close> show False by (auto simp: beneath_def node_name_def)
qed

lemma map_actions_set:
  assumes "distinct (map fst m)"
  shows "set (map_actions m) = map_acts m (fst ` set m)"
proof -
  have "map_get m (fst x) = snd x" if "x \<in> set m" for x
    using map_of_is_SomeI[OF assms, of "fst x" "snd x"] that by (simp add: map_get_def)
  then have "map_acts m (fst ` set m) = (\<Union>x \<in> set m. sra_action ` set (ssrs_rules (snd x)))"
    unfolding map_acts_def by auto
  then show ?thesis by (auto simp: map_actions_def)
qed

lemma renderBST_renders:
  assumes mv: "map_valid m" "m \<noteq> []" "distinct (map fst m)" and ord: "map_order (sysno_order env)"
    and d: "direct b" and np: "\<not> placed b sf" "\<not> placed b defaultLabel" "sf \<noteq> defaultLabel"
    and fr: "\<And>l. l \<in> tree_labels (fst ` set m) \<Longrightarrow> \<not> known b l \<and> l \<noteq> sf"
  shows "\<exists>b' chk'. renderBST env chk m sf b = Some (b', map_actions m, chk') \<and> set chk' = set chk \<union> fst ` set m \<and>
    renders b b' (tree_labels (fst ` set m)) {sf, defaultLabel} (map_acts m (fst ` set m)) (- {defaultLabel}) (bst_out env chk m sf)"
proof -
  let ?V = "fst ` set m"
  from bst_tree_values[OF mv ord] obtain v l r where
    c: "createBST (sort (sysno_order env (map fst m))) = Some (Node v l r False)" and
    t: "bst_tree env m = Node v l r True" "inner l" "inner r" "set (inorder_values (Node v l r True)) = ?V"
      "distinct (inorder_values (Node v l r True))" by blast
  let ?t = "Node v l r True" and ?kr = "start_range chk"
  have vl: "values_labels ?V \<subseteq> tree_labels ?V" by (auto simp: values_labels_def tree_labels_def node_labels_def)
  have bl: "l \<in> tree_labels ?V" if "v \<in> ?V" "beneath (node_name v) l" for v l
    using that by (auto simp: tree_labels_def node_labels_def)
  have ok: "tree_ok m sf ?t" by (rule tree_ok_all) (use fr vl t in auto)
  have npv: "\<not> placed b x" if "x \<in> values_labels (set (inorder_values ?t))" for x
    using fr vl that placed_known[of b x] unfolding t(4) by blast
  have "\<exists>p1. traverse renderBSTTraversal ?t ?kr m sf b = Some p1 \<and>
    renders b p1 (node_name ` (set (inorder_values ?t) - {node_value ?t})) ({sf} \<union> checkArgsLabel ` set (inorder_values ?t)) {} UNIV
      (\<lambda>w a. Inl (search_label sf (tree_search ?t ?kr a)))"
    by (rule tree_okD[OF ok _ _ d np(1)]) (simp_all only: node.simps node.sel if_True npv not_False_eq_True simp_thms)
  then obtain p1 where p1: "traverse renderBSTTraversal ?t ?kr m sf b = Some p1" and
    r1: "renders b p1 (node_name ` (?V - {v})) ({sf} \<union> checkArgsLabel ` ?V) {} UNIV
          (\<lambda>w a. Inl (search_label sf (tree_search ?t ?kr a)))"
    unfolding t(4) node.sel by blast
  have r1': "renders b p1 (node_name ` (?V - {v})) ({sf} \<union> checkArgsLabel ` ?V) {} (- {defaultLabel})
          (\<lambda>w a. Inl (search_label sf (tree_search ?t ?kr a)))"
    by (rule renders_weaken[OF r1]) auto
  let ?vs = "preorder_values ?t"
  have vs: "distinct ?vs" "set ?vs = ?V" using preorder_distinct[OF t(5)] preorder_set[of ?t] t(4) by simp_all
  have c1: "\<not> placed b (checkArgsLabel u) \<and> checkArgsLabel u \<notin> node_name ` (?V - {v})" if "u \<in> set ?vs" for u
  proof -
    have "u \<in> ?V" using that unfolding vs(2) .
    then have "checkArgsLabel u \<in> tree_labels ?V" using vl by (auto simp: values_labels_def)
    then show ?thesis using fr placed_known[of b] node_not_checkArgs by (metis imageE)
  qed
  have c2: "\<not> known p1 l \<and> l \<notin> {sf} \<union> checkArgsLabel ` ?V" if "u \<in> set ?vs" "beneath (node_name u) l" for l u
  proof -
    have "l \<noteq> sf" "\<not> known b l" using bl[of u l] fr that vs(2) by auto
    moreover have "l \<notin> checkArgsLabel ` ?V" "l \<notin> node_name ` ?V" using that(2) default_ne(4) not_beneath_node by auto
    ultimately show ?thesis using rendersD(6)[OF r1] by blast
  qed
  have vsm: "set ?vs \<subseteq> fst ` set m" using vs(2) by simp
  have dn: "defaultLabel \<notin> node_name ` (?V - {v})" using default_ne(2) by blast
  have "\<exists>p'. foldm (node_rules m) ?vs p1 = Some p' \<and>
    renders b p' (node_name ` (?V - {v}) \<union> node_labels (set ?vs)) (({sf} \<union> checkArgsLabel ` ?V - checkArgsLabel ` set ?vs) \<union> {defaultLabel})
      ({} \<union> map_acts m (set ?vs)) (- {defaultLabel}) (\<lambda>w a. dispatch m ?vs w (Inl (search_label sf (tree_search ?t ?kr a))))"
  proof (rule dispatch_renders[OF mv(1) vs(1) vsm r1' np(2) dn])
    show "\<not> placed b (checkArgsLabel u) \<and> checkArgsLabel u \<notin> node_name ` (?V - {v})" if "u \<in> set ?vs" for u
      using that by (rule c1)
    show "\<not> known p1 l \<and> l \<notin> {sf} \<union> checkArgsLabel ` ?V" if "u \<in> set ?vs" "beneath (node_name u) l" for l u
      using that by (rule c2)
  qed
  then obtain p2 where p2: "foldm (node_rules m) ?vs p1 = Some p2" and
    r2: "renders b p2 (node_name ` (?V - {v}) \<union> node_labels ?V) (({sf} \<union> checkArgsLabel ` ?V - checkArgsLabel ` ?V) \<union> {defaultLabel})
      ({} \<union> map_acts m ?V) (- {defaultLabel}) (\<lambda>w a. dispatch m ?vs w (Inl (search_label sf (tree_search ?t ?kr a))))"
    unfolding vs(2) by blast
  have sfc: "sf \<noteq> checkArgsLabel u" if "u \<in> ?V" for u
  proof -
    have "checkArgsLabel u \<in> tree_labels ?V" using vl that by (auto simp: values_labels_def)
    then show ?thesis using fr by blast
  qed
  have r: "renders b p2 (tree_labels ?V) {sf, defaultLabel} (map_acts m ?V) (- {defaultLabel}) (bst_out env chk m sf)"
  proof (rule renders_weaken[OF r2])
    show "bst_out env chk m sf w a = dispatch m ?vs w (Inl (search_label sf (tree_search ?t ?kr a)))" for w a
    proof (cases "tree_search ?t ?kr a")
      case None
      have "dispatch m ?vs w (Inl sf) = Inl sf"
      proof (rule dispatch_other)
        fix u assume "u \<in> set ?vs"
        then show "Inl sf \<noteq> Inl (checkArgsLabel u)" using sfc unfolding vs(2) by simp
      qed
      then show ?thesis unfolding bst_out_def t(1) None search_label_def option.case by (rule sym)
    next
      case (Some u)
      with search_in[OF Some] have "u \<in> set ?vs" by (simp only: t(4) vs(2))
      then show ?thesis unfolding bst_out_def t(1) Some search_label_def option.case
        by (rule dispatch_found[symmetric])
    qed
  qed (auto simp: tree_labels_def)
  have a: "MustHaveJumpedToOrReturned (sp_Record b) [sf, defaultLabel] (map_actions m) p2 = Some p2"
    by (rule renders_assertion[OF r]) (simp_all add: map_actions_set[OF mv(3)])
  have "set (sysno_order env (map fst m)) = ?V" using ord mv(3) by (auto simp: map_order_def)
  then have s: "set (fold List.insert (sysno_order env (map fst m)) chk) = set chk \<union> ?V" by (auto simp: fold_insert_set)
  have "renderBST env chk m sf b = Some (p2, map_actions m, fold List.insert (sysno_order env (map fst m)) chk)"
    unfolding renderBST_def Let_def c bind.bind_lunit set_root.simps start_range_def[symmetric] p1 traverse_rules p2 a ..
  with s r show ?thesis by blast
qed

end
