(* ===== verification/Seccomp_Assembly.thy ===== *)
theory Seccomp_Assembly
  imports Seccomp_Search Bpf_Opt_Correct
begin

text \<open>
  The whole filter program.  The searches for hot, cold and trivial system calls follow each other
  (\<open>stage\<close>), \<open>ors_render_renders\<close> says that together they return the action of the rules for the
  system call (\<open>ors_action\<close>), and \<open>build_program_renders\<close> adds the check of the architecture and the
  default action.  \<open>finish_build_ok\<close> says that resolving the labels succeeds unless the program is
  longer than \<open>2 ^ 32\<close> instructions, that the optimiser returns, and that the final program returns
  the action on every input that holds the system call data.
\<close>

section \<open>Definitions\<close>

text \<open>What \<open>orderRuleSets\<close> returns: three maps with disjoint keys, the first one with an order.\<close>

definition keys :: "(u64 \<times> singleSyscallRuleSet) list \<Rightarrow> u64 set" where
  "keys m = fst ` set m"

definition ors_maps :: "orderedRuleSets \<Rightarrow> (u64 \<times> singleSyscallRuleSet) list" where
  "ors_maps ors = hotNonTrivial ors @ coldNonTrivial ors @ trivial ors"

definition ors_valid :: "orderedRuleSets \<Rightarrow> bool" where
  "ors_valid ors \<longleftrightarrow> map_valid (ors_maps ors) \<and> distinct (map fst (ors_maps ors)) \<and>
     distinct (hotNonTrivialOrder ors) \<and> set (hotNonTrivialOrder ors) = keys (hotNonTrivial ors)"

text \<open>The action for system call data: the rules of its number, if there are any.\<close>

definition ors_action :: "orderedRuleSets \<Rightarrow> SeccompData \<Rightarrow> BPFAction option" where
  "ors_action ors d = Option.bind (map_of (ors_maps ors) (ucast (Nr d))) (ssrs_action d)"

text \<open>A search over a map, and what happens when it does not find the number.\<close>

definition or_else :: "string \<Rightarrow> string + u32 \<Rightarrow> string + u32 \<Rightarrow> string + u32" where
  "or_else n x y = (if x = Inl n then y else x)"

definition ors_label :: "nat \<Rightarrow> string" where
  "ors_label c = ''ors'' @ ''#'' @ fmt_d c"

definition hot_labels :: "orderedRuleSets \<Rightarrow> string set" where
  "hot_labels ors = sysno_labels ''ors'' (hotNonTrivialOrder ors)"

text \<open>
  What a stage of \<open>ors_render\<close> guarantees.  Code that follows it is reached when the stage does not
  find the number of the system call.
\<close>

definition stage ::
  "syscallProgram \<Rightarrow> syscallProgram \<Rightarrow> string set \<Rightarrow> u32 set \<Rightarrow> (((u32 \<Rightarrow> u32) \<Rightarrow> u32 \<Rightarrow> string + u32) \<Rightarrow> (u32 \<Rightarrow> u32) \<Rightarrow> u32 \<Rightarrow> string + u32) \<Rightarrow> bool" where
  "stage b b2 S R f \<longleftrightarrow> direct b2 \<and> (\<forall>l. placed b2 l \<longrightarrow> placed b l \<or> l \<in> S) \<and>
     (\<forall>l. known b2 l \<longrightarrow> known b l \<or> l \<in> S \<or> l = defaultLabel) \<and>
     (\<forall>b3 S2 R2 out2. renders b2 b3 S2 {defaultLabel} R2 {} out2 \<longrightarrow> defaultLabel \<notin> S2 \<longrightarrow>
        renders b b3 (S \<union> S2) {defaultLabel} (R \<union> R2) {} (f out2))"

text \<open>The stage of a binary search tree.\<close>

definition tree_stage ::
  "go_env \<Rightarrow> (u64 \<times> singleSyscallRuleSet) list \<Rightarrow> u64 list \<Rightarrow> string \<Rightarrow> ((u32 \<Rightarrow> u32) \<Rightarrow> u32 \<Rightarrow> string + u32) \<Rightarrow> (u32 \<Rightarrow> u32) \<Rightarrow> u32 \<Rightarrow> string + u32" where
  "tree_stage env m chk n k w a = (if m = [] then k w a else or_else n (bst_out env chk m n w a) (k w a))"

text \<open>The searches one after the other.\<close>

definition ors_out :: "go_env \<Rightarrow> orderedRuleSets \<Rightarrow> nat list \<Rightarrow> u64 list \<Rightarrow> u64 list \<Rightarrow> (u32 \<Rightarrow> u32) \<Rightarrow> u32 \<Rightarrow> string + u32" where
  "ors_out env ors cs chk1 chk2 w a =
     or_else (ors_label (cs ! 0)) (linear_out (hotNonTrivial ors) (hotNonTrivialOrder ors) (ors_label (cs ! 0)) w a)
       (tree_stage env (coldNonTrivial ors) chk1 (ors_label (cs ! 1))
         (tree_stage env (trivial ors) chk2 (ors_label (cs ! 2)) (\<lambda>w a. Inl defaultLabel)) w a)"

definition ors_labels :: "orderedRuleSets \<Rightarrow> string set" where
  "ors_labels ors = numbered ''ors'' 0 \<union> hot_labels ors \<union> tree_labels (keys (coldNonTrivial ors)) \<union> tree_labels (keys (trivial ors))"

definition ors_acts :: "orderedRuleSets \<Rightarrow> u32 set" where
  "ors_acts ors = (\<Union>x \<in> set (ors_maps ors). sra_action ` set (ssrs_rules (snd x)))"

definition program_action :: "orderedRuleSets \<Rightarrow> BPFAction \<Rightarrow> BPFAction \<Rightarrow> SeccompData \<Rightarrow> BPFAction" where
  "program_action ors defaultAction badArchAction d =
     (if Arch d \<noteq> LINUX_AUDIT_ARCH then badArchAction
      else case ors_action ors d of None \<Rightarrow> defaultAction | Some v \<Rightarrow> v)"

section \<open>Labels\<close>

lemma ors_not_tree: "l \<in> tree_labels V \<Longrightarrow> l \<notin> numbered ''ors'' c" "l \<in> tree_labels V \<Longrightarrow> l \<notin> sysno_labels ''ors'' ns"
  by (auto simp: tree_labels_def node_labels_def numbered_def sysno_labels_def node_name_def checkArgsLabel_def beneath_def sysno_prefix_def)

lemma default_not_ors: "defaultLabel \<notin> numbered ''ors'' c" "defaultLabel \<notin> sysno_labels ''ors'' ns" "defaultLabel \<notin> tree_labels V"
  by (auto simp: tree_labels_def node_labels_def numbered_def sysno_labels_def node_name_def checkArgsLabel_def beneath_def sysno_prefix_def)

lemma tree_labels_disjoint: "l \<in> tree_labels V \<Longrightarrow> l \<in> tree_labels U \<Longrightarrow> V \<inter> U \<noteq> {}"
proof -
  assume a: "l \<in> tree_labels V" "l \<in> tree_labels U"
  have "\<exists>u \<in> V. l = node_name u \<or> l = checkArgsLabel u \<or> beneath (node_name u) l"
    "\<exists>u \<in> U. l = node_name u \<or> l = checkArgsLabel u \<or> beneath (node_name u) l"
    using a by (auto simp: tree_labels_def node_labels_def)
  then obtain u v where u: "u \<in> U" "l = node_name u \<or> l = checkArgsLabel u \<or> beneath (node_name u) l"
    and v: "v \<in> V" "l = node_name v \<or> l = checkArgsLabel v \<or> beneath (node_name v) l" by blast
  have "u = v" using u(2) v(2) node_beneath_disjoint[of u l v] not_beneath_node default_ne(4)
    by (auto simp: node_name_inj checkArgs_inj node_not_checkArgs node_not_checkArgs[symmetric])
  with u v show "V \<inter> U \<noteq> {}" by blast
qed

section \<open>The stages of the search\<close>

lemma stageD:
  assumes "stage b b2 S R f"
  shows "direct b2" "placed b2 l \<Longrightarrow> placed b l \<or> l \<in> S" "known b2 l \<Longrightarrow> known b l \<or> l \<in> S \<or> l = defaultLabel"
    "renders b2 b3 S2 {defaultLabel} R2 {} out2 \<Longrightarrow> defaultLabel \<notin> S2 \<Longrightarrow>
       renders b b3 (S \<union> S2) {defaultLabel} (R \<union> R2) {} (f out2)"
  using assms unfolding stage_def by blast+

lemma stage_none: "direct b \<Longrightarrow> stage b b S R (\<lambda>k. k)"
  unfolding stage_def by (auto intro: renders_weaken)

lemma stage_search:
  assumes r: "renders b p S {n, defaultLabel} R {n} out" and np: "\<not> placed b n" "n \<notin> S" and L: "sp_Label n p = Some p2"
  shows "stage b p2 (insert n S) R (\<lambda>k w a. or_else n (out w a) (k w a))"
proof -
  note R1 = rendersD[OF r]
  have "\<not> placed p n" using R1(5) np by blast
  from Label_then[OF R1(1) this] L have p2: "direct p2" "\<forall>x. placed p2 x \<longleftrightarrow> placed p x \<or> x = n"
    "\<forall>x. known p2 x \<longleftrightarrow> known p x \<or> x = n" by auto
  have "renders b b3 (insert n S \<union> S2) {defaultLabel} (R \<union> R2) {} (\<lambda>w a. or_else n (out w a) (out2 w a))"
    if r2: "renders p2 b3 S2 {defaultLabel} R2 {} out2" and dS: "defaultLabel \<notin> S2" for b3 S2 R2 out2
  proof -
    have "({n, defaultLabel} - {n}) \<inter> S2 = {}" using dS by blast
    from renders_seq[OF r np L r2 this, of "{}"] have
      "renders b b3 (insert n (S \<union> S2)) ({n, defaultLabel} - {n} \<union> {defaultLabel}) (R \<union> R2) {}
        (\<lambda>w a. if out w a = Inl n then out2 w a else out w a)" by simp
    then show ?thesis by (rule renders_weaken) (auto simp: or_else_def)
  qed
  then show ?thesis unfolding stage_def using p2 R1(5,6) by blast
qed

lemma stage_trans:
  assumes "stage b b2 S R f" "stage b2 b3 S' R' g" "defaultLabel \<notin> S'"
  shows "stage b b3 (S \<union> S') (R \<union> R') (\<lambda>k. f (g k))"
  unfolding stage_def
proof (intro conjI allI impI)
  fix b4 S2 R2 out2 assume r: "renders b3 b4 S2 {defaultLabel} R2 {} out2" "defaultLabel \<notin> S2"
  then have "renders b2 b4 (S' \<union> S2) {defaultLabel} (R' \<union> R2) {} (g out2)" using assms(2) by (auto simp: stage_def)
  then have "renders b b4 (S \<union> (S' \<union> S2)) {defaultLabel} (R \<union> (R' \<union> R2)) {} (f (g out2))"
    using assms(1,3) r(2) by (auto simp: stage_def)
  then show "renders b b4 (S \<union> S' \<union> S2) {defaultLabel} (R \<union> R' \<union> R2) {} (f (g out2))" by (simp add: ac_simps)
qed (use assms(1,2) in \<open>unfold stage_def, blast\<close>)+

lemma render_tree_stage:
  assumes mv: "map_valid m" "distinct (map fst m)" and ord: "map_order (sysno_order env)" and d: "direct b"
    and np: "\<not> placed b defaultLabel" and P: "ls_prefix ls = ''ors''"
    and fr: "\<And>l. l \<in> tree_labels (keys m) \<union> numbered ''ors'' (labelCounter ls) \<Longrightarrow> \<not> known b l"
  shows "\<exists>b2 c' chk'. render_tree env m ls chk b = Some (b2, ls\<lparr>labelCounter := c'\<rparr>, chk') \<and> labelCounter ls \<le> c' \<and>
    set chk' = set chk \<union> keys m \<and>
    stage b b2 (tree_labels (keys m) \<union> counted ''ors'' (labelCounter ls) c') (map_acts m (keys m))
      (tree_stage env m chk (ors_label (labelCounter ls)))"
proof (cases "m = []")
  case True
  have "stage b b (tree_labels (keys m) \<union> counted ''ors'' (labelCounter ls) (labelCounter ls)) (map_acts m (keys m))
      (tree_stage env m chk (ors_label (labelCounter ls)))"
    using stage_none[OF d] True by (simp add: tree_stage_def[abs_def])
  moreover have "render_tree env m ls chk b = Some (b, ls\<lparr>labelCounter := labelCounter ls\<rparr>, chk)" "set chk = set chk \<union> keys m"
    using True by (simp_all add: render_tree_def keys_def)
  ultimately show ?thesis by blast
next
  case False
  let ?c = "labelCounter ls"
  define n where "n = ors_label ?c"
  define ls1 where "ls1 = ls\<lparr>labelCounter := Suc ?c\<rparr>"
  have NL: "NewLabel ls = (n, ls1)" using P by (simp add: NewLabel_def n_def ls1_def ors_label_def)
  have nN: "n \<in> numbered ''ors'' ?c" by (auto simp: n_def ors_label_def numbered_def)
  have nn: "n \<noteq> defaultLabel" "\<not> placed b n" "n \<notin> tree_labels (keys m)"
    using nN default_not_ors(1) fr placed_known[of b n] ors_not_tree(1) by blast+
  have fr': "\<not> known b l \<and> l \<noteq> n" if "l \<in> tree_labels (fst ` set m)" for l
    using that fr nn(3) unfolding keys_def by blast
  from renderBST_renders[OF mv(1) False mv(2) ord d nn(2) np nn(1) fr', of chk] obtain p chk' where
    p: "renderBST env chk m n b = Some (p, map_actions m, chk')" "set chk' = set chk \<union> keys m" and
    r: "renders b p (tree_labels (keys m)) {n, defaultLabel} (map_acts m (keys m)) (- {defaultLabel}) (bst_out env chk m n)"
    unfolding keys_def by blast
  have a: "MustHaveJumpedToOrReturned (sp_Record b) [n, defaultLabel] (map_actions m) p = Some p"
    by (rule renders_assertion[OF r]) (simp_all add: map_actions_set[OF mv(2)] keys_def)
  have "\<not> placed p n" using rendersD(5)[OF r] nn by blast
  from Label_then[OF rendersD(1)[OF r] this] obtain p2 where p2: "sp_Label n p = Some p2" by blast
  have "renders b p (tree_labels (keys m)) {n, defaultLabel} (map_acts m (keys m)) {n} (bst_out env chk m n)"
    by (rule renders_weaken[OF r]) (use nn in auto)
  from stage_search[OF this nn(2,3) p2]
  have "stage b p2 (insert n (tree_labels (keys m))) (map_acts m (keys m)) (tree_stage env m chk n)"
    using False by (simp add: tree_stage_def[abs_def])
  moreover have "insert n (tree_labels (keys m)) = tree_labels (keys m) \<union> counted ''ors'' ?c (Suc ?c)"
    unfolding n_def ors_label_def counted_def by (auto simp: le_less_Suc_eq)
  moreover have "render_tree env m ls chk b = Some (p2, ls1, chk')"
    using False p(1) a p2 by (simp add: render_tree_def NL Let_def)
  ultimately show ?thesis using p(2) unfolding n_def ls1_def
    by (intro exI[of _ p2] exI[of _ "Suc ?c"] exI[of _ chk']) simp
qed

lemma render_hot_stage:
  assumes mv: "map_valid (hotNonTrivial ors)" and o: "distinct (hotNonTrivialOrder ors)" "set (hotNonTrivialOrder ors) = keys (hotNonTrivial ors)"
    and d: "direct b" and np: "\<not> placed b defaultLabel" and P: "ls_prefix ls = ''ors''"
    and fr: "\<And>l. l \<in> hot_labels ors \<union> numbered ''ors'' (labelCounter ls) \<Longrightarrow> \<not> known b l"
  shows "\<exists>b2 c' chk. render_hot ors ls [] b = Some (b2, ls\<lparr>labelCounter := c'\<rparr>, chk) \<and> labelCounter ls \<le> c' \<and>
    set chk = keys (hotNonTrivial ors) \<and>
    stage b b2 (hot_labels ors \<union> counted ''ors'' (labelCounter ls) c') (map_acts (hotNonTrivial ors) (keys (hotNonTrivial ors)))
      (\<lambda>k w a. or_else (ors_label (labelCounter ls))
        (linear_out (hotNonTrivial ors) (hotNonTrivialOrder ors) (ors_label (labelCounter ls)) w a) (k w a))"
proof (cases "hotNonTrivialOrder ors = []")
  case True
  have "stage b b (hot_labels ors \<union> counted ''ors'' (labelCounter ls) (labelCounter ls)) (map_acts (hotNonTrivial ors) (keys (hotNonTrivial ors)))
      (\<lambda>k w a. or_else (ors_label (labelCounter ls))
        (linear_out (hotNonTrivial ors) (hotNonTrivialOrder ors) (ors_label (labelCounter ls)) w a) (k w a))"
    using stage_none[OF d] True by (simp add: or_else_def)
  moreover have "render_hot ors ls [] b = Some (b, ls\<lparr>labelCounter := labelCounter ls\<rparr>, [])" "set [] = keys (hotNonTrivial ors)"
    using True o(2) by (simp_all add: render_hot_def)
  ultimately show ?thesis by blast
next
  case False
  let ?c = "labelCounter ls" and ?m = "hotNonTrivial ors" and ?o = "hotNonTrivialOrder ors"
  define n where "n = ors_label ?c"
  define ls1 where "ls1 = ls\<lparr>labelCounter := Suc ?c\<rparr>"
  have NL: "NewLabel ls = (n, ls1)" using P by (simp add: NewLabel_def n_def ls1_def ors_label_def)
  have ls1: "ls_prefix ls1 = ''ors''" "labelCounter ls1 = Suc ?c" "ls_prefix ls1 \<noteq> []" using P by (simp_all add: ls1_def)
  have nN: "n \<in> numbered ''ors'' ?c" by (auto simp: n_def ors_label_def numbered_def)
  have nS: "n \<notin> numbered ''ors'' (Suc ?c)" "n \<notin> hot_labels ors"
    using numbered_not_sysno[OF nN] by (auto simp: n_def ors_label_def numbered_def hot_labels_def sysno_labels_def)
  have nn: "n \<noteq> defaultLabel" "\<not> placed b n" using nN default_not_ors(1) fr placed_known[of b n] by blast+
  have fr': "\<not> known b l \<and> l \<noteq> n \<and> l \<noteq> defaultLabel"
    if "l \<in> numbered (ls_prefix ls1) (labelCounter ls1) \<union> sysno_labels (ls_prefix ls1) ?o" for l
  proof -
    have "l \<in> numbered ''ors'' (Suc ?c) \<union> hot_labels ors" using that unfolding ls1 hot_labels_def .
    moreover have "numbered ''ors'' (Suc ?c) \<subseteq> numbered ''ors'' ?c" by (rule numbered_mono) simp
    ultimately show ?thesis using fr nS default_not_ors(1,2) unfolding hot_labels_def by blast
  qed
  have om: "set ?o \<subseteq> fst ` set ?m" using o(2) by (simp add: keys_def)
  from linear_search_renders[OF mv om o(1) d nn(2) np ls1(3) nn(1) fr', of "[]"] obtain p b' c' acts where
    p: "linear_search ?m ?o ls1 [] b = Some (p, ls1\<lparr>labelCounter := c'\<rparr>, acts)" "Suc ?c \<le> c'" "JumpTo n p = Some b'"
      "set acts = map_acts ?m (keys ?m)" and
    r: "renders b b' (counted ''ors'' (Suc ?c) c' \<union> hot_labels ors) {n, defaultLabel} (map_acts ?m (keys ?m)) {n} (linear_out ?m ?o n)"
    unfolding ls1 map_acts_def hot_labels_def o(2)[symmetric] by auto
  have a: "MustHaveJumpedToOrReturned (sp_Record b) [n, defaultLabel] acts b' = Some b'"
    by (rule renders_assertion[OF r]) (simp_all add: p(4))
  have nS': "n \<notin> counted ''ors'' (Suc ?c) c' \<union> hot_labels ors" using nS counted_numbered[of "''ors''" "Suc ?c" c'] by blast
  then have "\<not> placed b' n" using rendersD(5)[OF r] nn by blast
  from Label_then[OF rendersD(1)[OF r] this] obtain p2 where p2: "sp_Label n b' = Some p2" by blast
  from stage_search[OF r nn(2) nS' p2]
  have st: "stage b p2 (insert n (counted ''ors'' (Suc ?c) c' \<union> hot_labels ors)) (map_acts ?m (keys ?m))
    (\<lambda>k w a. or_else n (linear_out ?m ?o n w a) (k w a))" .
  have "counted ''ors'' ?c c' = insert n (counted ''ors'' (Suc ?c) c')"
    using p(2) unfolding n_def ors_label_def counted_def by (auto simp: Suc_le_eq)
  then have "insert n (counted ''ors'' (Suc ?c) c' \<union> hot_labels ors) = hot_labels ors \<union> counted ''ors'' ?c c'" by blast
  with st have "stage b p2 (hot_labels ors \<union> counted ''ors'' ?c c') (map_acts ?m (keys ?m))
    (\<lambda>k w a. or_else n (linear_out ?m ?o n w a) (k w a))" by simp
  moreover have "render_hot ors ls [] b = Some (p2, ls\<lparr>labelCounter := c'\<rparr>, fold List.insert ?o [])"
    using False p(1,3) a p2 by (simp add: render_hot_def renderLinear_def NL Let_def ls1_def)
  moreover have "set (fold List.insert ?o []) = keys ?m" using o(2) by (simp add: fold_insert_set)
  moreover have "?c \<le> c'" using p(2) by simp
  ultimately show ?thesis unfolding n_def by blast
qed

lemma linear_out_spec:
  assumes "list_all small order"
  shows "linear_out m order n w a = (if ucast a \<in> set order then act_or defaultLabel (ssrs_action (data_of w) (map_get m (ucast a))) else Inl n)"
  using assms by (induction order) (auto simp: ucast_eq_small)

lemma act_or_not: "n \<noteq> defaultLabel \<Longrightarrow> act_or defaultLabel x \<noteq> Inl n"
  using act_or_eq by blast

lemma ors_label_ne: "ors_label c \<noteq> defaultLabel"
  by (simp add: ors_label_def)

lemma map_get_of: "map_of m n = Some (map_get m n) \<or> map_of m n = None"
  by (cases "map_of m n") (simp_all add: map_get_def)

lemma tree_stage_spec:
  assumes "map_valid m" "distinct (map fst m)" "map_order (sysno_order env)" "ucast a \<notin> set chk"
  shows "tree_stage env m chk (ors_label c) k w a = (case map_of m (ucast a) of None \<Rightarrow> k w a
    | Some ssrs \<Rightarrow> act_or defaultLabel (ssrs_action (data_of w) ssrs))"
proof (cases "m = []")
  case True
  then show ?thesis by (simp add: tree_stage_def)
next
  case False
  show ?thesis
    using bst_out_spec[OF assms(1) False assms(2-4), of "ors_label c" w] False act_or_not[OF ors_label_ne]
      map_get_of[of m "ucast a"] map_of_eq_None_iff[of m "ucast a"]
    by (auto simp: tree_stage_def or_else_def split: option.splits)
qed

lemma ors_out_spec:
  assumes v: "ors_valid ors" and ord: "map_order (sysno_order env)"
    and chk: "set chk1 = keys (hotNonTrivial ors)" "set chk2 = keys (hotNonTrivial ors) \<union> keys (coldNonTrivial ors)"
    and nr: "a = Nr (data_of w)"
  shows "ors_out env ors [c0, c1, c2] chk1 chk2 w a = act_or defaultLabel (ors_action ors (data_of w))"
proof -
  let ?h = "hotNonTrivial ors" and ?c = "coldNonTrivial ors" and ?t = "trivial ors" and ?n = "ucast a :: u64"
  have mv: "map_valid ?h" "map_valid ?c" "map_valid ?t" and ds: "distinct (map fst ?h)" "distinct (map fst ?c)" "distinct (map fst ?t)"
    and o: "set (hotNonTrivialOrder ors) = keys ?h"
    using v by (auto simp: ors_valid_def ors_maps_def map_valid_def)
  have so: "list_all small (hotNonTrivialOrder ors)"
    using mv(1) o by (auto simp: list_all_iff map_valid_def small_def keys_def)
  have M: "map_of (ors_maps ors) ?n = (case map_of ?h ?n of Some s \<Rightarrow> Some s | None \<Rightarrow>
      case map_of ?c ?n of Some s \<Rightarrow> Some s | None \<Rightarrow> map_of ?t ?n)"
    by (auto simp: ors_maps_def map_add_def split: option.splits)
  have key: "?n \<in> keys m \<longleftrightarrow> map_of m ?n \<noteq> None" for m
    by (simp add: keys_def map_of_eq_None_iff)
  show ?thesis
  proof (cases "map_of ?h ?n")
    case (Some s)
    then have "linear_out ?h (hotNonTrivialOrder ors) (ors_label c0) w a = act_or defaultLabel (ssrs_action (data_of w) s)"
      using linear_out_spec[OF so, of ?h "ors_label c0" w a] key[of ?h] o by (auto simp: map_get_def)
    with Some M show ?thesis using act_or_not[OF ors_label_ne]
      by (simp add: ors_out_def or_else_def ors_action_def nr[symmetric])
  next
    case None
    then have l: "linear_out ?h (hotNonTrivialOrder ors) (ors_label c0) w a = Inl (ors_label c0)" and n1: "?n \<notin> set chk1"
      using linear_out_spec[OF so, of ?h "ors_label c0" w a] key[of ?h] o chk(1) by auto
    show ?thesis
    proof (cases "map_of ?c ?n")
      case (Some s)
      with l None M show ?thesis
        using tree_stage_spec[OF mv(2) ds(2) ord n1] by (simp add: ors_out_def or_else_def ors_action_def nr[symmetric])
    next
      case None2: None
      then have n2: "?n \<notin> set chk2" using None key chk(2) by auto
      show ?thesis
        using l None None2 M tree_stage_spec[OF mv(2) ds(2) ord n1] tree_stage_spec[OF mv(3) ds(3) ord n2]
        by (auto simp: ors_out_def or_else_def ors_action_def nr[symmetric] act_or_def split: option.splits)
    qed
  qed
qed

lemma map_acts_alt:
  assumes "distinct (map fst m)"
  shows "map_acts m (keys m) = (\<Union>x \<in> set m. sra_action ` set (ssrs_rules (snd x)))"
proof -
  have "set (map_actions m) = (\<Union>x \<in> set m. sra_action ` set (ssrs_rules (snd x)))" by (auto simp: map_actions_def)
  then show ?thesis using map_actions_set[OF assms] by (simp add: keys_def)
qed

lemma ors_validD:
  assumes "ors_valid ors"
  shows "map_valid (hotNonTrivial ors)" "map_valid (coldNonTrivial ors)" "map_valid (trivial ors)"
    "distinct (map fst (hotNonTrivial ors))" "distinct (map fst (coldNonTrivial ors))" "distinct (map fst (trivial ors))"
    "distinct (hotNonTrivialOrder ors)" "set (hotNonTrivialOrder ors) = keys (hotNonTrivial ors)"
    "keys (coldNonTrivial ors) \<inter> keys (trivial ors) = {}"
  using assms by (auto simp: ors_valid_def ors_maps_def map_valid_def keys_def)

lemma ors_render_renders:
  assumes v: "ors_valid ors" and ord: "map_order (sysno_order env)" and d: "direct b" and np: "\<not> placed b defaultLabel"
    and fr: "\<And>l. l \<in> ors_labels ors \<Longrightarrow> \<not> known b l"
  shows "\<exists>b'. ors_render env ors b = Some b' \<and>
    renders b b' (ors_labels ors) {defaultLabel} (ors_acts ors) {} (\<lambda>w a. act_or defaultLabel (ors_action ors (data_of w)))"
proof -
  note V = ors_validD[OF v]
  let ?h = "hotNonTrivial ors" and ?cm = "coldNonTrivial ors" and ?t = "trivial ors"
  let ?b = "AddStmt 0x20 0 b"
  have b: "direct ?b" "placed ?b = placed b" "known ?b = known b" using Stmt_spec[OF d] by simp_all
  define ls where "ls = (\<lambda>c. \<lparr>ls_prefix = ''ors'', labelCounter = c, Matched = [], Mismatched = []\<rparr> :: labelSet)"
  have lsP: "ls_prefix (ls c) = ''ors''" and lsc: "labelCounter (ls c) = c" and lsu: "(ls c)\<lparr>labelCounter := e\<rparr> = ls e" for c e
    by (simp_all add: ls_def)
  have npb: "\<not> placed ?b defaultLabel" using np b(2) by simp
  have fr0: "\<not> known ?b l" if "l \<in> hot_labels ors \<union> numbered ''ors'' 0" for l
    using that fr b(3) by (auto simp: ors_labels_def)
  from render_hot_stage[of ors ?b "ls 0", unfolded lsc lsu, OF V(1,7,8) b(1) npb lsP fr0] obtain p1 c1 chk1 where
    p1: "render_hot ors (ls 0) [] ?b = Some (p1, ls c1, chk1)" "set chk1 = keys ?h" and
    s1: "stage ?b p1 (hot_labels ors \<union> counted ''ors'' 0 c1) (map_acts ?h (keys ?h))
      (\<lambda>k w a. or_else (ors_label 0) (linear_out ?h (hotNonTrivialOrder ors) (ors_label 0) w a) (k w a))"
    by blast
  have k1: "known p1 l \<Longrightarrow> known b l \<or> l \<in> hot_labels ors \<union> counted ''ors'' 0 c1 \<or> l = defaultLabel"
    "placed p1 l \<Longrightarrow> placed b l \<or> l \<in> hot_labels ors \<union> counted ''ors'' 0 c1" for l
    using stageD(2,3)[OF s1, of l] unfolding b(2,3) by blast+
  have dir1: "direct p1" by (rule stageD[OF s1])
  have d1: "defaultLabel \<notin> hot_labels ors \<union> counted ''ors'' 0 c1" for c1
    using default_not_ors counted_numbered[of "''ors''" 0 c1] unfolding hot_labels_def by blast
  have np1: "\<not> placed p1 defaultLabel" using k1(2) np d1 by blast
  have numF: "l \<in> numbered ''ors'' c \<Longrightarrow> l \<notin> hot_labels ors \<and> l \<notin> tree_labels W \<and> l \<noteq> defaultLabel \<and> \<not> known b l \<and> l \<notin> counted ''ors'' e c" for l c W e
    using numbered_not_sysno[of l "''ors''" c] ors_not_tree(1)[of l W c] default_not_ors(1)[of c] numbered_not_counted[of l "''ors''" c c e]
      numbered_mono[of 0 c "''ors''"] fr
    by (auto simp: hot_labels_def sysno_labels_def ors_labels_def)
  have treeF: "l \<in> tree_labels W \<Longrightarrow> l \<notin> hot_labels ors \<and> l \<notin> counted ''ors'' e c \<and> l \<noteq> defaultLabel" for l c W e
    using ors_not_tree[of l W] default_not_ors(3)[of W] counted_numbered[of "''ors''" e c] by (auto simp: hot_labels_def)
  have frT: "l \<in> tree_labels (keys ?cm) \<union> tree_labels (keys ?t) \<Longrightarrow> \<not> known b l" for l
    using fr by (auto simp: ors_labels_def)
  have fr1: "\<not> known p1 l" if "l \<in> tree_labels (keys ?cm) \<union> numbered ''ors'' c1" for l
    using that k1(1)[of l] numF[of l c1] treeF[of l "keys ?cm" 0 c1] frT by auto
  from render_tree_stage[of ?cm env p1 "ls c1" chk1, unfolded lsc lsu, OF V(2,5) ord dir1 np1 lsP fr1] obtain p2 c2 chk2 where
    p2: "render_tree env ?cm (ls c1) chk1 p1 = Some (p2, ls c2, chk2)" "c1 \<le> c2" "set chk2 = keys ?h \<union> keys ?cm" and
    s2: "stage p1 p2 (tree_labels (keys ?cm) \<union> counted ''ors'' c1 c2) (map_acts ?cm (keys ?cm)) (tree_stage env ?cm chk1 (ors_label c1))"
    unfolding p1(2) by blast
  have k2: "known p2 l \<Longrightarrow> known p1 l \<or> l \<in> tree_labels (keys ?cm) \<union> counted ''ors'' c1 c2 \<or> l = defaultLabel"
    "placed p2 l \<Longrightarrow> placed p1 l \<or> l \<in> tree_labels (keys ?cm) \<union> counted ''ors'' c1 c2" for l
    using stageD(2,3)[OF s2, of l] by blast+
  have dir2: "direct p2" by (rule stageD[OF s2])
  have d2: "defaultLabel \<notin> tree_labels W \<union> counted ''ors'' e c" for W e c
    using default_not_ors counted_numbered[of "''ors''" e c] by blast
  have np2: "\<not> placed p2 defaultLabel" using k2(2) np1 d2 by blast
  have n12: "numbered ''ors'' c2 \<subseteq> numbered ''ors'' c1" by (rule numbered_mono) (rule p2(2))
  have fr2: "\<not> known p2 l" if "l \<in> tree_labels (keys ?t) \<union> numbered ''ors'' c2" for l
  proof (cases "l \<in> tree_labels (keys ?t)")
    case True
    then have "l \<notin> tree_labels (keys ?cm)" using tree_labels_disjoint[of l "keys ?t" "keys ?cm"] V(9) by blast
    then show ?thesis using k2(1)[of l] k1(1)[of l] treeF[OF True] frT[of l] True by blast
  next
    case False
    then have "l \<in> numbered ''ors'' c2" using that by simp
    then show ?thesis using k2(1)[of l] k1(1)[of l] numF[of l c2] numF[of l c1] n12 by blast
  qed
  from render_tree_stage[of ?t env p2 "ls c2" chk2, unfolded lsc lsu, OF V(3,6) ord dir2 np2 lsP fr2] obtain p3 c3 chk3 where
    p3: "render_tree env ?t (ls c2) chk2 p2 = Some (p3, ls c3, chk3)" and
    s3: "stage p2 p3 (tree_labels (keys ?t) \<union> counted ''ors'' c2 c3) (map_acts ?t (keys ?t)) (tree_stage env ?t chk2 (ors_label c2))"
    by blast
  have dir3: "direct p3" by (rule stageD[OF s3])
  have "\<not> placed p3 defaultLabel" using stageD(2)[OF s3, of defaultLabel] np2 d2 by blast
  from renders_jump[OF dir3 this] obtain p4 where p4: "JumpTo defaultLabel p3 = Some p4" and
    r4: "renders p3 p4 {} {defaultLabel} {} UNIV (\<lambda>_ _. Inl defaultLabel)" by blast
  have r4': "renders p3 p4 {} {defaultLabel} {} {} (\<lambda>_ _. Inl defaultLabel)" by (rule renders_weaken[OF r4]) auto
  let ?S = "hot_labels ors \<union> counted ''ors'' 0 c1 \<union> ((tree_labels (keys ?cm) \<union> counted ''ors'' c1 c2) \<union> (tree_labels (keys ?t) \<union> counted ''ors'' c2 c3))"
  let ?A = "map_acts ?h (keys ?h) \<union> (map_acts ?cm (keys ?cm) \<union> map_acts ?t (keys ?t))"
  have "defaultLabel \<notin> (tree_labels (keys ?cm) \<union> counted ''ors'' c1 c2) \<union> (tree_labels (keys ?t) \<union> counted ''ors'' c2 c3)" using d2 by blast
  from stageD(4)[OF stage_trans[OF s1 stage_trans[OF s2 s3 d2] this] r4']
  have "renders ?b p4 (?S \<union> {}) {defaultLabel} (?A \<union> {}) {}
     (\<lambda>w a. or_else (ors_label 0) (linear_out ?h (hotNonTrivialOrder ors) (ors_label 0) w a)
        (tree_stage env ?cm chk1 (ors_label c1) (tree_stage env ?t chk2 (ors_label c2) (\<lambda>_ _. Inl defaultLabel)) w a))"
    by simp
  then have "renders ?b p4 ?S {defaultLabel} ?A {} (ors_out env ors [0, c1, c2] chk1 chk2)"
    by (simp add: ors_out_def[abs_def])
  from renders_load[OF d this] have r: "renders b p4 ?S {defaultLabel} ?A {} (\<lambda>w a. ors_out env ors [0, c1, c2] chk1 chk2 w (w 0))"
    by (simp add: word_offset_def exI[of _ 0])
  have A: "?A = ors_acts ors" unfolding map_acts_alt[OF V(4)] map_acts_alt[OF V(5)] map_acts_alt[OF V(6)]
    by (simp add: ors_acts_def ors_maps_def UN_Un)
  have rr: "renders b p4 (ors_labels ors) {defaultLabel} (ors_acts ors) {} (\<lambda>w a. act_or defaultLabel (ors_action ors (data_of w)))"
  proof (rule renders_weaken[OF r])
    have "counted ''ors'' e c \<subseteq> numbered ''ors'' 0" for e c using counted_numbered[of "''ors''" e c] numbered_mono[of 0 e "''ors''"] by auto
    then show "?S \<subseteq> ors_labels ors" unfolding ors_labels_def by blast
    show "act_or defaultLabel (ors_action ors (data_of w)) = ors_out env ors [0, c1, c2] chk1 chk2 w (w 0)" for w a
      by (rule ors_out_spec[OF v ord p1(2) p2(3), symmetric]) (simp add: data_of_def)
  qed (simp_all add: A)
  have "set (map_actions (?h @ ?cm @ ?t)) = ors_acts ors"
    by (auto simp: map_actions_def ors_acts_def ors_maps_def)
  then have a: "MustHaveJumpedToOrReturned (sp_Record b) [defaultLabel] (map_actions (?h @ ?cm @ ?t)) p4 = Some p4"
    by (intro renders_assertion[OF rr]) simp_all
  have "ors_render env ors b = Some p4"
    using p1(1) p2(1) p3 p4 a by (simp add: ors_render_def Let_def sp_Stmt_def ls_def)
  with rr show ?thesis by blast
qed

section \<open>The final program\<close>

lemma built_direct_opcode:
  "built b \<Longrightarrow> src_at b i = Some l \<Longrightarrow> OpCode (pb_insns b ! i) = 5"
proof (induction arbitrary: i l rule: built.induct)
  case (built_stmt b code k)
  then have "i < len b" using built_ok[of b] by (auto simp: src_at_def slots_ok_def AddStmt_def)
  with built_stmt show ?case by (auto simp: src_at_def AddStmt_def nth_append)
next
  case (built_jump b code k jt jf)
  then have "i < len b" using built_ok[of b] by (auto simp: src_at_def slots_ok_def AddJump_def)
  with built_jump show ?case by (auto simp: src_at_def AddJump_def nth_append)
next
  case (built_direct b x b')
  then obtain b1 where b1: "addLabelSource x JumpDirect b = Some b1" "b' = AddJump (bpf_Jmp OR bpf_Ja) labelDirectTarget 0 0 b1"
    by (auto simp: AddDirectJumpLabel_def bind_eq_Some_conv)
  note e = addLabelSource_eq[OF b1(1)]
  show ?case
  proof (cases "i = len b")
    case True
    then show ?thesis by (simp add: b1(2) AddJump_def e(4) Jump_def)
  next
    case False
    with built_direct.prems have "src_at b i = Some l" by (simp add: src_at_def b1(2) AddJump_def e(2) update_conv)
    moreover from this have "i < len b" using built_ok[OF built_direct.hyps(1)] by (auto simp: src_at_def slots_ok_def)
    ultimately show ?thesis using built_direct.IH by (simp add: b1(2) AddJump_def e(4) nth_append)
  qed
next
  case (built_true b code k x jf b')
  then obtain b1 where b1: "addLabelSource x JumpTrue b = Some b1" "pb_insns b' = pb_insns b1 @ [Jump code k labelTarget jf]" "jumpSourceToLabel b' = jumpSourceToLabel b1"
    by (auto simp: AddJumpTrueLabel_def AddJump_def bind_eq_Some_conv)
  note e = addLabelSource_eq[OF b1(1)]
  with built_true.prems have "src_at b i = Some l" by (simp add: src_at_def b1 update_conv)
  moreover from this have "i < len b" using built_ok[OF built_true.hyps(1)] by (auto simp: src_at_def slots_ok_def)
  ultimately show ?case using built_true.IH by (simp add: b1(2) e(4) nth_append)
next
  case (built_false b code k jt x b')
  then obtain b1 where b1: "addLabelSource x JumpFalse b = Some b1" "pb_insns b' = pb_insns b1 @ [Jump code k jt labelTarget]" "jumpSourceToLabel b' = jumpSourceToLabel b1"
    by (auto simp: AddJumpFalseLabel_def AddJump_def bind_eq_Some_conv)
  note e = addLabelSource_eq[OF b1(1)]
  with built_false.prems have "src_at b i = Some l" by (simp add: src_at_def b1 update_conv)
  moreover from this have "i < len b" using built_ok[OF built_false.hyps(1)] by (auto simp: src_at_def slots_ok_def)
  ultimately show ?case using built_false.IH by (simp add: b1(2) e(4) nth_append)
next
  case (built_both b code k x y b')
  then obtain b1 b2 where b1: "addLabelSource x JumpTrue b = Some b1" "addLabelSource y JumpFalse b1 = Some b2"
      "pb_insns b' = pb_insns b2 @ [Jump code k labelTarget labelTarget]" "jumpSourceToLabel b' = jumpSourceToLabel b2"
    by (auto simp: AddJumpLabels_def AddJump_def bind_eq_Some_conv)
  note e = addLabelSource_eq[OF b1(1)] and e2 = addLabelSource_eq[OF b1(2)]
  with built_both.prems have "src_at b i = Some l" by (simp add: src_at_def b1 update_conv)
  moreover from this have "i < len b" using built_ok[OF built_both.hyps(1)] by (auto simp: src_at_def slots_ok_def)
  ultimately show ?case using built_both.IH by (simp add: b1(3) e(4) e2(4) nth_append)
next
  case (built_label b x b')
  then have "src_at b i = Some l" "pb_insns b' = pb_insns b"
    by (auto simp: AddLabel_def src_at_def split: option.splits if_splits)
  with built_label.IH show ?case by simp
qed (simp add: NewProgramBuilder_def src_at_def)

lemma closed_source:
  assumes d: "direct b" and c: "closed b 0 {} R" and s: "src_at b i = Some l"
  shows "\<exists>t. target b l = Some t \<and> i < t \<and> t < len b"
proof -
  have op: "OpCode (pb_insns b ! i) = 5" and i: "i < len b"
    using built_direct_opcode[OF _ s] direct_src_label(1)[OF d s] d by (simp_all add: direct_def)
  have "leaves_ok b {} R i" using c i unfolding closed_def by blast
  then show ?thesis using op s by (simp add: leaves_ok_def split: option.splits)
qed

text \<open>Code that leaves through no label: all labels can be resolved.\<close>

lemma closed_resolvable:
  assumes d: "direct b" and c: "closed b 0 {} R" and n: "len b \<le> 2 ^ 32"
  shows "resolvable b"
  unfolding resolvable_def list_all_iff
proof (intro ballI)
  fix x assume x: "x \<in> set (labels b)"
  obtain name lab where xe: "x = (name, lab)" by (cases x)
  have ok: "labels_ok b" "slots_ok b {}" using built_ok[of b] d by (auto simp: direct_def)
  then have m: "map_of (labels b) name = Some lab" using x xe by (simp add: labels_ok_def)
  then have un: "name \<notin> set (unusableLabels b)" "lbl_sources lab \<noteq> []" using d unfolding direct_def by blast+
  have src: "\<exists>t. lbl_target lab = Some t \<and> src_line s < t \<and> t < len b \<and> src_jt s = JumpDirect" if s: "s \<in> set (lbl_sources lab)" for s
  proof -
    have js: "map_of (jumpSourceToLabel b) s = Some name" using s m ok(1) by (auto simp: labels_ok_def)
    then have jt: "src_jt s = JumpDirect" using d unfolding direct_def by blast
    then have se: "s = \<lparr>src_line = src_line s, src_jt = JumpDirect\<rparr>" by simp
    then have sa: "src_at b (src_line s) = Some name" using js by (simp add: src_at_def)
    from closed_source[OF d c sa] jt m show ?thesis by (auto simp: target_def)
  qed
  from un(2) obtain s0 where "s0 \<in> set (lbl_sources lab)" by (cases "lbl_sources lab") auto
  from src[OF this] obtain t where t: "lbl_target lab = Some t" "t < len b" by blast
  have "source_fits t s" if "s \<in> set (lbl_sources lab)" for s
    using src[OF that] t n by (auto simp: source_fits_def)
  with t un(1) show "label_resolvable b x" by (simp add: xe label_resolvable_def list_all_iff)
qed

lemma resolvable_fits:
  assumes d: "direct b" and r: "resolvable b" and s: "src_at b i = Some l" "target b l = Some t"
  shows "t - i - 1 < 2 ^ 32"
proof -
  have ok: "labels_ok b" using built_ok[of b] d by (auto simp: direct_def)
  from s(2) obtain lab where lab: "map_of (labels b) l = Some lab" "lbl_target lab = Some t"
    by (auto simp: target_def bind_eq_Some_conv)
  have "\<lparr>src_line = i, src_jt = JumpDirect\<rparr> \<in> set (lbl_sources lab)" using ok s(1) lab(1) by (auto simp: labels_ok_def src_at_def)
  moreover have "label_resolvable b (l, lab)" using r map_of_SomeD[OF lab(1)] by (auto simp: resolvable_def list_all_iff)
  ultimately show ?thesis using lab(2) by (auto simp: label_resolvable_def list_all_iff source_fits_def)
qed

lemma direct_no_cond: "direct b \<Longrightarrow> source_offset b UNIV i JumpTrue = None" "direct b \<Longrightarrow> source_offset b UNIV i JumpFalse = None"
proof -
  assume d: "direct b"
  have "map_of (jumpSourceToLabel b) \<lparr>src_line = i, src_jt = t\<rparr> = None" if "t \<noteq> JumpDirect" for t
    using d that unfolding direct_def by (metis option.exhaust source.select_convs(2))
  then show "source_offset b UNIV i JumpTrue = None" "source_offset b UNIV i JumpFalse = None"
    by (simp_all add: source_offset_def source_target_def)
qed

lemma resolved_nth:
  assumes d: "direct b" and i: "i < len b"
  shows "resolved b ! i = (case src_at b i of None \<Rightarrow> pb_insns b ! i
    | Some l \<Rightarrow> (case target b l of None \<Rightarrow> pb_insns b ! i | Some t \<Rightarrow> (pb_insns b ! i)\<lparr>ImmK := of_nat (t - i - 1)\<rparr>))"
  using i direct_no_cond[OF d, of i]
  by (auto simp: resolved_def patch_def source_offset_def source_target_def src_at_def target_def split: option.splits)

lemma closed_agrees:
  assumes d: "direct b" and c: "closed b 0 {} R" and rb: "resolvable b"
  shows "agrees b (resolved b) (\<lambda>l. the (target b l))"
proof (rule agreesI)
  show "len b \<le> length (resolved b)" by (simp add: resolved_def)
  fix i assume i: "i < len b"
  show "insn_agrees (resolved b) (\<lambda>l. the (target b l)) i (src_at b i) (pb_insns b ! i)"
  proof (cases "src_at b i")
    case None
    then show ?thesis using resolved_nth[OF d i] by (simp add: insn_agrees_def)
  next
    case (Some l)
    from closed_source[OF d c Some] obtain t where t: "target b l = Some t" "i < t" "t < len b" by blast
    then show ?thesis using resolved_nth[OF d i] Some resolvable_fits[OF d rb Some t(1)] by (simp add: insn_agrees_def resolved_def)
  qed
qed simp

lemma unat_jump_offset: "t - i - 1 < 2 ^ 32 \<Longrightarrow> unat (of_nat (t - i - 1) :: u32) = t - i - 1"
  by (rule unat_of_nat_u32) simp

lemma closed_wf:
  assumes d: "direct b" and c: "closed b 0 {} R" and rb: "resolvable b" and ne: "0 < len b"
  shows "wf_prog (resolved b)" "plain_loads (resolved b)"
proof -
  have L: "length (resolved b) = len b" by (simp add: resolved_def)
  have main: "wf_insn (len b) i (resolved b ! i) \<and> plain_load (resolved b ! i)" if i: "i < len b" for i
  proof -
    let ?ins = "pb_insns b ! i"
    from c i have lv: "leaves_ok b {} R i" by (simp add: closed_def)
    consider (ja) "OpCode ?ins = 5" | (other) "OpCode ?ins \<noteq> 5" by blast
    then show ?thesis
    proof cases
      case ja
      with lv obtain l where "src_at b i = Some l" by (auto simp: leaves_ok_def split: option.splits)
      with closed_source[OF d c this] obtain l t where l: "src_at b i = Some l" "target b l = Some t" "i < t" "t < len b" by blast
      then have r: "resolved b ! i = ?ins\<lparr>ImmK := of_nat (t - i - 1)\<rparr>" using resolved_nth[OF d i] by simp
      have op: "opcode_case (OpCode (resolved b ! i)) = Some CJa" using ja by (simp add: r opcode_case_used)
      have "unat (ImmK (resolved b ! i)) = t - i - 1" unfolding r using unat_jump_offset[OF resolvable_fits[OF d rb l(1,2)]] by simp
      with l show ?thesis unfolding wf_insn_def insn_ok_def plain_load_def succs_case[OF op] op by simp
    next
      case other
      have "src_at b i = None" using built_direct_opcode[of b i] other d by (cases "src_at b i") (auto simp: direct_def)
      then have r: "resolved b ! i = ?ins" using resolved_nth[OF d i] by simp
      from lv other consider (ret) "OpCode ?ins = 6"
        | (cond) "cond_op (OpCode ?ins)" "i + unat (JumpIfTrue ?ins) + 1 < len b" "i + unat (JumpIfFalse ?ins) + 1 < len b"
        | (op) "OpCode ?ins \<in> {0x20, 0x54}" "Suc i < len b"
        by (auto simp: leaves_ok_def Let_def split: if_splits)
      then show ?thesis
      proof cases
        case ret
        then have op: "opcode_case (OpCode ?ins) = Some CRetK" by (simp add: opcode_case_used)
        show ?thesis unfolding r wf_insn_def insn_ok_def plain_load_def succs_case[OF op] op by simp
      next
        case cond
        then obtain cmp where op: "opcode_case (OpCode ?ins) = Some (CJcond cmp SrcK)" by (auto simp: opcode_case_used)
        show ?thesis using cond(2,3) unfolding r wf_insn_def insn_ok_def plain_load_def succs_case[OF op] op by simp
      next
        case op
        then consider (ld) "opcode_case (OpCode ?ins) = Some (CLdAbs SzW)" | (al) "opcode_case (OpCode ?ins) = Some (CAlu AluAnd SrcK)"
          by (auto simp: opcode_case_used)
        then show ?thesis
        proof cases
          case ld
          show ?thesis using op(2) unfolding r wf_insn_def insn_ok_def plain_load_def succs_case[OF ld] ld by simp
        next
          case al
          show ?thesis using op(2) unfolding r wf_insn_def insn_ok_def plain_load_def succs_case[OF al] al by simp
        qed
      qed
    qed
  qed
  show "wf_prog (resolved b)" using main ne L unfolding wf_prog_def by auto
  show "plain_loads (resolved b)" using main L unfolding plain_loads_def list_all_length by auto
qed

lemma badarch_not_ors: "''badarch'' \<notin> ors_labels ors" "''badarch'' \<noteq> defaultLabel" "defaultLabel \<notin> ors_labels ors"
  by (auto simp: ors_labels_def numbered_def hot_labels_def sysno_labels_def tree_labels_def node_labels_def node_name_def
      checkArgsLabel_def beneath_def sysno_prefix_def)

lemma build_program_renders:
  assumes v: "ors_valid ors" and ord: "map_order (sysno_order env)" and acts: "ors_acts ors \<subseteq> set possibleActions"
  shows "\<exists>p5. build_program env options ors def possibleActions =
      do { badArch \<leftarrow> Action_bpf (default_action env options) (BadArchAction options);
           Some (case badArch of Inl err \<Rightarrow> Inl (ActionError err) | Inr bad \<Rightarrow> Inr (sp_Ret bad p5)) } \<and>
    (\<forall>bad. renders NewProgramBuilder (sp_Ret bad p5) UNIV {} UNIV {} (\<lambda>w a. Inr (program_action ors def bad (data_of w))))"
proof -
  let ?b = "NewProgramBuilder" and ?bad = "''badarch''" and ?S = "ors_labels ors"
  let ?b1 = "AddStmt 0x20 4 ?b"
  have k0: "\<not> known ?b l" "\<not> placed ?b l" for l by (simp_all add: known_def placed_def target_def NewProgramBuilder_def)
  have b1: "direct ?b1" "placed ?b1 = placed ?b" "known ?b1 = known ?b" using Stmt_spec[OF direct_new] by simp_all
  have "\<not> placed ?b1 ?bad" using k0 b1 by simp
  from IfNot_then[OF b1(1) this, of "0x15" LINUX_AUDIT_ARCH] obtain p1 where
    p1: "IfNot 0x15 LINUX_AUDIT_ARCH ?bad ?b1 = Some p1" "direct p1" "placed p1 = placed ?b" "\<forall>x. known p1 x \<longleftrightarrow> x = ?bad" and
    th: "\<And>b' S L R K out. renders p1 b' S L R K out \<Longrightarrow> ?bad \<notin> S \<Longrightarrow>
       renders ?b1 b' S (insert ?bad L) R {x. (x = ?bad \<or> x \<in> K) \<and> (x = ?bad \<longrightarrow> x \<in> K \<or> (\<forall>w a. out w a \<noteq> Inl ?bad))}
         (\<lambda>w a. if \<not> jump_holds 0x15 LINUX_AUDIT_ARCH a then Inl ?bad else out w a)"
    using k0 b1 by auto
  have np1: "\<not> placed p1 defaultLabel" using p1(3) k0 by simp
  have fr1: "\<not> known p1 l" if "l \<in> ?S" for l using that p1(4) badarch_not_ors(1) by auto
  from ors_render_renders[OF v ord p1(2) np1 fr1] obtain p2 where p2: "ors_render env ors p1 = Some p2" and
    r2: "renders p1 p2 ?S {defaultLabel} (ors_acts ors) {} (\<lambda>w a. act_or defaultLabel (ors_action ors (data_of w)))" by blast
  have a2: "MustHaveJumpedToOrReturned (sp_Record p1) [defaultLabel] possibleActions p2 = Some p2"
    by (rule renders_assertion[OF r2]) (use acts in simp_all)
  have "\<not> placed p2 defaultLabel" using rendersD(5)[OF r2] np1 badarch_not_ors(3) by blast
  from Label_then[OF rendersD(1)[OF r2] this] obtain p3 where p3: "sp_Label defaultLabel p2 = Some p3" "direct p3" by blast
  have r4: "renders p1 (sp_Ret def p3) (insert defaultLabel (?S \<union> {})) ({defaultLabel} - {defaultLabel} \<union> {}) (ors_acts ors \<union> {def}) {}
     (\<lambda>w a. if act_or defaultLabel (ors_action ors (data_of w)) = Inl defaultLabel then Inr def else act_or defaultLabel (ors_action ors (data_of w)))"
    by (rule renders_seq[OF r2 np1 badarch_not_ors(3) p3(1) renders_ret[OF p3(2)]]) auto
  let ?p4 = "sp_Ret def p3" and ?out = "\<lambda>w. case ors_action ors (data_of w) of None \<Rightarrow> def | Some v \<Rightarrow> v"
  have "renders p1 ?p4 (insert defaultLabel ?S) {} (ors_acts ors \<union> {def}) {} (\<lambda>w a. Inr (?out w))"
    by (rule renders_weaken[OF r4]) (auto simp: act_or_def split: option.splits)
  from th[OF this] have "renders ?b1 ?p4 (insert defaultLabel ?S) {?bad} (ors_acts ors \<union> {def}) {?bad}
      (\<lambda>w a. if \<not> jump_holds 0x15 LINUX_AUDIT_ARCH a then Inl ?bad else Inr (?out w))"
    using badarch_not_ors(1,2) by simp
  then have r5: "renders ?b1 ?p4 (insert defaultLabel ?S) {?bad} (ors_acts ors \<union> {def}) {?bad}
      (\<lambda>w a. if a \<noteq> LINUX_AUDIT_ARCH then Inl ?bad else Inr (?out w))"
    by (rule renders_weaken) (auto simp: jump_holds_def)
  have nb: "?bad \<notin> insert defaultLabel ?S" using badarch_not_ors by simp
  then have "\<not> placed ?p4 ?bad" using rendersD(5)[OF r5] \<open>\<not> placed ?b1 ?bad\<close> by blast
  from Label_then[OF rendersD(1)[OF r5] this] obtain p5 where p5: "sp_Label ?bad ?p4 = Some p5" "direct p5" by blast
  have fin: "renders ?b (sp_Ret bad p5) UNIV {} UNIV {} (\<lambda>w a. Inr (program_action ors def bad (data_of w)))" for bad
  proof -
    from renders_seq[OF r5 \<open>\<not> placed ?b1 ?bad\<close> nb p5(1) renders_ret[OF p5(2), of bad], of "{}"]
    have "renders ?b1 (sp_Ret bad p5) (insert ?bad (insert defaultLabel ?S)) {} (insert bad (insert def (ors_acts ors))) {}
      (\<lambda>w a. if (if a \<noteq> LINUX_AUDIT_ARCH then Inl ?bad else Inr (?out w)) = Inl ?bad then Inr bad
         else if a \<noteq> LINUX_AUDIT_ARCH then Inl ?bad else Inr (?out w))" by simp
    from renders_load[OF direct_new this] have "renders ?b (sp_Ret bad p5) (insert ?bad (insert defaultLabel ?S)) {} (insert bad (insert def (ors_acts ors))) {}
      (\<lambda>w a. if (if w 4 \<noteq> LINUX_AUDIT_ARCH then Inl ?bad else Inr (?out w)) = Inl ?bad then Inr bad
         else if w 4 \<noteq> LINUX_AUDIT_ARCH then Inl ?bad else Inr (?out w))"
      by (simp add: word_offset_def exI[of _ 1])
    then show ?thesis by (rule renders_weaken) (auto simp: program_action_def data_of_def)
  qed
  have "build_program env options ors def possibleActions =
      do { badArch \<leftarrow> Action_bpf (default_action env options) (BadArchAction options);
           Some (case badArch of Inl err \<Rightarrow> Inl (ActionError err) | Inr bad \<Rightarrow> Inr (sp_Ret bad p5)) }"
    using p1(1) p2 a2 p3(1) p5(1) by (simp add: build_program_def Let_def sp_Stmt_def)
  with fin show ?thesis by blast
qed

text \<open>Resolving labels and optimising keeps what the program does.\<close>

lemma finish_build_ok:
  assumes r: "renders NewProgramBuilder p S {} R K (\<lambda>w a. Inr (f w))" and ord: "map_order (label_order env)"
  shows "(\<exists>err. finish_build env options p = Some (Inl (ResolveError err)) \<and> 2 ^ 32 < len p) \<or>
    (\<exists>insns stats. finish_build env options p = Some (Inr (insns, stats)) \<and>
    SizeBeforeOptimizations stats = len p \<and> SizeAfterOptimizations stats = length insns \<and> length insns \<le> len p \<and>
    wf_prog insns \<and>
    (\<forall>e inp w. readable e inp w \<longrightarrow> Exec e \<lparr>instructions = insns\<rparr> inp = Some (Inr (f w))))"
proof -
  note R = rendersD[OF r]
  have new: "len NewProgramBuilder = 0" by (simp add: NewProgramBuilder_def)
  have c: "closed p 0 {} R" "0 < len p" using R(3,4) new by simp_all
  have b: "built p" using R(1) by (simp add: direct_def)
  from Instructions_spec[OF b ord] obtain is0 err where
    I0: "Instructions (label_order env) p = Some (is0, err)" "err = None \<longleftrightarrow> resolvable p" "err = None \<longrightarrow> is0 = resolved p" by blast
  show ?thesis
  proof (cases "resolvable p")
    case False
    then have "2 ^ 32 < len p" using closed_resolvable[OF R(1) c(1)] by (metis not_less)
    with False I0 show ?thesis by (auto simp: finish_build_def)
  next
    case rb: True
    then have I: "Instructions (label_order env) p = Some (resolved p, None)" using I0 by simp
    note wf = closed_wf[OF R(1) c(1) rb c(2)]
    have ex: "exec_from e inp (resolved p) 0 m = Some (Inr (f w))" if "readable e inp w" for e inp w m
      using R(7) that closed_agrees[OF R(1) c(1) rb] unfolding computes_def leads_def new by fastforce
    have len: "length (resolved p) = len p" by (simp add: resolved_def)
    show ?thesis
    proof (cases "SkipOptimizations options")
      case True
      then show ?thesis using I wf ex len by (simp add: finish_build_def Exec_def)
    next
      case False
      from optimize_total[OF wf(1), of "return_order env"] obtain q where q: "Optimize (return_order env) (resolved p) = Some q"
        "wf_prog q" "kept q (resolved p)" "length q \<le> length (resolved p)" by blast
      then have oe: "obs_equiv q (resolved p)" using wf(2) by (simp add: kept_def)
      have "Exec e \<lparr>instructions = q\<rparr> inp = Some (Inr (f w))" if "readable e inp w" for e inp w
      proof -
        have "observe (Exec e \<lparr>instructions = q\<rparr> inp) = Some (Inr (f w))"
          using oe ex[OF that] by (simp add: obs_equiv_def Exec_def observe_def)
        then show ?thesis
          by (cases "Exec e \<lparr>instructions = q\<rparr> inp"; cases "the (Exec e \<lparr>instructions = q\<rparr> inp)") (auto simp: observe_def)
      qed
      with False I q len show ?thesis by (simp add: finish_build_def)
    qed
  qed
qed

end
