(* ===== verification/Spec2Isabelle.thy ===== *)
theory Spec2Isabelle
  imports Bpf_Opt_Correct Seccomp_Assembly
begin

end
